(* ===== verification/Prelude.thy ===== *)
theory Prelude
  imports Main "HOL-Library.Word"
begin

text \<open>
  Shared vocabulary of the development: bytes and Rust's fixed-width integers, the result
  type of a Rust function that can return an error or panic, checked slicing, big-endian
  encodings, UTF-8 validity, and the list lemmas the component theories use.

  A Rust \<open>Result<T, E>\<close> is a value of type \<open>('e, 'a) result\<close>: \<open>Inr\<close> is \<open>Ok\<close>,
  \<open>Inl (Err e)\<close> is \<open>Err(e)\<close> and \<open>Inl Panic\<close> is a panic (an index or slice out of range,
  an arithmetic overflow, a failed \<open>unwrap\<close>), so that the absence of panics is a theorem
  and not an artefact of the embedding.  The \<open>?\<close> operator is \<open>rbind\<close>.
\<close>

named_theorems wire_simps \<open>rewrite rules that evaluate encoders, decoders and checked slices\<close>
named_theorems proto_defs \<open>definitions of protocol constants\<close>

type_synonym byte = "8 word"
type_synonym bytes = "8 word list"
type_synonym u16 = "16 word"
type_synonym u32 = "32 word"
type_synonym u64 = "64 word"

section \<open>Results\<close>

datatype 'e fault = Err 'e | Panic

type_synonym ('e, 'a) result = "'e fault + 'a"

definition rbind :: "('e, 'a) result \<Rightarrow> ('a \<Rightarrow> ('e, 'b) result) \<Rightarrow> ('e, 'b) result" where
  "rbind m f = (case m of Inl e \<Rightarrow> Inl e | Inr x \<Rightarrow> f x)"

lemma rbind_Inl [simp]: "rbind (Inl e) f = Inl e"
  by (simp add: rbind_def)

lemma rbind_Inr [simp]: "rbind (Inr x) f = f x"
  by (simp add: rbind_def)

lemma rbind_eq_Inr: "rbind m f = Inr y \<longleftrightarrow> (\<exists>x. m = Inr x \<and> f x = Inr y)"
  by (cases m) auto

lemma rbind_eq_Panic:
  "rbind m f = Inl Panic \<longleftrightarrow> m = Inl Panic \<or> (\<exists>x. m = Inr x \<and> f x = Inl Panic)"
  by (cases m) auto

lemma rbind_cong [fundef_cong]:
  "m = m' \<Longrightarrow> (\<And>x. m' = Inr x \<Longrightarrow> f x = f' x) \<Longrightarrow> rbind m f = rbind m' f'"
  by (cases m') auto

definition ok_or :: "'e \<Rightarrow> 'a option \<Rightarrow> ('e, 'a) result" where
  "ok_or e m = (case m of None \<Rightarrow> Inl (Err e) | Some x \<Rightarrow> Inr x)"

lemma ok_or_simps [simp]: "ok_or e None = Inl (Err e)" "ok_or e (Some x) = Inr x"
  by (simp_all add: ok_or_def)

lemma ok_or_eq_Inr [simp]: "ok_or e m = Inr x \<longleftrightarrow> m = Some x"
  by (cases m) auto

lemma ok_or_not_Panic [simp]: "ok_or e m \<noteq> Inl Panic"
  by (cases m) auto

text \<open>\<open>map_err\<close> with a constant, as in \<open>map_err(|_| e)\<close>: a panic is not an \<open>Err\<close> and passes.\<close>

definition map_err_to :: "'f \<Rightarrow> ('e, 'a) result \<Rightarrow> ('f, 'a) result" where
  "map_err_to e m = (case m of Inl (Err _) \<Rightarrow> Inl (Err e) | Inl Panic \<Rightarrow> Inl Panic | Inr x \<Rightarrow> Inr x)"

lemma map_err_to_simps [simp]:
  "map_err_to e (Inl (Err x)) = Inl (Err e)"
  "map_err_to e (Inl Panic) = Inl Panic"
  "map_err_to e (Inr y) = Inr y"
  by (simp_all add: map_err_to_def)

section \<open>Checked slices\<close>

definition slice :: "nat \<Rightarrow> nat \<Rightarrow> 'a list \<Rightarrow> ('e, 'a list) result" where
  "slice a b xs = (if a \<le> b \<and> b \<le> length xs then Inr (take (b - a) (drop a xs)) else Inl Panic)"

definition index :: "nat \<Rightarrow> 'a list \<Rightarrow> ('e, 'a) result" where
  "index i xs = (if i < length xs then Inr (xs ! i) else Inl Panic)"

definition get :: "nat \<Rightarrow> 'a list \<Rightarrow> 'a option" where
  "get i xs = (if i < length xs then Some (xs ! i) else None)"

lemma slice_ok [wire_simps]:
  "a \<le> b \<Longrightarrow> b \<le> length xs \<Longrightarrow> slice a b xs = Inr (take (b - a) (drop a xs))"
  by (simp add: slice_def)

lemma slice_Inr: "slice a b xs = Inr ys \<Longrightarrow> length ys = b - a \<and> a \<le> b \<and> b \<le> length xs"
  by (auto simp: slice_def split: if_splits)

lemma slice_append [wire_simps]:
  "length xs = a \<Longrightarrow> length ys = b - a \<Longrightarrow> a \<le> b \<Longrightarrow> slice a b (xs @ ys @ zs) = Inr ys"
  by (simp add: slice_def)

lemma slice_to_end [simp]: "a \<le> length xs \<Longrightarrow> slice a (length xs) xs = Inr (drop a xs)"
  by (simp add: slice_def)

lemma slice_append_to_end:
  "a = length xs + k \<Longrightarrow> k \<le> length ys \<Longrightarrow> slice a (length (xs @ ys)) (xs @ ys) = Inr (drop k ys)"
  by (simp add: slice_def)

lemma index_ok [wire_simps]: "i < length xs \<Longrightarrow> index i xs = Inr (xs ! i)"
  by (simp add: index_def)

lemma get_ok [wire_simps]: "i < length xs \<Longrightarrow> get i xs = Some (xs ! i)"
  by (simp add: get_def)

section \<open>Big-endian encodings\<close>

text \<open>\<open>be_bytes k n\<close> is the \<open>k\<close>-byte big-endian encoding of \<open>n\<close> modulo \<open>256 ^ k\<close>
  (\<open>to_be_bytes\<close> of a \<open>k\<close>-byte integer), \<open>be_val\<close> the value \<open>from_be_bytes\<close> reads.\<close>

fun be_bytes :: "nat \<Rightarrow> nat \<Rightarrow> bytes" where
  "be_bytes 0 n = []"
| "be_bytes (Suc k) n = be_bytes k (n div 256) @ [word_of_nat n]"

definition be_val :: "bytes \<Rightarrow> nat" where
  "be_val bs = foldl (\<lambda>a b. a * 256 + unat b) 0 bs"

lemma length_be_bytes [simp]: "length (be_bytes k n) = k"
  by (induction k arbitrary: n) auto

lemma be_val_Nil [simp]: "be_val [] = 0"
  by (simp add: be_val_def)

lemma be_val_snoc [simp]: "be_val (bs @ [b]) = be_val bs * 256 + unat b"
  by (simp add: be_val_def)

lemma unat_byte_less [simp]: "unat (b :: byte) < 256"
  using unsigned_less [of b] by simp

lemma be_val_bound: "be_val bs < 256 ^ length bs"
proof (induction bs rule: rev_induct)
  case Nil
  then show ?case by simp
next
  case (snoc b bs)
  have "unat b < 256"
    by simp
  with snoc have "be_val bs * 256 + unat b < (be_val bs + 1) * 256"
    by simp
  also have "\<dots> \<le> 256 ^ length bs * 256"
    using snoc by (intro mult_le_mono1) simp
  finally show ?case by (simp add: mult.commute)
qed

lemma unat_byte_of_nat: "unat (word_of_nat n :: byte) = n mod 256"
  by (simp add: unat_of_nat)

lemma unat_byte_of_nat_less [simp]: "n < 256 \<Longrightarrow> unat (word_of_nat n :: byte) = n"
  by (simp add: unat_byte_of_nat)

lemma be_val_be_bytes [simp]: "be_val (be_bytes k n) = n mod 256 ^ k"
proof (induction k arbitrary: n)
  case 0
  then show ?case by simp
next
  case (Suc k)
  have "n mod 256 ^ Suc k = 256 * (n div 256 mod 256 ^ k) + n mod 256"
    by (simp add: mod_mult2_eq)
  with Suc show ?case
    by (simp add: unat_byte_of_nat)
qed

lemma byte_times_256 [simp]: "x * (256 :: byte) = 0"
proof -
  have "(256 :: byte) = 0" by simp
  then show ?thesis by (simp only: mult_zero_right)
qed

lemma be_bytes_be_val: "length bs = k \<Longrightarrow> be_bytes k (be_val bs) = bs"
proof (induction bs arbitrary: k rule: rev_induct)
  case Nil
  then show ?case by simp
next
  case (snoc b bs)
  have "unat b < 256"
    by simp
  with snoc show ?case
    by (auto simp: byte_times_256)
qed

lemma be_bytes_inj: "be_bytes k m = be_bytes k n \<Longrightarrow> m < 256 ^ k \<Longrightarrow> n < 256 ^ k \<Longrightarrow> m = n"
  by (metis be_val_be_bytes mod_less)

lemma be_bytes_4: "be_bytes 4 n = be_bytes 3 (n div 256) @ [word_of_nat n]"
  using be_bytes.simps(2) [of 3 n] by simp

lemma be_bytes_numeral [wire_simps]:
  "be_bytes 1 n = [word_of_nat n]"
  "be_bytes 2 n = [word_of_nat (n div 256), word_of_nat n]"
  "be_bytes 3 n = [word_of_nat (n div 65536), word_of_nat (n div 256), word_of_nat n]"
  "be_bytes 4 n = [word_of_nat (n div 16777216), word_of_nat (n div 65536),
     word_of_nat (n div 256), word_of_nat n]"
  by (simp_all add: numeral_2_eq_2 numeral_3_eq_3 be_bytes_4 div_mult2_eq [symmetric])

lemma be_val_2 [simp]: "be_val [a, b] = unat a * 256 + unat b"
  by (simp add: be_val_def)

lemma be_val_2_less [simp]: "unat (a::byte) * 256 + unat (b::byte) < 65536"
  using be_val_bound [of "[a, b]"] by simp

text \<open>\<open>u16::from_be_bytes\<close> followed by \<open>as usize\<close>, and \<open>(n as u16).to_be_bytes()\<close>.\<close>

abbreviation u16_of :: "nat \<Rightarrow> u16" where
  "u16_of n \<equiv> word_of_nat n"

definition to_be16 :: "u16 \<Rightarrow> bytes" where
  "to_be16 w = be_bytes 2 (unat w)"

definition from_be16 :: "byte \<Rightarrow> byte \<Rightarrow> u16" where
  "from_be16 a b = word_of_nat (be_val [a, b])"

lemma length_to_be16 [simp]: "length (to_be16 w) = 2"
  by (simp add: to_be16_def)

lemma to_be16_conv: "to_be16 w = [word_of_nat (unat w div 256), ucast w]"
  by (simp add: to_be16_def be_bytes_numeral)

lemma unat_from_be16 [simp]: "unat (from_be16 a b) = unat a * 256 + unat b"
  unfolding from_be16_def be_val_2 unat_of_nat using be_val_2_less [of a b] by simp

lemma from_be16_to_be16 [simp]:
  "from_be16 (word_of_nat (unat (w :: u16) div 256)) (ucast w) = w"
proof -
  have "unat w < 65536"
    using unsigned_less [of w] by simp
  moreover have "be_val (be_bytes 2 (unat w)) = unat w mod 256 ^ 2"
    by (simp only: be_val_be_bytes)
  ultimately show ?thesis
    by (simp add: from_be16_def be_bytes_numeral)
qed

lemma unat_u16_of [simp]: "n < 65536 \<Longrightarrow> unat (u16_of n) = n"
  by (simp add: unat_of_nat)

lemma unat_u16_pair:
  "n < 65536 \<Longrightarrow> to_be16 (u16_of n) = [l, m] \<Longrightarrow> unat (from_be16 l m) = n"
  using unat_u16_of [of n] from_be16_to_be16 [of "u16_of n"] by (auto simp: to_be16_conv simp del: unat_from_be16)

lemma nat_or_shift: "(a::nat) < 2 ^ s \<Longrightarrow> or a (b * 2 ^ s) = a + b * 2 ^ s"
proof -
  assume "a < 2 ^ s"
  then have a: "take_bit s a = a"
    by (simp add: take_bit_nat_eq_self)
  have "and a (push_bit s b) = 0"
    by (subst a [symmetric]) (auto intro!: bit_eqI simp: bit_simps)
  then show ?thesis
    by (simp add: disjunctive_add_eq_or push_bit_eq_mult)
qed

text \<open>A 64-bit counter does not overflow within the increments it has room for.\<close>

lemma u64_room: "unat (w :: u64) + Suc n < 2 ^ 64 \<Longrightarrow> w \<noteq> -1 \<and> unat (w + 1) + n < 2 ^ 64"
proof -
  assume room: "unat w + Suc n < 2 ^ 64"
  have "unat (- 1 :: u64) = 2 ^ 64 - 1"
    by (simp add: unsigned_minus_1_eq_mask mask_eq_exp_minus_1)
  with room have "w \<noteq> -1"
    by auto
  moreover from room have "unat (w + 1) = unat w + 1"
    by (simp add: unat_word_ariths(1))
  ultimately show ?thesis
    using room by simp
qed

lemma length_concat_member: "x \<in> set xs \<Longrightarrow> length (f x) \<le> length (concat (map f xs))"
  by (induction xs) auto

section \<open>UTF-8\<close>

text \<open>A Rust \<open>str\<close> is a byte list that is well-formed UTF-8; \<open>utf8_valid\<close> is the check of
  \<open>String::from_utf8\<close> and \<open>str::from_utf8\<close> (Unicode table 3-7).\<close>

definition utf8_cont :: "byte \<Rightarrow> bool" where
  "utf8_cont b \<longleftrightarrow> 0x80 \<le> b \<and> b \<le> 0xBF"

fun utf8_valid :: "bytes \<Rightarrow> bool" where
  "utf8_valid [] = True"
| "utf8_valid (b # bs) =
     (if b < 0x80 then utf8_valid bs
      else if 0xC2 \<le> b \<and> b \<le> 0xDF then
        (case bs of c # r \<Rightarrow> utf8_cont c \<and> utf8_valid r | _ \<Rightarrow> False)
      else if 0xE0 \<le> b \<and> b \<le> 0xEF then
        (case bs of c # d # r \<Rightarrow>
           utf8_cont c \<and> (b = 0xE0 \<longrightarrow> 0xA0 \<le> c) \<and> (b = 0xED \<longrightarrow> c \<le> 0x9F) \<and>
           utf8_cont d \<and> utf8_valid r | _ \<Rightarrow> False)
      else if 0xF0 \<le> b \<and> b \<le> 0xF4 then
        (case bs of c # d # e # r \<Rightarrow>
           utf8_cont c \<and> (b = 0xF0 \<longrightarrow> 0x90 \<le> c) \<and> (b = 0xF4 \<longrightarrow> c \<le> 0x8F) \<and>
           utf8_cont d \<and> utf8_cont e \<and> utf8_valid r | _ \<Rightarrow> False)
      else False)"

text \<open>ASCII literals of the source, as bytes.\<close>

definition ascii :: "string \<Rightarrow> bytes" where
  "ascii s = map (\<lambda>c. word_of_nat (of_char c)) s"

lemma length_ascii [simp]: "length (ascii s) = length s"
  by (simp add: ascii_def)

section \<open>Paired stream ends\<close>

text \<open>The contract between the two ends of a stateful stream: as long as sender and receiver are
  synchronised, one message sent is read as its content and they stay synchronised.  The
  content of a message may depend on the sender's state (a header that rides the first one), and
  only messages that are \<open>ok\<close> in the sender's state are promised to arrive.\<close>

fun send_all :: "('w \<Rightarrow> 'm \<Rightarrow> bytes \<times> 'w) \<Rightarrow> 'w \<Rightarrow> 'm list \<Rightarrow> bytes list" where
  "send_all send w [] = []"
| "send_all send w (m # ms) = (case send w m of (f, w') \<Rightarrow> f # send_all send w' ms)"

fun recv_all :: "('r \<Rightarrow> bytes \<Rightarrow> ('e, bytes) result \<times> 'r) \<Rightarrow> 'r \<Rightarrow> bytes list \<Rightarrow> ('e, bytes) result list" where
  "recv_all recv r [] = []"
| "recv_all recv r (f # fs) = (case recv r f of (x, r') \<Rightarrow> x # recv_all recv r' fs)"

fun content_all :: "('w \<Rightarrow> 'm \<Rightarrow> bytes \<times> 'w) \<Rightarrow> ('w \<Rightarrow> 'm \<Rightarrow> bytes) \<Rightarrow> 'w \<Rightarrow> 'm list \<Rightarrow> bytes list" where
  "content_all send content w [] = []"
| "content_all send content w (m # ms) = content w m # content_all send content (snd (send w m)) ms"

fun all_ok :: "('w \<Rightarrow> 'm \<Rightarrow> bytes \<times> 'w) \<Rightarrow> ('w \<Rightarrow> 'm \<Rightarrow> bool) \<Rightarrow> 'w \<Rightarrow> 'm list \<Rightarrow> bool" where
  "all_ok send ok w [] = True"
| "all_ok send ok w (m # ms) = (ok w m \<and> all_ok send ok (snd (send w m)) ms)"

lemma content_all_const: "content_all send (\<lambda>_. f) w ms = map f ms"
  by (induction ms arbitrary: w) auto

lemma all_ok_True [simp]: "all_ok send (\<lambda>_ _. True) w ms"
  by (induction ms arbitrary: w) auto

text \<open>Both ends with a queue between them: the frames \<open>fs\<close>, carrying the contents \<open>xs\<close>, have been sent by
  the sender in state \<open>w\<close> and not yet been received by the receiver in state \<open>r\<close>.\<close>

definition in_transit ::
    "('w \<Rightarrow> 'm \<Rightarrow> bytes \<times> 'w) \<Rightarrow> ('w \<Rightarrow> 'm \<Rightarrow> bytes) \<Rightarrow> ('w \<Rightarrow> 'r \<Rightarrow> bool) \<Rightarrow> ('w \<Rightarrow> 'm \<Rightarrow> bool) \<Rightarrow>
     'w \<Rightarrow> bytes list \<Rightarrow> bytes list \<Rightarrow> 'r \<Rightarrow> bool" where
  "in_transit send content synced ok w fs xs r \<longleftrightarrow>
     (\<exists>w0 ms. synced w0 r \<and> all_ok send ok w0 ms \<and> fs = send_all send w0 ms \<and> xs = content_all send content w0 ms \<and>
        w = foldl (\<lambda>w m. snd (send w m)) w0 ms)"

lemma all_ok_append:
  "all_ok send ok w (ms @ ms') \<longleftrightarrow> all_ok send ok w ms \<and> all_ok send ok (foldl (\<lambda>w m. snd (send w m)) w ms) ms'"
  by (induction ms arbitrary: w) auto

lemma send_all_append:
  "send_all send w (ms @ ms') = send_all send w ms @ send_all send (foldl (\<lambda>w m. snd (send w m)) w ms) ms'"
  by (induction ms arbitrary: w) (auto simp: case_prod_beta)

lemma content_all_append:
  "content_all send content w (ms @ ms') =
     content_all send content w ms @ content_all send content (foldl (\<lambda>w m. snd (send w m)) w ms) ms'"
  by (induction ms arbitrary: w) auto

lemma in_transit_weaken:
  "in_transit send content synced ok w fs xs r \<Longrightarrow> (\<And>w. synced w r \<Longrightarrow> synced w r') \<Longrightarrow>
     in_transit send content synced ok w fs xs r'"
  unfolding in_transit_def by blast

lemma in_transit_empty: "synced w r \<Longrightarrow> in_transit send content synced ok w [] [] r"
  unfolding in_transit_def by (intro exI [of _ w] exI [of _ "[]"]) simp

lemma in_transit_quiet: "in_transit send content synced ok w [] xs r \<Longrightarrow> xs = [] \<and> synced w r"
proof -
  assume "in_transit send content synced ok w [] xs r"
  then obtain w0 ms where "synced w0 r" "[] = send_all send w0 ms" "xs = content_all send content w0 ms"
    "w = foldl (\<lambda>w m. snd (send w m)) w0 ms"
    unfolding in_transit_def by blast
  then show ?thesis
    by (cases ms) (auto simp: case_prod_beta)
qed

lemma in_transit_send:
  "in_transit send content synced ok w fs xs r \<Longrightarrow> ok w m \<Longrightarrow>
     in_transit send content synced ok (snd (send w m)) (fs @ [fst (send w m)]) (xs @ [content w m]) r"
proof -
  assume "in_transit send content synced ok w fs xs r" "ok w m"
  then obtain w0 ms where "synced w0 r" "all_ok send ok w0 (ms @ [m])"
    "fs @ [fst (send w m)] = send_all send w0 (ms @ [m])" "xs @ [content w m] = content_all send content w0 (ms @ [m])"
    "snd (send w m) = foldl (\<lambda>w m. snd (send w m)) w0 (ms @ [m])"
    unfolding in_transit_def by (auto simp: all_ok_append send_all_append content_all_append case_prod_beta)
  then show ?thesis
    unfolding in_transit_def by blast
qed

locale paired_stream =
  fixes send :: "'w \<Rightarrow> 'm \<Rightarrow> bytes \<times> 'w"
    and recv :: "'r \<Rightarrow> bytes \<Rightarrow> ('e, bytes) result \<times> 'r"
    and content :: "'w \<Rightarrow> 'm \<Rightarrow> bytes"
    and synced :: "'w \<Rightarrow> 'r \<Rightarrow> bool"
    and ok :: "'w \<Rightarrow> 'm \<Rightarrow> bool"
  assumes step: "synced w r \<Longrightarrow> ok w m \<Longrightarrow>
    \<exists>r'. recv r (fst (send w m)) = (Inr (content w m), r') \<and> synced (snd (send w m)) r'"
begin

lemma run:
  "synced w r \<Longrightarrow> all_ok send ok w ms \<Longrightarrow>
     recv_all recv r (send_all send w ms) = map Inr (content_all send content w ms)"
proof (induction ms arbitrary: w r)
  case (Cons m ms)
  from step [OF Cons.prems(1), of m] Cons.prems(2) obtain r' where
    "recv r (fst (send w m)) = (Inr (content w m), r')" "synced (snd (send w m)) r'"
    by auto
  with Cons.IH Cons.prems(2) show ?case
    by (simp add: case_prod_beta)
qed simp

text \<open>The receiver takes the oldest frame of the queue and stays behind by the rest.\<close>

lemma receive:
  assumes "in_transit send content synced ok w (f # fs) xs r"
  shows "\<exists>x xs' r'. xs = x # xs' \<and> recv r f = (Inr x, r') \<and> in_transit send content synced ok w fs xs' r'"
proof -
  obtain w0 ms where ms: "synced w0 r" "all_ok send ok w0 ms" "f # fs = send_all send w0 ms"
    "xs = content_all send content w0 ms" "w = foldl (\<lambda>w m. snd (send w m)) w0 ms"
    using assms unfolding in_transit_def by blast
  then obtain m ms' where cons: "ms = m # ms'"
    by (cases ms) auto
  obtain r' where "recv r f = (Inr (content w0 m), r')" "synced (snd (send w0 m)) r'"
    using step [OF ms(1), of m] ms(2,3) cons by (auto simp: case_prod_beta)
  with ms cons show ?thesis
    unfolding in_transit_def
    by (intro exI [of _ "content w0 m"] exI [of _ "content_all send content (snd (send w0 m)) ms'"] exI [of _ r'])
      (auto simp: case_prod_beta intro!: exI [of _ "snd (send w0 m)"] exI [of _ ms'])
qed

text \<open>Receiving the whole queue synchronises the ends.\<close>

lemma catch_up: "in_transit send content synced ok w fs xs r \<Longrightarrow> \<exists>r'. synced w r'"
proof (induction fs arbitrary: xs r)
  case Nil
  then have "synced w r"
    by (simp add: in_transit_quiet)
  then show ?case ..
next
  case (Cons f fs)
  obtain x xs' r' where "in_transit send content synced ok w fs xs' r'"
    using receive [OF Cons.prems] by blast
  then show ?case
    by (rule Cons.IH)
qed

lemma receive_all: "in_transit send content synced ok w fs xs r \<Longrightarrow> recv_all recv r fs = map Inr xs"
proof (induction fs arbitrary: xs r)
  case Nil
  then have "xs = []"
    by (simp add: in_transit_quiet)
  then show ?case by simp
next
  case (Cons f fs)
  obtain x xs' r' where "xs = x # xs'" "recv r f = (Inr x, r')" "in_transit send content synced ok w fs xs' r'"
    using receive [OF Cons.prems] by blast
  with Cons.IH show ?case by simp
qed

end

end
