(* ===== verification/Transport.thy ===== *)
theory Transport
  imports Prelude
begin

text \<open>
  \<open>native/src/transport.rs\<close>: length-prefixed record frames, \<open>[u32 BE length][payload]\<close>.

  A reader is the list of events a socket will still deliver: bytes, and failures of a
  \<open>read\<close> call between them (a timeout, a reset, \<open>EINTR\<close>); the empty list is end of file.
  A writer is what was accepted so far, how many more bytes it takes before it fails, and
  whether \<open>flush\<close> fails.
\<close>

section \<open>Byte streams\<close>

datatype io_kind = UnexpectedEof | Interrupted | WouldBlock | TimedOut | ConnectionReset | BrokenPipe | WriteZero

datatype rd_event = Byte byte | Fail io_kind

type_synonym source = "rd_event list"

record sink =
  sent :: bytes
  room :: "nat option"
  wr_error :: io_kind
  flush_error :: "io_kind option"

text \<open>\<open>Read::read_exact\<close>: \<open>EINTR\<close> is retried, end of file is \<open>UnexpectedEof\<close>; on failure the
  bytes read so far are gone.\<close>

fun read_exact :: "nat \<Rightarrow> source \<Rightarrow> (io_kind + bytes) \<times> source" where
  "read_exact 0 s = (Inr [], s)"
| "read_exact (Suc n) [] = (Inl UnexpectedEof, [])"
| "read_exact (Suc n) (Byte b # s) =
     (case read_exact n s of (Inl e, s') \<Rightarrow> (Inl e, s') | (Inr bs, s') \<Rightarrow> (Inr (b # bs), s'))"
| "read_exact (Suc n) (Fail k # s) =
     (if k = Interrupted then read_exact (Suc n) s else (Inl k, s))"

definition write_all :: "bytes \<Rightarrow> sink \<Rightarrow> (io_kind + unit) \<times> sink" where
  "write_all bs w =
     (case room w of
        None \<Rightarrow> (Inr (), w\<lparr>sent := sent w @ bs\<rparr>)
      | Some k \<Rightarrow>
          if length bs \<le> k then (Inr (), w\<lparr>sent := sent w @ bs, room := Some (k - length bs)\<rparr>)
          else (Inl (wr_error w), w\<lparr>sent := sent w @ take k bs, room := Some 0\<rparr>))"

definition flush :: "sink \<Rightarrow> io_kind + unit" where
  "flush w = (case flush_error w of None \<Rightarrow> Inr () | Some k \<Rightarrow> Inl k)"

section \<open>Frames\<close>

definition MAX_FRAME_LEN :: nat where
  [proto_defs]: "MAX_FRAME_LEN = 70000"

datatype frame_error = Io io_kind | TooLarge nat | ClosedMidFrame

definition write_frame :: "sink \<Rightarrow> bytes \<Rightarrow> (frame_error + unit) \<times> sink" where
  "write_frame w payload =
     (if 2 ^ 32 \<le> length payload then (Inl (TooLarge (2 ^ 32 - 1)), w)
      else let len = length payload in
        if MAX_FRAME_LEN < len then (Inl (TooLarge len), w)
        else case write_all (be_bytes 4 len) w of
          (Inl e, w1) \<Rightarrow> (Inl (Io e), w1)
        | (Inr _, w1) \<Rightarrow>
            (case write_all payload w1 of
               (Inl e, w2) \<Rightarrow> (Inl (Io e), w2)
             | (Inr _, w2) \<Rightarrow>
                 (case flush w2 of Inl e \<Rightarrow> (Inl (Io e), w2) | Inr _ \<Rightarrow> (Inr (), w2))))"

definition read_frame :: "source \<Rightarrow> (frame_error + bytes option) \<times> source" where
  "read_frame r =
     (case read_exact 4 r of
        (Inl e, r1) \<Rightarrow> if e = UnexpectedEof then (Inr None, r1) else (Inl (Io e), r1)
      | (Inr len_buf, r1) \<Rightarrow>
          let len = be_val len_buf in
          if MAX_FRAME_LEN < len then (Inl (TooLarge len), r1)
          else case read_exact len r1 of
            (Inl _, r2) \<Rightarrow> (Inl ClosedMidFrame, r2)
          | (Inr payload, r2) \<Rightarrow> (Inr (Some payload), r2))"

text \<open>The bytes a frame occupies on the wire.\<close>

definition frame_wire :: "bytes \<Rightarrow> bytes" where
  "frame_wire p = be_bytes 4 (length p) @ p"

definition frames_wire :: "bytes list \<Rightarrow> bytes" where
  "frames_wire fs = concat (map frame_wire fs)"

text \<open>A writer that accepts everything.\<close>

definition demo_sink :: sink where
  "demo_sink = \<lparr>sent = [], room = None, wr_error = BrokenPipe, flush_error = None\<rparr>"

section \<open>Stream lemmas\<close>

lemma read_exact_bytes [simp]:
  "length bs = n \<Longrightarrow> read_exact n (map Byte bs @ s) = (Inr bs, s)"
  by (induction bs arbitrary: n) auto

lemma read_exact_length: "read_exact n s = (Inr bs, s') \<Longrightarrow> length bs = n"
  by (induction n s arbitrary: bs rule: read_exact.induct) (auto split: prod.splits sum.splits if_splits)

lemma read_exact_eof: "length bs < n \<Longrightarrow> read_exact n (map Byte bs) = (Inl UnexpectedEof, [])"
proof (induction bs arbitrary: n)
  case Nil
  then show ?case by (cases n) auto
next
  case (Cons b bs)
  then show ?case by (cases n) auto
qed

lemma read_exact_consumes: "read_exact n s = (Inr bs, s') \<Longrightarrow> length s' + n \<le> length s"
  by (induction n s arbitrary: bs rule: read_exact.induct) (auto split: prod.splits sum.splits if_splits)

lemma write_all_ok: "write_all bs w = (Inr u, w') \<Longrightarrow> sent w' = sent w @ bs"
  by (auto simp: write_all_def split: option.splits if_splits)

lemma write_frame_ok:
  "write_frame w p = (Inr u, w') \<Longrightarrow> sent w' = sent w @ frame_wire p \<and> length p \<le> MAX_FRAME_LEN"
  by (auto simp: write_frame_def frame_wire_def Let_def dest!: write_all_ok
      split: if_splits prod.splits sum.splits)

lemma frame_wire_ne [simp]: "frame_wire f \<noteq> []"
  using arg_cong [of "frame_wire f" "[]" length] by (auto simp: frame_wire_def)

lemma frames_wire_Nil [simp]: "frames_wire fs = [] \<longleftrightarrow> fs = []"
  by (cases fs) (auto simp: frames_wire_def)

text \<open>A sink on which no write fails.\<close>

definition reliable :: "sink \<Rightarrow> bool" where
  "reliable w \<longleftrightarrow> room w = None \<and> flush_error w = None"

lemma write_frame_reliable:
  "reliable w \<Longrightarrow> length p \<le> MAX_FRAME_LEN \<Longrightarrow> write_frame w p = (Inr (), w\<lparr>sent := sent w @ frame_wire p\<rparr>)"
  by (simp add: reliable_def write_frame_def write_all_def flush_def frame_wire_def MAX_FRAME_LEN_def)

lemma reliable_sent [simp]: "reliable (w\<lparr>sent := bs\<rparr>) = reliable w"
  by (simp add: reliable_def)

lemma read_frame_wire:
  assumes "length p \<le> MAX_FRAME_LEN"
  shows "read_frame (map Byte (frame_wire p) @ s) = (Inr (Some p), s)"
proof -
  have "read_exact 4 (map Byte (be_bytes 4 (length p)) @ map Byte p @ s)
          = (Inr (be_bytes 4 (length p)), map Byte p @ s)"
    by simp
  moreover have "be_val (be_bytes 4 (length p)) = length p"
    using assms by (simp add: MAX_FRAME_LEN_def)
  ultimately show ?thesis
    using assms by (simp add: read_frame_def frame_wire_def Let_def del: be_val_be_bytes)
qed

lemma read_frame_shorter: "read_frame r = (Inr (Some f), r') \<Longrightarrow> length r' < length r"
  by (auto simp: read_frame_def Let_def dest!: read_exact_consumes split: prod.splits sum.splits if_splits)

lemma read_frame_empty: "read_frame [] = (Inr None, [])"
  by (simp add: read_frame_def numeral_eq_Suc)

section \<open>The framing contract\<close>

text \<open>What the handshake, the pump and the test server rely on: a framed payload is read back
  whole, and an exhausted stream is the clean end.  \<open>drain\<close> is the read loop of these
  clients cut after \<open>n\<close> frames.\<close>

fun drain :: "(source \<Rightarrow> (frame_error + bytes option) \<times> source) \<Rightarrow> nat \<Rightarrow> source \<Rightarrow> bytes list \<times> source" where
  "drain rd 0 s = ([], s)"
| "drain rd (Suc n) s =
     (case rd s of
        (Inr (Some p), s') \<Rightarrow> (case drain rd n s' of (ps, s'') \<Rightarrow> (p # ps, s''))
      | (_, s') \<Rightarrow> ([], s'))"

locale frame_channel =
  fixes enc :: "bytes \<Rightarrow> bytes"
    and rd :: "source \<Rightarrow> (frame_error + bytes option) \<times> source"
    and fits :: "bytes \<Rightarrow> bool"
  assumes rd_enc: "fits p \<Longrightarrow> rd (map Byte (enc p) @ s) = (Inr (Some p), s)"
    and rd_eof: "rd [] = (Inr None, [])"
begin

lemma drain_encoded:
  "list_all fits ps \<Longrightarrow> drain rd (length ps) (map Byte (concat (map enc ps)) @ s) = (ps, s)"
proof (induction ps)
  case Nil
  then show ?case by simp
next
  case (Cons p ps)
  then have "rd (map Byte (enc p) @ map Byte (concat (map enc ps)) @ s)
      = (Inr (Some p), map Byte (concat (map enc ps)) @ s)"
    by (intro rd_enc) simp
  with Cons show ?case by simp
qed

lemma drain_stops:
  "list_all fits ps \<Longrightarrow> length ps \<le> n \<Longrightarrow> drain rd n (map Byte (concat (map enc ps))) = (ps, [])"
proof (induction ps arbitrary: n)
  case Nil
  then show ?case by (cases n) (simp_all add: rd_eof)
next
  case (Cons p ps)
  then obtain m where n: "n = Suc m" and m: "length ps \<le> m"
    by (cases n) auto
  from Cons.prems have "rd (map Byte (enc p) @ map Byte (concat (map enc ps)))
      = (Inr (Some p), map Byte (concat (map enc ps)))"
    by (intro rd_enc) simp
  with Cons.IH [OF _ m] Cons.prems n show ?case by simp
qed

lemma enc_unambiguous:
  assumes "list_all fits ps" "list_all fits qs" "concat (map enc ps) = concat (map enc qs)"
  shows "ps = qs"
proof -
  have "(ps, [] :: source) = drain rd (length ps + length qs) (map Byte (concat (map enc ps)))"
    using assms(1) by (intro drain_stops [symmetric]) simp_all
  also have "\<dots> = drain rd (length ps + length qs) (map Byte (concat (map enc qs)))"
    by (simp only: assms(3))
  also have "\<dots> = (qs, [])"
    using assms(2) by (intro drain_stops) simp_all
  finally show ?thesis by simp
qed

end

interpretation frames: frame_channel frame_wire read_frame "\<lambda>p. length p \<le> MAX_FRAME_LEN"
  by unfold_locales (fact read_frame_wire, fact read_frame_empty)

section \<open>Properties\<close>

text \<open>Round trip on the wire: whatever a successful \<open>write_frame\<close> appended to the socket,
  \<open>read_frame\<close> on the other side returns exactly that payload and leaves exactly the bytes
  that follow it, so frame boundaries never drift.\<close>

theorem write_read_frame:
  assumes "write_frame w p = (Inr (), w')"
  shows "\<exists>f. sent w' = sent w @ f \<and> read_frame (map Byte f @ s) = (Inr (Some p), s)"
  using write_frame_ok [OF assms] frames.rd_enc by blast

lemma write_frame_demo:
  "write_frame demo_sink [1, 2] = (Inr (), demo_sink\<lparr>sent := [0, 0, 0, 2, 1, 2]\<rparr>)"
  by (simp add: write_frame_def write_all_def flush_def MAX_FRAME_LEN_def be_bytes_numeral demo_sink_def)

theorem write_read_frame_witness:
  "\<exists>f. sent (demo_sink\<lparr>sent := [0, 0, 0, 2, 1, 2]\<rparr>) = sent demo_sink @ f \<and>
       read_frame (map Byte f @ [Byte 9]) = (Inr (Some [1, 2]), [Byte 9])"
  using write_read_frame [OF write_frame_demo, of "[Byte 9]"] .

text \<open>Two different sequences of payloads never produce the same byte stream: from the
  bytes of any number of frames the reader loop recovers the payloads, in order, and then
  sees the clean end of the stream.\<close>

theorem frame_stream_recovered:
  assumes "list_all (\<lambda>p. length p \<le> MAX_FRAME_LEN) ps"
  shows "drain read_frame (Suc (length ps)) (map Byte (concat (map frame_wire ps))) = (ps, [])"
  using assms by (intro frames.drain_stops) simp_all

theorem frame_stream_recovered_witness:
  "drain read_frame (Suc (length [[1, 2], [], [7 :: byte]])) (map Byte (concat (map frame_wire [[1, 2], [], [7]])))
     = ([[1, 2], [], [7]], [])"
  by (rule frame_stream_recovered) (simp add: MAX_FRAME_LEN_def)

text \<open>Memory bound against a hostile peer: whatever the socket delivers, a frame handed to
  the caller has at most \<open>MAX_FRAME_LEN\<close> bytes, and an announced length above the bound
  is refused with \<open>TooLarge\<close> right after the 4-byte prefix, before any payload byte is read.\<close>

theorem read_frame_bounded:
  "(\<forall>p s'. read_frame s = (Inr (Some p), s') \<longrightarrow> length p \<le> MAX_FRAME_LEN) \<and>
   (\<forall>n rest. MAX_FRAME_LEN < n \<longrightarrow> n < 2 ^ 32 \<longrightarrow>
      read_frame (map Byte (be_bytes 4 n) @ rest) = (Inl (TooLarge n), rest))"
proof (intro conjI allI impI)
  fix p s' assume "read_frame s = (Inr (Some p), s')"
  then show "length p \<le> MAX_FRAME_LEN"
    by (auto simp: read_frame_def Let_def dest!: read_exact_length
        split: prod.splits sum.splits if_splits)
next
  fix n :: nat and rest assume "MAX_FRAME_LEN < n" "n < 2 ^ 32"
  then show "read_frame (map Byte (be_bytes 4 n) @ rest) = (Inl (TooLarge n), rest)"
    by (simp add: read_frame_def Let_def)
qed

theorem read_frame_bounded_witness:
  "length [1, 2 :: byte] \<le> MAX_FRAME_LEN \<and>
   read_frame (map Byte (be_bytes 4 70001) @ [Byte 5]) = (Inl (TooLarge 70001), [Byte 5])"
proof -
  have a: "read_frame (map Byte (frame_wire [1, 2]) @ []) = (Inr (Some [1, 2]), [])"
    by (rule read_frame_wire) (simp add: MAX_FRAME_LEN_def)
  have b: "MAX_FRAME_LEN < 70001" "(70001 :: nat) < 2 ^ 32"
    by (simp_all add: MAX_FRAME_LEN_def)
  from a b read_frame_bounded [of "map Byte (frame_wire [1, 2]) @ []"] show ?thesis
    by blast
qed

text \<open>Writing is all or a prefix: an oversized payload is refused with nothing sent, and a
  write that fails has put nothing but a prefix of this frame on the socket, so no byte of a
  later frame can follow a half-written one unless the caller writes again.\<close>

theorem write_frame_error:
  assumes "write_frame w p = (Inl e, w')"
  shows "(MAX_FRAME_LEN < length p \<longleftrightarrow> (\<exists>n. e = TooLarge n)) \<and>
         (MAX_FRAME_LEN < length p \<longrightarrow> w' = w) \<and>
         (\<exists>k. sent w' = sent w @ take k (frame_wire p))"
proof (cases "MAX_FRAME_LEN < length p")
  case True
  then show ?thesis
    using assms by (auto simp: write_frame_def Let_def split: if_splits intro: exI [of _ 0])
next
  case False
  then have small: "\<not> 2 ^ 32 \<le> length p"
    by (simp add: MAX_FRAME_LEN_def)
  have "take k (be_bytes 4 (length p)) = take (min k 4) (frame_wire p)"
    "be_bytes 4 (length p) @ take k p = take (4 + k) (frame_wire p)" for k
    by (simp_all add: frame_wire_def min_def)
  then have split: "\<exists>k'. take k (be_bytes 4 (length p)) = take k' (frame_wire p)"
    "\<exists>k'. be_bytes 4 (length p) @ take k p = take k' (frame_wire p)" for k
    by blast+
  show ?thesis
    using assms False small split
    by (auto simp: write_frame_def write_all_def flush_def Let_def frame_wire_def
        split: option.splits if_splits intro: exI [of _ "4 + length p"])
qed

theorem write_frame_error_witness:
  "write_frame (demo_sink\<lparr>room := Some 2\<rparr>) [1]
      = (Inl (Io BrokenPipe), demo_sink\<lparr>room := Some 0, sent := [0, 0]\<rparr>) \<and>
   (\<exists>k. sent (demo_sink\<lparr>room := Some 0, sent := [0, 0]\<rparr>)
      = sent (demo_sink\<lparr>room := Some 2\<rparr>) @ take k (frame_wire [1]))"
proof -
  have *: "write_frame (demo_sink\<lparr>room := Some 2\<rparr>) [1]
      = (Inl (Io BrokenPipe), demo_sink\<lparr>room := Some 0, sent := [0, 0]\<rparr>)"
    by (simp add: write_frame_def write_all_def flush_def MAX_FRAME_LEN_def be_bytes_numeral demo_sink_def)
  with write_frame_error [OF *] show ?thesis
    by blast
qed

text \<open>End of file inside the 4-byte length prefix is reported as the clean end of the
  stream, exactly as at a frame boundary; only end of file inside the payload is
  \<open>ClosedMidFrame\<close>.\<close>

theorem read_frame_eof:
  assumes "length f < length (frame_wire p)" "length p \<le> MAX_FRAME_LEN" "f = take (length f) (frame_wire p)"
  shows "read_frame (map Byte f) = (if length f < 4 then Inr None else Inl ClosedMidFrame, [])"
proof (cases "length f < 4")
  case True
  then show ?thesis
    by (simp add: read_frame_def read_exact_eof)
next
  case False
  define q where "q = take (length f - 4) p"
  from False assms have f: "f = be_bytes 4 (length p) @ q" and q: "length q < length p"
    by (auto simp: frame_wire_def q_def take_append)
  have "read_exact 4 (map Byte (be_bytes 4 (length p)) @ map Byte q) = (Inr (be_bytes 4 (length p)), map Byte q)"
    by simp
  moreover have "read_exact (length p) (map Byte q) = (Inl UnexpectedEof, [])"
    using q by (rule read_exact_eof)
  moreover have "be_val (be_bytes 4 (length p)) = length p"
    using assms(2) by (simp add: MAX_FRAME_LEN_def)
  ultimately show ?thesis
    using assms(2) False by (simp add: f read_frame_def Let_def del: be_val_be_bytes)
qed

theorem read_frame_eof_witness:
  "read_frame (map Byte [0, 0, 0]) = (if length [0, 0, 0 :: byte] < 4 then Inr None else Inl ClosedMidFrame, [])"
  by (rule read_frame_eof [of _ "[1, 2]"])
     (simp_all add: frame_wire_def MAX_FRAME_LEN_def be_bytes_numeral)

end
