(* ===== verification/Vless.thy ===== *)
theory Vless
  imports Prelude
begin

text \<open>
  \<open>native/src/vless.rs\<close>, the header half: VLESS request and response headers, the protobuf
  varint of the addons field, the typed address, \<open>request_header_len\<close> and \<open>parse_uuid\<close>.
  Arrays \<open>[u8; n]\<close> are byte lists, their length a hypothesis where it matters; \<open>usize\<close> is
  \<open>nat\<close>, with the 64-bit overflow written out where an attacker can reach it.  Every slice
  and index of the parsers is a checked one.
\<close>

unbundle bit_operations_syntax


section \<open>Constants and data\<close>

definition VERSION :: byte where [proto_defs]: "VERSION = 0"
definition CMD_TCP :: byte where [proto_defs]: "CMD_TCP = 0x01"
definition CMD_UDP :: byte where [proto_defs]: "CMD_UDP = 0x02"
definition CMD_MUX :: byte where [proto_defs]: "CMD_MUX = 0x0f"
definition ATYP_IPV4 :: byte where [proto_defs]: "ATYP_IPV4 = 0x01"
definition ATYP_DOMAIN :: byte where [proto_defs]: "ATYP_DOMAIN = 0x02"
definition ATYP_IPV6 :: byte where [proto_defs]: "ATYP_IPV6 = 0x03"

datatype address = Ipv4 bytes | Ipv6 bytes | Domain bytes

datatype vless_error = Layout | BadResponse | UuidMismatch | BadFrame

record parsed_request =
  pr_uuid :: bytes
  pr_flow :: "bytes option"
  pr_command :: byte
  pr_address :: address
  pr_port :: u16

fun atyp :: "address \<Rightarrow> byte" where
  "atyp (Ipv4 _) = ATYP_IPV4"
| "atyp (Ipv6 _) = ATYP_IPV6"
| "atyp (Domain _) = ATYP_DOMAIN"

fun push_to :: "address \<Rightarrow> bytes \<Rightarrow> bytes" where
  "push_to (Ipv4 octets) out = out @ [ATYP_IPV4] @ octets"
| "push_to (Ipv6 octets) out = out @ [ATYP_IPV6] @ octets"
| "push_to (Domain name) out = out @ [ATYP_DOMAIN] @ [word_of_nat (length name)] @ name"

section \<open>Varints\<close>

fun encode_varint :: "nat \<Rightarrow> bytes \<Rightarrow> bytes" where
  "encode_varint value out =
     (let byte = word_of_nat (value mod 128) :: byte; value' = value div 128 in
      if value' \<noteq> 0 then encode_varint value' (out @ [byte OR 0x80])
      else out @ [byte])"

declare encode_varint.simps [simp del]

text \<open>The loop of \<open>decode_varint\<close>: \<open>i\<close> is the index, the accumulator a 64-bit \<open>usize\<close> whose
  shift drops the bits that leave the word.\<close>

fun decode_varint_loop :: "bytes \<Rightarrow> nat \<Rightarrow> u64 \<Rightarrow> nat \<Rightarrow> (vless_error, nat \<times> nat) result" where
  "decode_varint_loop [] i value shift = Inl (Err Layout)"
| "decode_varint_loop (b # bs) i value shift =
     (if 10 \<le> i then Inl (Err Layout)
      else let value = value OR push_bit shift (ucast (b AND 0x7f)) in
        if b AND 0x80 = 0 then Inr (unat value, i + 1)
        else decode_varint_loop bs (i + 1) value (shift + 7))"

definition decode_varint :: "bytes \<Rightarrow> (vless_error, nat \<times> nat) result" where
  "decode_varint wire = decode_varint_loop wire 0 0 0"

section \<open>Request header\<close>

definition build_addons :: "bytes option \<Rightarrow> bytes" where
  "build_addons flow =
     (case flow of
        None \<Rightarrow> [0x0a, 0x01, 0x00]
      | Some name \<Rightarrow>
          if name = [] then [0x0a, 0x01, 0x00]
          else let sub = [0x01] @ [word_of_nat (length name)] @ name in
            encode_varint (length sub) [0x0a] @ sub)"

definition build_request_header ::
    "bytes \<Rightarrow> bytes option \<Rightarrow> byte \<Rightarrow> address \<Rightarrow> u16 \<Rightarrow> (vless_error, bytes) result" where
  "build_request_header uuid flow command address port =
     (let addons = build_addons flow;
          out = [VERSION] @ uuid @ addons @ [command];
          out = (if command \<noteq> CMD_MUX then push_to address (out @ to_be16 port) else out)
      in Inr out)"

definition parse_address :: "bytes \<Rightarrow> (vless_error, address) result" where
  "parse_address wire =
     (if wire = [] then Inl (Err Layout)
      else rbind (index 0 wire) (\<lambda>t.
        if t = ATYP_IPV4 then
          (if length wire < 5 then Inl (Err Layout)
           else rbind (slice 1 5 wire) (\<lambda>octets. Inr (Ipv4 octets)))
        else if t = ATYP_IPV6 then
          (if length wire < 17 then Inl (Err Layout)
           else rbind (slice 1 17 wire) (\<lambda>octets. Inr (Ipv6 octets)))
        else if t = ATYP_DOMAIN then
          (if length wire < 2 then Inl (Err Layout)
           else rbind (index 1 wire) (\<lambda>l. let len = unat l in
             if length wire < 2 + len then Inl (Err Layout)
             else rbind (slice 2 (2 + len) wire) (\<lambda>name.
               if utf8_valid name then Inr (Domain name) else Inl (Err Layout))))
        else Inl (Err Layout)))"

text \<open>The optional flow subfield \<open>0x01 <len> <flow>\<close> inside the addons.\<close>

definition checked_add :: "nat \<Rightarrow> nat \<Rightarrow> nat option" where
  "checked_add a b = (if a + b < 2 ^ 64 then Some (a + b) else None)"

definition checked_end :: "nat \<Rightarrow> nat \<Rightarrow> nat \<Rightarrow> (vless_error, nat) result" where
  "checked_end pos len limit =
     ok_or Layout (case checked_add pos len of None \<Rightarrow> None
                   | Some e \<Rightarrow> if e \<le> limit then Some e else None)"

definition parse_flow :: "bytes \<Rightarrow> (vless_error, bytes option) result" where
  "parse_flow addons =
     (if addons \<noteq> [] \<and> addons ! 0 = 0x01 then
        rbind (ok_or Layout (get 1 addons)) (\<lambda>l.
        rbind (checked_end 2 (unat l) (length addons)) (\<lambda>end.
        rbind (slice 2 end addons) (\<lambda>name.
          if utf8_valid name then Inr (Some name) else Inl (Err Layout))))
      else Inr None)"

definition mux_cool :: bytes where
  "mux_cool = ascii ''v1.mux.cool''"

definition parse_request_header :: "bytes \<Rightarrow> (vless_error, parsed_request) result" where
  "parse_request_header wire =
     (if length wire < 1 + 16 + 3 + 1 then Inl (Err Layout)
      else rbind (index 0 wire) (\<lambda>v.
      if v \<noteq> VERSION then Inl (Err BadResponse)
      else rbind (slice 1 17 wire) (\<lambda>uuid.
      rbind (index 17 wire) (\<lambda>tag.
      if tag \<noteq> 0x0a then Inl (Err Layout)
      else rbind (slice 18 (length wire) wire) (\<lambda>rest.
      rbind (decode_varint rest) (\<lambda>(addons_len, consumed).
      let pos = 18 + consumed in
      rbind (checked_end pos addons_len (length wire)) (\<lambda>addons_end.
      rbind (slice pos addons_end wire) (\<lambda>addons.
      rbind (parse_flow addons) (\<lambda>flow.
      let pos = addons_end in
      if length wire \<le> pos then Inl (Err Layout)
      else rbind (index pos wire) (\<lambda>command.
      let pos = pos + 1 in
      if command = CMD_MUX then
        Inr \<lparr>pr_uuid = uuid, pr_flow = flow, pr_command = command,
             pr_address = Domain mux_cool, pr_port = 0\<rparr>
      else if length wire < pos + 2 then Inl (Err Layout)
      else rbind (index pos wire) (\<lambda>hi.
      rbind (index (pos + 1) wire) (\<lambda>lo.
      rbind (slice (pos + 2) (length wire) wire) (\<lambda>arest.
      rbind (parse_address arest) (\<lambda>addr.
        Inr \<lparr>pr_uuid = uuid, pr_flow = flow, pr_command = command,
             pr_address = addr, pr_port = from_be16 hi lo\<rparr>))))))))))))))"

text \<open>\<open>usize\<close> addition in a build with overflow checks.\<close>

definition usize_add :: "nat \<Rightarrow> nat \<Rightarrow> ('e, nat) result" where
  "usize_add a b = (if a + b < 2 ^ 64 then Inr (a + b) else Inl Panic)"

definition request_header_len :: "bytes \<Rightarrow> (vless_error, nat) result" where
  "request_header_len wire =
     (if length wire < 1 + 16 + 1 then Inl (Err Layout)
      else rbind (index 17 wire) (\<lambda>tag.
      if tag \<noteq> 0x0a then Inl (Err Layout)
      else rbind (slice 18 (length wire) wire) (\<lambda>rest.
      rbind (decode_varint rest) (\<lambda>(addons_len, consumed).
      rbind (usize_add consumed addons_len) (\<lambda>n.
      rbind (usize_add 18 n) (\<lambda>pos.
      if length wire \<le> pos then Inl (Err Layout)
      else rbind (index pos wire) (\<lambda>command.
      let pos = pos + 1 in
      if command \<noteq> CMD_MUX then
        (if length wire < pos + 2 then Inl (Err Layout)
         else let pos = pos + 2 in
           rbind (ok_or Layout (get pos wire)) (\<lambda>t.
           if t = ATYP_IPV4 then Inr (pos + (1 + 4))
           else if t = ATYP_IPV6 then Inr (pos + (1 + 16))
           else if t = ATYP_DOMAIN then
             rbind (ok_or Layout (get (pos + 1) wire)) (\<lambda>l. Inr (pos + (2 + unat l)))
           else Inl (Err Layout)))
      else Inr pos)))))))"

section \<open>Response header, UUID text\<close>

definition build_response_header :: bytes where
  "build_response_header = [VERSION, 0x0a, 0x01, 0x00]"

definition parse_response_header :: "bytes \<Rightarrow> byte \<Rightarrow> (vless_error, unit) result" where
  "parse_response_header wire request_version =
     (if length wire < 4 \<or> wire ! 0 \<noteq> request_version then Inl (Err BadResponse) else Inr ())"

text \<open>\<open>hex_decode_to_slice data n\<close> stands for \<open>hex::decode_to_slice\<close> of the \<open>hex\<close> crate into
  a buffer of \<open>n\<close> bytes.\<close>

definition parse_uuid :: "(bytes \<Rightarrow> nat \<Rightarrow> bytes option) \<Rightarrow> bytes \<Rightarrow> bytes option" where
  "parse_uuid hex_decode_to_slice raw =
     (let hex = filter (\<lambda>c. c \<noteq> 0x2d) raw in
      if length hex \<noteq> 32 then None
      else hex_decode_to_slice hex 16)"

section \<open>Well-formed inputs\<close>

text \<open>The addons submessage a flow is encoded as, the flow the peer sees (an empty flow is
  encoded as no flow), the addresses the one-byte length can carry, and the text form of a
  UUID.\<close>

definition flow_sub :: "bytes option \<Rightarrow> bytes" where
  "flow_sub flow = (case flow of None \<Rightarrow> [0] | Some name \<Rightarrow>
     if name = [] then [0] else [1, word_of_nat (length name)] @ name)"

definition flow_seen :: "bytes option \<Rightarrow> bytes option" where
  "flow_seen flow = (if flow = Some [] then None else flow)"

fun address_ok :: "address \<Rightarrow> bool" where
  "address_ok (Ipv4 octets) = (length octets = 4)"
| "address_ok (Ipv6 octets) = (length octets = 16)"
| "address_ok (Domain name) = (length name < 256 \<and> utf8_valid name)"

definition hex_digit :: "nat \<Rightarrow> byte" where
  "hex_digit n = word_of_nat (if n < 10 then 48 + n else 87 + n)"

definition hex_text :: "bytes \<Rightarrow> bytes" where
  "hex_text bs = concat (map (\<lambda>b. [hex_digit (unat b div 16), hex_digit (unat b mod 16)]) bs)"

definition uuid_text :: "bytes \<Rightarrow> bytes" where
  "uuid_text u = hex_text (take 4 u) @ [0x2d] @ hex_text (take 2 (drop 4 u)) @ [0x2d] @
     hex_text (take 2 (drop 6 u)) @ [0x2d] @ hex_text (take 2 (drop 8 u)) @ [0x2d] @ hex_text (drop 10 u)"

definition hex_decodes :: "(bytes \<Rightarrow> nat \<Rightarrow> bytes option) \<Rightarrow> bool" where
  "hex_decodes dec \<longleftrightarrow> (\<forall>bs. dec (hex_text bs) (length bs) = Some bs)"

definition demo_uuid :: bytes where
  "demo_uuid = [0, 1, 2, 3, 4, 5, 6, 7, 8, 9, 10, 11, 12, 13, 14, 15]"

definition demo_header :: bytes where
  "demo_header = [0, 0, 1, 2, 3, 4, 5, 6, 7, 8, 9, 10, 11, 12, 13, 14, 15,
     10, 4, 1, 2, 104, 105, 1, 1, 187, 1, 1, 2, 3, 4]"

definition overlong_varint_wire :: bytes where
  "overlong_varint_wire = [0, 0, 0, 0, 0, 0, 0, 0, 0, 0, 0, 0, 0, 0, 0, 0, 0,
     0x0a, 0xff, 0xff, 0xff, 0xff, 0xff, 0xff, 0xff, 0xff, 0xff, 0x01]"

definition overlong_domain_wire :: bytes where
  "overlong_domain_wire = [0, 0, 0, 0, 0, 0, 0, 0, 0, 0, 0, 0, 0, 0, 0, 0, 0,
     0x0a, 0x01, 0x00, 0x01, 0x01, 0xbb, 0x02, 0xff]"

text \<open>A concrete decoder with the documented behaviour of the \<open>hex\<close> crate, for the witnesses.\<close>

definition hex_nibble :: "byte \<Rightarrow> nat option" where
  "hex_nibble c = (let n = unat c in
     if 48 \<le> n \<and> n \<le> 57 then Some (n - 48)
     else if 97 \<le> n \<and> n \<le> 102 then Some (n - 87)
     else if 65 \<le> n \<and> n \<le> 70 then Some (n - 55) else None)"

fun demo_hex_decode :: "bytes \<Rightarrow> bytes option" where
  "demo_hex_decode [] = Some []"
| "demo_hex_decode [c] = None"
| "demo_hex_decode (c # d # r) =
     (case (hex_nibble c, hex_nibble d, demo_hex_decode r) of
        (Some x, Some y, Some bs) \<Rightarrow> Some (word_of_nat (16 * x + y) # bs)
      | _ \<Rightarrow> None)"

definition demo_hex_decode_to_slice :: "bytes \<Rightarrow> nat \<Rightarrow> bytes option" where
  "demo_hex_decode_to_slice d n = (if length d = 2 * n then demo_hex_decode d else None)"

section \<open>Varint lemmas\<close>

lemma bit_above:
  "take_bit n x AND push_bit n 1 = (0 :: byte)"
  "take_bit n (x OR push_bit n 1) = (take_bit n x :: byte)"
  "(x OR push_bit n 1) AND push_bit n 1 = (push_bit n 1 :: byte)"
  by (rule bit_eqI; auto simp: bit_simps)+

lemma varint_byte:
  assumes "c < 128"
  shows "(word_of_nat c :: byte) AND 0x7f = word_of_nat c" "(word_of_nat c :: byte) AND 0x80 = 0"
    "((word_of_nat c :: byte) OR 0x80) AND 0x7f = word_of_nat c" "((word_of_nat c :: byte) OR 0x80) AND 0x80 \<noteq> 0"
proof -
  have c: "take_bit 7 (word_of_nat c :: byte) = word_of_nat c"
    using assms by (simp add: take_bit_of_nat take_bit_nat_eq_self)
  have seven_bits: "(0x7f :: byte) = mask 7" "(0x80 :: byte) = push_bit 7 1"
    by (simp_all add: mask_eq_exp_minus_1)
  show "(word_of_nat c :: byte) AND 0x7f = word_of_nat c"
    by (simp only: seven_bits c flip: take_bit_eq_mask)
  show "(word_of_nat c :: byte) AND 0x80 = 0"
    using bit_above(1) [of 7 "word_of_nat c"] by (simp only: c seven_bits)
  show "((word_of_nat c :: byte) OR 0x80) AND 0x7f = word_of_nat c"
    by (simp only: seven_bits c bit_above flip: take_bit_eq_mask)
  show "((word_of_nat c :: byte) OR 0x80) AND 0x80 \<noteq> 0"
    by (simp only: seven_bits bit_above) simp
qed

lemma encode_varint_acc: "encode_varint v out = out @ encode_varint v []"
proof (induction v arbitrary: out rule: less_induct)
  case (less v)
  show ?case
  proof (cases "v div 128 = 0")
    case True
    then show ?thesis by (simp add: encode_varint.simps [of v])
  next
    case False
    then have "v div 128 < v" by simp
    then have "encode_varint (v div 128) o' = o' @ encode_varint (v div 128) []" for o'
      by (rule less)
    from this [of "out @ [word_of_nat (v mod 128) OR 0x80]"] this [of "[word_of_nat (v mod 128) OR 0x80]"]
    show ?thesis
      using False by (simp add: encode_varint.simps [of v])
  qed
qed

lemma encode_varint_unfold:
  "encode_varint v [] = (if v < 128 then [word_of_nat v]
     else (word_of_nat (v mod 128) OR 0x80) # encode_varint (v div 128) [])"
  by (subst encode_varint.simps, subst encode_varint_acc) (auto simp: Let_def)

lemma varint_accumulate:
  fixes acc :: u64
  assumes "unat acc < 2 ^ s" "c < 128" "c * 2 ^ s < 2 ^ 64"
  shows "unat (acc OR push_bit s (ucast (word_of_nat c :: byte))) = unat acc + c * 2 ^ s"
proof -
  have "unat (word_of_nat c :: byte) = c"
    using assms(2) by (simp add: unat_of_nat)
  then have "unat (push_bit s (ucast (word_of_nat c :: byte) :: u64)) = take_bit 64 (push_bit s c)"
    using assms(2) by (simp add: unsigned_push_bit_eq unsigned_ucast_eq take_bit_nat_eq_self)
  also have "\<dots> = c * 2 ^ s"
    using assms(3) by (simp add: take_bit_nat_eq_self push_bit_eq_mult)
  finally have "unat (push_bit s (ucast (word_of_nat c :: byte) :: u64)) = c * 2 ^ s" .
  then show ?thesis
    using nat_or_shift [OF assms(1)] by (simp add: unsigned_or_eq)
qed

lemma decode_encode_loop:
  assumes "shift = 7 * i" "i < 10" "unat acc < 2 ^ shift" "v * 2 ^ shift < 2 ^ 64"
  shows "decode_varint_loop (encode_varint v [] @ rest) i acc shift
       = Inr (unat acc + v * 2 ^ shift, i + length (encode_varint v []))"
  using assms
proof (induction v arbitrary: i acc shift rule: less_induct)
  case (less v)
  show ?case
  proof (cases "v < 128")
    case True
    with less.prems show ?thesis
      by (subst (1 2) encode_varint_unfold) (simp add: varint_byte varint_accumulate)
  next
    case False
    define b where "b = v mod 128"
    define acc' where "acc' = acc OR push_bit shift (ucast (word_of_nat b :: byte))"
    have vb: "v = b + 128 * (v div 128)" and b: "b < 128"
      by (simp_all add: b_def)
    have v2: "v * 2 ^ shift = b * 2 ^ shift + v div 128 * 2 ^ (shift + 7)"
      by (subst vb) (simp add: algebra_simps power_add)
    have pos: "1 \<le> v div 128" using False by simp
    then have "2 ^ (shift + 7) \<le> v div 128 * 2 ^ (shift + 7)"
      by simp
    then have "2 ^ (shift + 7) < (2 ^ 64 :: nat)"
      using v2 less.prems by linarith
    then have "shift + 7 < 64"
      by (rule power_less_imp_less_exp [rotated]) simp
    then have i: "i + 1 < 10"
      using less.prems(1) by simp
    have acc': "unat acc' = unat acc + b * 2 ^ shift"
      unfolding acc'_def using less.prems b v2 by (intro varint_accumulate) auto
    have "b * 2 ^ shift \<le> 127 * 2 ^ shift" "(2 :: nat) ^ (shift + 7) = 128 * 2 ^ shift"
      using b by (simp_all add: power_add)
    then have acc'_less: "unat acc' < 2 ^ (shift + 7)"
      using less.prems(3) acc' by linarith
    have "decode_varint_loop (encode_varint (v div 128) [] @ rest) (i + 1) acc' (shift + 7)
        = Inr (unat acc' + v div 128 * 2 ^ (shift + 7), i + 1 + length (encode_varint (v div 128) []))"
      using less.prems i acc'_less v2 False by (intro less.IH) auto
    then show ?thesis
      using False less.prems(2) b varint_byte [OF b] acc' v2
      by (subst (1 2) encode_varint_unfold) (simp add: b_def [symmetric] acc'_def [symmetric])
  qed
qed

lemma decode_encode_varint:
  "v < 2 ^ 64 \<Longrightarrow> decode_varint (encode_varint v [] @ rest) = Inr (v, length (encode_varint v []))"
  using decode_encode_loop [of 0 0 0 v rest] by (simp add: decode_varint_def)

section \<open>Header lemmas\<close>

lemma encode_varint_length_pos [simp]: "0 < length (encode_varint v [])"
  by (subst encode_varint_unfold) simp

lemma encode_varint_length_le: "length (encode_varint v []) \<le> Suc v"
proof (induction v rule: less_induct)
  case (less v)
  show ?case
  proof (cases "v < 128")
    case False
    then have "length (encode_varint (v div 128) []) \<le> Suc (v div 128)"
      by (intro less) simp
    with False show ?thesis
      by (subst encode_varint_unfold) simp
  qed (simp add: encode_varint_unfold)
qed

lemma build_addons_conv:
  "build_addons flow = 0x0a # encode_varint (length (flow_sub flow)) [] @ flow_sub flow"
  by (auto simp: build_addons_def flow_sub_def encode_varint_unfold [of "Suc 0"] Let_def
      encode_varint_acc [of _ "[0x0a]"] split: option.splits)

lemma parse_flow_sub:
  assumes "\<And>name. flow = Some name \<Longrightarrow> length name < 256 \<and> utf8_valid name"
  shows "parse_flow (flow_sub flow) = Inr (flow_seen flow)"
  using assms
  by (auto simp: parse_flow_def flow_sub_def flow_seen_def checked_end_def checked_add_def get_def
      slice_def split: option.splits)

lemma parse_request_header_layout:
  assumes "length uuid = 16" "sub \<noteq> []" "length sub < 2 ^ 62"
  shows "parse_request_header (VERSION # uuid @ 0x0a # encode_varint (length sub) [] @ sub @ command # tail)
    = rbind (parse_flow sub) (\<lambda>flow.
        if command = CMD_MUX then
          Inr \<lparr>pr_uuid = uuid, pr_flow = flow, pr_command = command, pr_address = Domain mux_cool, pr_port = 0\<rparr>
        else if length tail < 2 then Inl (Err Layout)
        else rbind (parse_address (drop 2 tail)) (\<lambda>addr.
          Inr \<lparr>pr_uuid = uuid, pr_flow = flow, pr_command = command, pr_address = addr,
               pr_port = from_be16 (tail ! 0) (tail ! 1)\<rparr>))"
proof -
  define vi where "vi = encode_varint (length sub) []"
  define w where "w = VERSION # uuid @ 0x0a # vi @ sub @ command # tail"
  have vi: "1 \<le> length vi" "1 \<le> length sub" "decode_varint (vi @ sub @ command # tail) = Inr (length sub, length vi)"
    using assms(2,3) decode_encode_varint [of "length sub" "sub @ command # tail"]
      encode_varint_length_pos [of "length sub"] by (simp_all add: vi_def Suc_le_eq)
  have short: "length vi \<le> Suc (length sub)"
    by (simp add: vi_def encode_varint_length_le)
  have len: "length w = 19 + length vi + length sub + length tail"
    using assms(1) by (simp add: w_def)
  have w2: "w = (VERSION # uuid @ 0x0a # vi) @ sub @ command # tail"
    and w3: "w = (VERSION # uuid @ 0x0a # vi @ sub @ [command]) @ tail"
    by (simp_all add: w_def)
  define p where "p = 18 + length vi + length sub"
  have at: "index 0 w = Inr VERSION" "slice 1 17 w = Inr uuid" "index 17 w = Inr 0x0a"
    "slice 18 (length w) w = Inr (vi @ sub @ command # tail)" "index p w = Inr command"
    using assms(1) by (auto simp: w_def slice_def index_def nth_append nth_Cons' p_def)
  have tl: "length tail < 2 = False \<Longrightarrow> index (p + 1) w = Inr (tail ! 0)"
    "length tail < 2 = False \<Longrightarrow> index (p + 1 + 1) w = Inr (tail ! 1)"
    using assms(1) by (auto simp: w_def index_def nth_append nth_Cons' p_def)
  have sl: "slice (18 + length vi) p w = Inr sub"
    unfolding w2 using assms(1) by (intro slice_append) (simp_all add: p_def)
  have sl2: "length tail < 2 = False \<Longrightarrow> slice (p + 1 + 2) (length w) w = Inr (drop 2 tail)"
    unfolding w3 using assms(1) by (intro slice_append_to_end) (simp_all add: p_def)
  have "checked_end (18 + length vi) (length sub) (length w) = Inr p"
    using short assms(3) by (simp add: checked_end_def checked_add_def len p_def)
  moreover have "(length w < 1 + 16 + 3 + 1) = False" "(length w \<le> p) = False"
    "(length w < p + 1 + 2) = (length tail < 2)"
    using vi by (auto simp: len p_def)
  ultimately have "parse_request_header w = rbind (parse_flow sub) (\<lambda>flow.
        if command = CMD_MUX then
          Inr \<lparr>pr_uuid = uuid, pr_flow = flow, pr_command = command, pr_address = Domain mux_cool, pr_port = 0\<rparr>
        else if length tail < 2 then Inl (Err Layout)
        else rbind (parse_address (drop 2 tail)) (\<lambda>addr.
          Inr \<lparr>pr_uuid = uuid, pr_flow = flow, pr_command = command, pr_address = addr,
               pr_port = from_be16 (tail ! 0) (tail ! 1)\<rparr>))"
    by (simp only: parse_request_header_def at tl sl sl2 vi Let_def rbind_Inr prod.case if_False not_True_eq_False
        refl cong: if_cong)
  then show ?thesis
    by (simp only: w_def vi_def)
qed

lemma atyp_distinct [simp]:
  "ATYP_IPV4 \<noteq> ATYP_IPV6" "ATYP_IPV4 \<noteq> ATYP_DOMAIN" "ATYP_IPV6 \<noteq> ATYP_DOMAIN"
  "ATYP_IPV6 \<noteq> ATYP_IPV4" "ATYP_DOMAIN \<noteq> ATYP_IPV4" "ATYP_DOMAIN \<noteq> ATYP_IPV6"
  by (simp_all add: proto_defs)

lemma push_to_acc: "push_to a out = out @ push_to a []"
  by (cases a) simp_all

lemma parse_address_push_to:
  "address_ok a \<Longrightarrow> parse_address (push_to a [] @ rest) = Inr a"
  by (cases a) (auto simp: parse_address_def index_def slice_def Let_def)

lemma request_header_len_layout:
  assumes "length pre = 17" "length sub < 2 ^ 62"
  shows "request_header_len (pre @ 0x0a # encode_varint (length sub) [] @ sub @ command # tail)
    = (let n = 19 + length (encode_varint (length sub) []) + length sub in
       if command = CMD_MUX then Inr n
       else if length tail < 3 then Inl (Err Layout)
       else if tail ! 2 = ATYP_IPV4 then Inr (n + 7)
       else if tail ! 2 = ATYP_IPV6 then Inr (n + 19)
       else if tail ! 2 = ATYP_DOMAIN then
         (if length tail < 4 then Inl (Err Layout) else Inr (n + 4 + unat (tail ! 3)))
       else Inl (Err Layout))"
proof -
  define vi where "vi = encode_varint (length sub) []"
  define w where "w = pre @ 0x0a # vi @ sub @ command # tail"
  define p where "p = 18 + length vi + length sub"
  have vi: "decode_varint (vi @ sub @ command # tail) = Inr (length sub, length vi)"
    using assms(2) decode_encode_varint [of "length sub" "sub @ command # tail"] by (simp add: vi_def)
  have short: "length vi \<le> Suc (length sub)"
    by (simp add: vi_def encode_varint_length_le)
  have len: "length w = 19 + length vi + length sub + length tail"
    using assms(1) by (simp add: w_def)
  have at: "index 17 w = Inr 0x0a" "slice 18 (length w) w = Inr (vi @ sub @ command # tail)"
     "index p w = Inr command"
    using assms(1) by (auto simp: w_def slice_def index_def nth_append nth_Cons' p_def)
  have tl: "get (p + 1 + 2) w = (if length tail < 3 then None else Some (tail ! 2))"
    "get (p + 1 + 2 + 1) w = (if length tail < 4 then None else Some (tail ! 3))"
    using assms(1) by (auto simp: w_def get_def nth_append nth_Cons' p_def)
  have add: "usize_add (length vi) (length sub) = Inr (length vi + length sub)"
    "usize_add 18 (length vi + length sub) = Inr p"
    using short assms(2) by (simp_all add: usize_add_def p_def)
  have "(length w < 1 + 16 + 1) = False" "(length w \<le> p) = False"
    "(length w < p + 1 + 2) = (length tail < 2)"
    by (auto simp: len p_def)
  then have "request_header_len w = (if command = CMD_MUX then Inr (p + 1)
       else if length tail < 3 then Inl (Err Layout)
       else if tail ! 2 = ATYP_IPV4 then Inr (p + 1 + 7)
       else if tail ! 2 = ATYP_IPV6 then Inr (p + 1 + 19)
       else if tail ! 2 = ATYP_DOMAIN then
         (if length tail < 4 then Inl (Err Layout) else Inr (p + 1 + 4 + unat (tail ! 3)))
       else Inl (Err Layout))"
    unfolding request_header_len_def
    by (simp only: at tl vi add Let_def rbind_Inr prod.case if_False not_True_eq_False cong: if_cong) auto
  then show ?thesis
    by (simp add: w_def vi_def p_def Let_def)
qed

lemma header_wire:
  assumes "build_request_header uuid flow command address port = Inr hdr"
  shows "hdr @ payload = VERSION # uuid @ 0x0a # encode_varint (length (flow_sub flow)) [] @ flow_sub flow @
     command # (if command = CMD_MUX then [] else to_be16 port @ push_to address []) @ payload"
  using assms push_to_acc [of address "VERSION # uuid @ build_addons flow @ command # to_be16 port"]
  by (auto simp: build_request_header_def Let_def build_addons_conv split: if_splits)

lemma flow_sub_bounds: "flow_sub flow \<noteq> []" "(\<And>name. flow = Some name \<Longrightarrow> length name < 256) \<Longrightarrow> length (flow_sub flow) < 2 ^ 62"
  by (auto simp: flow_sub_def split: option.splits)

lemma parse_built_header:
  assumes "build_request_header uuid flow command address port = Inr hdr" "length uuid = 16"
    "\<And>name. flow = Some name \<Longrightarrow> length name < 256 \<and> utf8_valid name" "address_ok address"
  shows "parse_request_header (hdr @ payload) =
     Inr \<lparr>pr_uuid = uuid, pr_flow = flow_seen flow, pr_command = command,
          pr_address = (if command = CMD_MUX then Domain mux_cool else address),
          pr_port = (if command = CMD_MUX then 0 else port)\<rparr>"
proof -
  have "flow_sub flow \<noteq> []" "length (flow_sub flow) < 2 ^ 62" "parse_flow (flow_sub flow) = Inr (flow_seen flow)"
    using flow_sub_bounds assms(3) parse_flow_sub by blast+
  then show ?thesis
    using assms(2,4) unfolding header_wire [OF assms(1)]
    by (simp add: parse_request_header_layout parse_address_push_to to_be16_conv)
qed

lemma built_header_len:
  assumes "build_request_header uuid flow command address port = Inr hdr" "length uuid = 16"
    "\<And>name. flow = Some name \<Longrightarrow> length name < 256" "address_ok address"
  shows "request_header_len (hdr @ payload) = Inr (length hdr)"
proof -
  have b: "length (flow_sub flow) < 2 ^ 62"
    using flow_sub_bounds assms(3) by blast
  have l: "length hdr = 19 + length (encode_varint (length (flow_sub flow)) []) + length (flow_sub flow)
      + (if command = CMD_MUX then 0 else 2 + length (push_to address []))"
    using arg_cong [OF header_wire [OF assms(1), of "[]"], of length] assms(2) by simp
  show ?thesis
    using request_header_len_layout [OF _ b, of "VERSION # uuid" command
        "(if command = CMD_MUX then [] else to_be16 port @ push_to address []) @ payload"] assms(2,4)
    unfolding header_wire [OF assms(1)] l
    by (cases address) (auto simp: Let_def to_be16_conv)
qed

lemma built_header_short:
  assumes "build_request_header uuid flow command address port = Inr hdr" "length uuid = 16"
    "\<And>name. flow = Some name \<Longrightarrow> length name < 256" "address_ok address"
  shows "length hdr < 2 ^ 12"
proof -
  have "length (flow_sub flow) \<le> 258"
    using assms(3) by (cases flow) (fastforce simp: flow_sub_def)+
  moreover have "length (encode_varint (length (flow_sub flow)) []) \<le> Suc (length (flow_sub flow))"
    by (rule encode_varint_length_le)
  moreover have "length (push_to address []) \<le> 258"
    using assms(4) by (cases address) auto
  ultimately show ?thesis
    using arg_cong [OF header_wire [OF assms(1), of "[]"], of length] assms(2) by (auto split: if_splits)
qed

lemma parse_address_no_panic [simp]: "parse_address w \<noteq> Inl Panic"
  by (auto simp: parse_address_def index_def slice_def Let_def)

lemma decode_varint_no_panic [simp]: "decode_varint_loop w i a s \<noteq> Inl Panic"
  by (induction w i a s rule: decode_varint_loop.induct) (auto simp: Let_def)

lemma decode_varint_consumed: "decode_varint_loop w i a s = Inr (v, n) \<Longrightarrow> n \<le> i + length w \<and> i < n"
  by (induction w i a s rule: decode_varint_loop.induct) (auto simp: Let_def split: if_splits)

lemma decode_varint_value: "decode_varint_loop w i a s = Inr (v, n) \<Longrightarrow> v < 2 ^ 64"
  by (induction w i a s rule: decode_varint_loop.induct)
    (auto simp: Let_def split: if_splits intro: order.strict_trans2 [OF unsigned_less])

lemma checked_end_Inr [simp]: "checked_end p l m = Inr e \<longleftrightarrow> e = p + l \<and> e \<le> m \<and> e < 2 ^ 64"
  by (auto simp: checked_end_def checked_add_def split: if_splits)

lemma checked_end_no_panic [simp]: "checked_end p l m \<noteq> Inl Panic"
  by (simp add: checked_end_def)

lemma parse_flow_no_panic [simp]: "parse_flow a \<noteq> Inl Panic"
  by (auto simp: parse_flow_def rbind_eq_Panic slice_def)

lemma parse_no_panic: "parse_request_header w \<noteq> Inl Panic"
  by (auto simp: parse_request_header_def rbind_eq_Panic slice_def index_def decode_varint_def Let_def
      split: if_splits dest: decode_varint_consumed)


lemma decode_varint_extend:
  "decode_varint_loop w i a s = Inr r \<Longrightarrow> decode_varint_loop (w @ x) i a s = Inr r"
  by (induction w i a s rule: decode_varint_loop.induct) (auto simp: Let_def split: if_splits)

lemma index_extend: "index i w = Inr b \<Longrightarrow> index i (w @ x) = Inr b"
  by (auto simp: index_def nth_append split: if_splits)

lemma get_extend: "get i w = Some b \<Longrightarrow> get i (w @ x) = Some b"
  by (auto simp: get_def nth_append split: if_splits)

lemma request_header_len_decoded:
  assumes "18 \<le> length w" "w ! 17 = 0x0a" "decode_varint (drop 18 w) = Inr (addons_len, consumed)"
    "p = 18 + consumed + addons_len" "p < 2 ^ 64"
  shows "request_header_len w =
     (if length w \<le> p then Inl (Err Layout)
      else if w ! p = CMD_MUX then Inr (p + 1)
      else if length w < p + 3 then Inl (Err Layout)
      else rbind (ok_or Layout (get (p + 3) w)) (\<lambda>t.
           if t = ATYP_IPV4 then Inr (p + 8)
           else if t = ATYP_IPV6 then Inr (p + 20)
           else if t = ATYP_DOMAIN then
             rbind (ok_or Layout (get (p + 4) w)) (\<lambda>l. Inr (p + 5 + unat l))
           else Inl (Err Layout)))"
proof -
  have add: "usize_add consumed addons_len = Inr (consumed + addons_len)"
    "usize_add 18 (consumed + addons_len) = Inr p"
    using assms by (simp_all add: usize_add_def)
  have start: "(length w < 1 + 16 + 1) = False" "index 17 w = Inr 0x0a" "slice 18 (length w) w = Inr (drop 18 w)"
    using assms(1,2) by (simp_all add: index_def)
  have eq: "request_header_len w =
     (if length w \<le> p then Inl (Err Layout)
      else rbind (index p w) (\<lambda>command.
        if command \<noteq> CMD_MUX then
        (if length w < p + 1 + 2 then Inl (Err Layout)
         else rbind (ok_or Layout (get (p + 1 + 2) w)) (\<lambda>t.
           if t = ATYP_IPV4 then Inr (p + 1 + 2 + (1 + 4))
           else if t = ATYP_IPV6 then Inr (p + 1 + 2 + (1 + 16))
           else if t = ATYP_DOMAIN then
             rbind (ok_or Layout (get (p + 1 + 2 + 1) w)) (\<lambda>l. Inr (p + 1 + 2 + (2 + unat l)))
           else Inl (Err Layout)))
        else Inr (p + 1)))"
    by (simp only: request_header_len_def start add assms(3) Let_def rbind_Inr prod.case if_False
        simp_thms)
  have arith: "p + 1 + 2 = p + 3" "p + 3 + 1 = p + 4" "p + 3 + (1 + 4) = p + 8" "p + 3 + (1 + 16) = p + 20"
    "p + 3 + (2 + l) = p + 5 + l" for l
    by simp_all
  show ?thesis
    unfolding eq arith by (simp add: index_def)
qed

lemma request_header_len_inv:
  assumes "request_header_len w = Inr n"
  obtains addons_len consumed where "18 \<le> length w" "w ! 17 = 0x0a"
    "decode_varint (drop 18 w) = Inr (addons_len, consumed)" "18 + consumed + addons_len < 2 ^ 64"
proof -
  from assms have "18 \<le> length w" "w ! 17 = 0x0a"
    by (auto simp: request_header_len_def rbind_eq_Inr index_def split: if_splits)
  moreover from assms obtain addons_len consumed where
    "decode_varint (drop 18 w) = Inr (addons_len, consumed)" "18 + consumed + addons_len < 2 ^ 64"
    by (auto simp: request_header_len_def rbind_eq_Inr usize_add_def split: if_splits)
  ultimately show thesis
    by (rule that)
qed

lemma request_header_len_extend:
  assumes "request_header_len w = Inr n"
  shows "request_header_len (w @ x) = Inr n"
proof -
  from assms obtain addons_len consumed where w: "18 \<le> length w" "w ! 17 = 0x0a"
    "decode_varint (drop 18 w) = Inr (addons_len, consumed)" "18 + consumed + addons_len < 2 ^ 64"
    by (rule request_header_len_inv)
  then have wx: "18 \<le> length (w @ x)" "(w @ x) ! 17 = 0x0a"
    "decode_varint (drop 18 (w @ x)) = Inr (addons_len, consumed)"
    by (simp_all add: nth_append decode_varint_def decode_varint_extend)
  from assms show ?thesis
    unfolding request_header_len_decoded [OF w(1-3) refl w(4)] request_header_len_decoded [OF wx refl w(4)]
    by (auto simp: rbind_eq_Inr nth_append get_def split: if_splits)
qed

lemma parse_address_length:
  "parse_address w = Inr a \<Longrightarrow> length (push_to a []) \<le> length w \<and> w ! 0 = atyp a \<and> w \<noteq> [] \<and>
     (\<forall>d. a = Domain d \<longrightarrow> 2 \<le> length w \<and> unat (w ! 1) = length d) \<and>
     (\<forall>d. a = Ipv4 d \<longrightarrow> length d = 4) \<and> (\<forall>d. a = Ipv6 d \<longrightarrow> length d = 16)"
  by (auto simp: parse_address_def index_def slice_def Let_def split: if_splits)

lemma parse_header_len:
  assumes "parse_request_header w = Inr r"
  shows "\<exists>n \<le> length w. request_header_len w = Inr n"
proof -
  from assms obtain addons_len consumed where
    w: "18 \<le> length w" "w ! 17 = 0x0a" "decode_varint (drop 18 w) = Inr (addons_len, consumed)" and
    b: "18 + consumed + addons_len < length w" "18 + consumed + addons_len < 2 ^ 64" and
    a: "w ! (18 + consumed + addons_len) \<noteq> CMD_MUX \<Longrightarrow> 18 + consumed + addons_len + 3 \<le> length w \<and>
        (\<exists>a. parse_address (drop (18 + consumed + addons_len + 3) w) = Inr a)"
    by (auto simp: parse_request_header_def rbind_eq_Inr slice_def index_def Let_def split: if_splits)
  define p where "p = 18 + consumed + addons_len"
  show ?thesis
  proof (cases "w ! p = CMD_MUX")
    case True
    then show ?thesis
      unfolding request_header_len_decoded [OF w p_def b(2) [folded p_def]]
      using b by (simp add: p_def)
  next
    case False
    then obtain a where pa: "parse_address (drop (p + 3) w) = Inr a" and "p + 3 \<le> length w"
      using a by (auto simp: p_def)
    with parse_address_length [OF pa] False show ?thesis
      unfolding request_header_len_decoded [OF w p_def b(2) [folded p_def]]
      by (cases a) (auto simp: get_def add.commute)
  qed
qed

lemma filter_hex_text: "filter (\<lambda>c. c \<noteq> 0x2d) (hex_text u) = hex_text u"
proof -
  have "hex_digit n \<noteq> 0x2d" if "n < 16" for n
  proof -
    have "unat (hex_digit n) \<noteq> unat (0x2d :: byte)"
      using that by (auto simp: hex_digit_def)
    then show ?thesis by auto
  qed
  moreover have "unat b div 16 < 16" for b :: byte
    using unat_byte_less [of b] by linarith
  ultimately show ?thesis
    by (auto simp: hex_text_def filter_id_conv)
qed

lemma length_hex_text [simp]: "length (hex_text u) = 2 * length u"
  by (induction u) (simp_all add: hex_text_def)

lemma hex_text_append: "hex_text (u @ v) = hex_text u @ hex_text v"
  by (simp add: hex_text_def)

lemma uuid_text_digits: "filter (\<lambda>c. c \<noteq> 0x2d) (uuid_text u) = hex_text u"
proof -
  have "u = take 4 u @ drop 4 u" "drop 4 u = take 2 (drop 4 u) @ drop 6 u"
    "drop 6 u = take 2 (drop 6 u) @ drop 8 u" "drop 8 u = take 2 (drop 8 u) @ drop 10 u"
    using append_take_drop_id [of 2 "drop 4 u"] append_take_drop_id [of 2 "drop 6 u"]
      append_take_drop_id [of 2 "drop 8 u"] by simp_all
  then have "hex_text u = hex_text (take 4 u) @ hex_text (take 2 (drop 4 u)) @ hex_text (take 2 (drop 6 u)) @
      hex_text (take 2 (drop 8 u)) @ hex_text (drop 10 u)"
    by (metis hex_text_append)
  then show ?thesis
    by (simp add: uuid_text_def filter_hex_text)
qed

lemma build_demo_header:
  "build_request_header demo_uuid (Some [104, 105]) CMD_TCP (Ipv4 [1, 2, 3, 4]) 443 = Inr demo_header"
  by (simp add: build_request_header_def build_addons_def demo_uuid_def demo_header_def proto_defs
      encode_varint_acc [of _ "[10]"] encode_varint_unfold to_be16_conv Let_def)

lemma hex_nibble_digit: "n < 16 \<Longrightarrow> hex_nibble (hex_digit n) = Some n"
  by (auto simp: hex_nibble_def hex_digit_def Let_def)

lemma demo_hex_decode_text: "demo_hex_decode (hex_text bs) = Some bs"
proof (induction bs)
  case (Cons b bs)
  have "unat b div 16 < 16"
    using unat_byte_less [of b] by linarith
  with Cons show ?case
    by (simp add: hex_text_def hex_nibble_digit)
qed (simp add: hex_text_def)

lemma demo_hex_decodes: "hex_decodes demo_hex_decode_to_slice"
  by (simp add: hex_decodes_def demo_hex_decode_to_slice_def demo_hex_decode_text)

lemma parse_address_ok: "parse_address w = Inr a \<Longrightarrow> address_ok a"
  by (auto simp: parse_address_def index_def slice_def Let_def split: if_splits)

lemma utf8_mux_cool: "address_ok (Domain mux_cool)"
  by (simp add: mux_cool_def ascii_def)

lemma parsed_fields:
  "parse_request_header w = Inr r \<Longrightarrow>
     w ! 0 = VERSION \<and> pr_uuid r = take 16 (drop 1 w) \<and> length (pr_uuid r) = 16 \<and> address_ok (pr_address r)"
  using utf8_mux_cool
  by (auto simp: parse_request_header_def rbind_eq_Inr slice_def index_def Let_def
      split: if_splits dest: parse_address_ok)

section \<open>Properties\<close>

text \<open>C32. Request header round trip: every header the client builds (16-byte UUID, flow and
  domain short enough for their one-byte lengths) is parsed back to the same UUID, flow,
  command, address and port whatever payload follows it, and \<open>request_header_len\<close> returns
  its exact length, so the server splits header and payload at the right byte.  An empty flow
  reads back as no flow, and a MUX header carries the fixed MUX destination.\<close>

theorem vless_header_round_trip:
  assumes "build_request_header uuid flow command address port = Inr hdr" "length uuid = 16"
    "\<forall>name. flow = Some name \<longrightarrow> length name < 256 \<and> utf8_valid name" "address_ok address"
  shows "parse_request_header (hdr @ payload) =
     Inr \<lparr>pr_uuid = uuid, pr_flow = flow_seen flow, pr_command = command,
          pr_address = (if command = CMD_MUX then Domain mux_cool else address),
          pr_port = (if command = CMD_MUX then 0 else port)\<rparr> \<and>
   request_header_len (hdr @ payload) = Inr (length hdr)"
  using parse_built_header [OF assms(1,2)] built_header_len [OF assms(1,2)] assms(3,4) by blast

theorem vless_header_round_trip_witness:
  "parse_request_header (demo_header @ [9]) =
     Inr \<lparr>pr_uuid = demo_uuid, pr_flow = flow_seen (Some [104, 105]), pr_command = CMD_TCP,
          pr_address = (if CMD_TCP = CMD_MUX then Domain mux_cool else Ipv4 [1, 2, 3, 4]),
          pr_port = (if CMD_TCP = CMD_MUX then 0 else 443)\<rparr> \<and>
   request_header_len (demo_header @ [9]) = Inr (length demo_header)"
  by (rule vless_header_round_trip [OF build_demo_header]) (simp_all add: demo_uuid_def)

text \<open>C33. The request parser is safe on arbitrary bytes: it never indexes or slices out of
  range, and when it accepts, the version is right, the UUID is bytes 1 to 16 of the wire, the
  address is well-formed and \<open>request_header_len\<close> agrees that the header lies inside the
  wire.\<close>

theorem vless_parse_safe:
  "parse_request_header w \<noteq> Inl Panic \<and>
   (\<forall>r. parse_request_header w = Inr r \<longrightarrow>
      w ! 0 = VERSION \<and> pr_uuid r = take 16 (drop 1 w) \<and> length (pr_uuid r) = 16 \<and>
      address_ok (pr_address r) \<and> (\<exists>n \<le> length w. request_header_len w = Inr n))"
  using parse_no_panic parsed_fields parse_header_len by blast

theorem vless_parse_safe_witness:
  "demo_header ! 0 = VERSION \<and> (\<exists>n \<le> length demo_header. request_header_len demo_header = Inr n)"
proof -
  have "\<exists>r. parse_request_header demo_header = Inr r"
    using parse_built_header [OF build_demo_header, of "[]"] by (simp add: demo_uuid_def)
  then show ?thesis
    using vless_parse_safe [of demo_header] by blast
qed

text \<open>No truncation is accepted: cutting a built header anywhere before its last byte makes
  the parser return an error.\<close>

theorem vless_truncated_rejected:
  assumes "build_request_header uuid flow command address port = Inr hdr" "length uuid = 16"
    "\<forall>name. flow = Some name \<longrightarrow> length name < 256" "address_ok address" "k < length hdr"
  shows "\<exists>e. parse_request_header (take k hdr) = Inl (Err e)"
proof (cases "parse_request_header (take k hdr)")
  case (Inl f)
  then show ?thesis
    using parse_no_panic [of "take k hdr"] by (cases f) auto
next
  case (Inr r)
  then obtain n where "n \<le> k" "request_header_len (take k hdr) = Inr n"
    using parse_header_len [OF Inr] by auto
  then have "request_header_len (take k hdr @ drop k hdr) = Inr n"
    by (intro request_header_len_extend)
  moreover have "request_header_len (hdr @ []) = Inr (length hdr)"
    using assms by (intro built_header_len) auto
  ultimately show ?thesis
    using \<open>n \<le> k\<close> assms(5) by simp
qed

theorem vless_truncated_rejected_witness:
  "\<exists>e. parse_request_header (take 30 demo_header) = Inl (Err e)"
  by (rule vless_truncated_rejected [OF build_demo_header])
     (simp_all add: demo_uuid_def demo_header_def)

text \<open>\<open>request_header_len\<close> trusts the lengths it reads: ten varint bytes that encode
  \<open>2 ^ 64 - 1\<close> overflow its unchecked addition where \<open>parse_request_header\<close> returns
  \<open>Layout\<close>, and a domain length beyond the end of the buffer yields a header length larger
  than the buffer.\<close>

theorem request_header_len_unchecked:
  "request_header_len overlong_varint_wire = Inl Panic \<and>
   parse_request_header overlong_varint_wire = Inl (Err Layout) \<and>
   request_header_len overlong_domain_wire = Inr 280 \<and> length overlong_domain_wire = 25"
proof -
  have d: "decode_varint [0xff, 0xff, 0xff, 0xff, 0xff, 0xff, 0xff, 0xff, 0xff, 0x01] = Inr (18446744073709551615, 10)"
    "decode_varint [0x01, 0x00, 0x01, 0x01, 0xbb, 0x02, 0xff] = Inr (1, 1)"
    by (simp_all add: decode_varint_def Let_def)
  show ?thesis
    by (simp add: overlong_varint_wire_def overlong_domain_wire_def request_header_len_def
        parse_request_header_def slice_def index_def get_def d usize_add_def checked_end_def checked_add_def
        proto_defs Let_def)
qed

text \<open>A UUID printed as hyphenated or as bare hexadecimal text is parsed back to its 16
  bytes, and a text with any other number of digits is refused, for every decoder that
  inverts lower-case hexadecimal as the \<open>hex\<close> crate documents.\<close>

theorem parse_uuid_text:
  assumes "hex_decodes dec"
  shows "(length u = 16 \<longrightarrow> parse_uuid dec (uuid_text u) = Some u \<and> parse_uuid dec (hex_text u) = Some u) \<and>
         (length u \<noteq> 16 \<longrightarrow> parse_uuid dec (hex_text u) = None)"
proof -
  have "dec (hex_text u) 16 = Some u" if "length u = 16"
    using assms that unfolding hex_decodes_def by metis
  then show ?thesis
    by (auto simp: parse_uuid_def uuid_text_digits filter_hex_text Let_def)
qed

theorem parse_uuid_text_witness:
  "parse_uuid demo_hex_decode_to_slice (uuid_text demo_uuid) = Some demo_uuid"
  using parse_uuid_text [OF demo_hex_decodes, of demo_uuid] by (simp add: demo_uuid_def)

end
