(* ===== verification/Vision.thy ===== *)
theory Vision
  imports Vless
begin

text \<open>
  \<open>native/src/vless.rs\<close>, the stream half: the XTLS Vision padding writer and reader and the
  VLESS stream ends \<open>VlessOut\<close> and \<open>VlessIn\<close>.  The draws of \<open>OsRng.next_u64()\<close> are a
  parameter \<open>rnd\<close> (the draw of the \<open>k\<close>-th frame of a call), so every theorem holds for all
  random choices.  Readers return their new state also when they fail, as \<open>&mut self\<close> does.
\<close>

section \<open>Writer\<close>

definition PADDING_CONTINUE :: byte where [proto_defs]: "PADDING_CONTINUE = 0x00"
definition PADDING_END :: byte where [proto_defs]: "PADDING_END = 0x01"
definition PADDING_DIRECT :: byte where [proto_defs]: "PADDING_DIRECT = 0x02"
definition BUF_SIZE :: nat where [proto_defs]: "BUF_SIZE = 2048"
definition MAX_FRAME_BODY :: nat where [proto_defs]: "MAX_FRAME_BODY = BUF_SIZE - 21"
definition TESTSEED :: "nat list" where [proto_defs]: "TESTSEED = [900, 500, 900, 256]"

record vision_writer =
  vw_uuid :: "bytes option"
  is_padding :: bool

definition vision_writer_new :: "bytes \<Rightarrow> vision_writer" where
  "vision_writer_new uuid = \<lparr>vw_uuid = Some uuid, is_padding = True\<rparr>"

definition xtls_padding_len :: "nat \<Rightarrow> bool \<Rightarrow> u64 \<Rightarrow> nat" where
  "xtls_padding_len content_len long_padding draw =
     (let padding_len =
        (if content_len < TESTSEED ! 0 \<and> long_padding
         then unat draw mod (TESTSEED ! 1) + TESTSEED ! 2 - content_len
         else unat draw mod (TESTSEED ! 3))
      in if MAX_FRAME_BODY - content_len < padding_len then MAX_FRAME_BODY - content_len else padding_len)"

definition xtls_padding :: "bytes \<Rightarrow> byte \<Rightarrow> bytes option \<Rightarrow> bool \<Rightarrow> u64 \<Rightarrow> bytes" where
  "xtls_padding content command uuid long_padding draw =
     (let content_len = length content;
          padding_len = xtls_padding_len content_len long_padding draw
      in (case uuid of Some u \<Rightarrow> u | None \<Rightarrow> []) @ [command] @ to_be16 (u16_of content_len) @
         to_be16 (u16_of padding_len) @ content @ replicate padding_len 0)"

function pad_loop :: "bool \<Rightarrow> bool \<Rightarrow> (nat \<Rightarrow> u64) \<Rightarrow> bytes option \<Rightarrow> bytes \<Rightarrow> bytes \<Rightarrow> bytes" where
  "pad_loop long_padding force_end rnd uuid remaining out =
     (let is_last = length remaining \<le> MAX_FRAME_BODY;
          content = take (min (length remaining) MAX_FRAME_BODY) remaining;
          command = (if is_last \<and> force_end then PADDING_END else PADDING_CONTINUE);
          out = out @ xtls_padding content command uuid long_padding (rnd 0)
      in if is_last then out
         else pad_loop long_padding force_end (\<lambda>k. rnd (Suc k)) None (drop MAX_FRAME_BODY remaining) out)"
  by pat_completeness auto
termination
  by (relation "measure (\<lambda>(_, _, _, _, remaining, _). length remaining)")
     (auto simp: MAX_FRAME_BODY_def BUF_SIZE_def)

declare pad_loop.simps [simp del]

definition pad :: "vision_writer \<Rightarrow> bytes \<Rightarrow> bool \<Rightarrow> bool \<Rightarrow> (nat \<Rightarrow> u64) \<Rightarrow> bytes \<times> vision_writer" where
  "pad w payload long_padding force_end rnd =
     (if \<not> is_padding w then (payload, w)
      else let out = pad_loop long_padding force_end rnd (vw_uuid w) payload [];
               w = w\<lparr>vw_uuid := None\<rparr>
        in (out, if force_end then w\<lparr>is_padding := False\<rparr> else w))"

section \<open>Reader\<close>

datatype unpad_state = Initial | Header | Content nat | Padding nat | Direct

record vision_reader =
  vr_state :: unpad_state
  vr_command :: byte
  vr_uuid :: bytes
  vr_header :: bytes
  vr_header_fill :: nat
  within_padding_buffers :: bool
  vr_first_buffer :: bool

definition vision_reader_new :: "bytes \<Rightarrow> vision_reader" where
  "vision_reader_new uuid =
     \<lparr>vr_state = Initial, vr_command = 0, vr_uuid = uuid, vr_header = [0, 0, 0, 0, 0],
      vr_header_fill = 0, within_padding_buffers = False, vr_first_buffer = True\<rparr>"

definition header_has_padding :: "vision_reader \<Rightarrow> bool" where
  "header_has_padding r \<longleftrightarrow> vr_header r ! 3 \<noteq> 0 \<or> vr_header r ! 4 \<noteq> 0"

definition pending_padding :: "vision_reader \<Rightarrow> nat" where
  "pending_padding r = unat (from_be16 (vr_header r ! 3) (vr_header r ! 4))"

definition frame_done :: "vision_reader \<Rightarrow> (vless_error, unit) result \<times> vision_reader" where
  "frame_done r =
     (if vr_command r = PADDING_CONTINUE then (Inr (), r\<lparr>vr_state := Header\<rparr>)
      else if vr_command r = PADDING_END \<or> vr_command r = PADDING_DIRECT
        then (Inr (), r\<lparr>vr_state := Direct, within_padding_buffers := False\<rparr>)
      else (Inl (Err BadFrame), r))"

definition done_with :: "bytes \<Rightarrow> vision_reader \<Rightarrow> (vless_error, bytes) result \<times> vision_reader" where
  "done_with out r = (case frame_done r of (Inl e, r') \<Rightarrow> (Inl e, r') | (Inr _, r') \<Rightarrow> (Inr out, r'))"

text \<open>One turn of the byte loop of \<open>unpad\<close>, in the order of its \<open>match\<close>.\<close>

definition unpad_byte :: "byte \<Rightarrow> vision_reader \<Rightarrow> bytes \<Rightarrow> (vless_error, bytes) result \<times> vision_reader" where
  "unpad_byte b r out =
     (case vr_state r of
        Initial \<Rightarrow> (Inl Panic, r)
      | Direct \<Rightarrow> (Inr (out @ [b]), r)
      | Header \<Rightarrow>
          if length (vr_header r) \<le> vr_header_fill r then (Inl Panic, r)
          else let r = r\<lparr>vr_header := (vr_header r)[vr_header_fill r := b],
                         vr_header_fill := vr_header_fill r + 1\<rparr> in
            if vr_header_fill r = 5 then
              let r = r\<lparr>vr_command := vr_header r ! 0\<rparr>;
                  content_len = unat (from_be16 (vr_header r ! 1) (vr_header r ! 2));
                  padding_len = unat (from_be16 (vr_header r ! 3) (vr_header r ! 4));
                  r = r\<lparr>vr_header_fill := 0\<rparr> in
              if MAX_FRAME_BODY < content_len \<or> MAX_FRAME_BODY < padding_len then (Inl (Err BadFrame), r)
              else if 0 < content_len then (Inr out, r\<lparr>vr_state := Content content_len\<rparr>)
              else if 0 < padding_len then (Inr out, r\<lparr>vr_state := Padding padding_len\<rparr>)
              else done_with out r
            else (Inr out, r)
      | Content remaining \<Rightarrow>
          let out = out @ [b] in
          if remaining = 1 then
            (if header_has_padding r then (Inr out, r\<lparr>vr_state := Padding (pending_padding r)\<rparr>)
             else done_with out r)
          else if remaining = 0 then (Inl Panic, r)
          else (Inr out, r\<lparr>vr_state := Content (remaining - 1)\<rparr>)
      | Padding remaining \<Rightarrow>
          if remaining = 1 then done_with out r
          else if remaining = 0 then (Inl Panic, r)
          else (Inr out, r\<lparr>vr_state := Padding (remaining - 1)\<rparr>))"

fun unpad_loop :: "bytes \<Rightarrow> vision_reader \<Rightarrow> bytes \<Rightarrow> (vless_error, bytes) result \<times> vision_reader" where
  "unpad_loop [] r out = (Inr out, r)"
| "unpad_loop (b # bs) r out =
     (case unpad_byte b r out of (Inl e, r') \<Rightarrow> (Inl e, r') | (Inr out', r') \<Rightarrow> unpad_loop bs r' out')"

definition unpad :: "vision_reader \<Rightarrow> bytes \<Rightarrow> (vless_error, bytes) result \<times> vision_reader" where
  "unpad r wire =
     (if vr_state r = Initial then
        (if 21 \<le> length wire \<and> take 16 wire = vr_uuid r then
           unpad_loop (drop 16 wire)
             (r\<lparr>vr_state := Header, within_padding_buffers := True, vr_first_buffer := False\<rparr>) []
         else if vr_first_buffer r \<and> 21 \<le> length wire then
           (Inl (Err UuidMismatch), r\<lparr>vr_first_buffer := False\<rparr>)
         else (Inr wire, r\<lparr>vr_first_buffer := False\<rparr>))
      else unpad_loop wire r [])"

section \<open>Stream ends\<close>

record vless_out =
  vo_header :: "bytes option"
  vo_writer :: vision_writer

definition vless_out_new ::
    "bytes \<Rightarrow> bytes option \<Rightarrow> byte \<Rightarrow> address \<Rightarrow> u16 \<Rightarrow> (vless_error, vless_out) result" where
  "vless_out_new uuid flow command address port =
     rbind (build_request_header uuid flow command address port) (\<lambda>hdr.
       Inr \<lparr>vo_header = Some hdr, vo_writer = vision_writer_new uuid\<rparr>)"

definition wrap :: "vless_out \<Rightarrow> bytes \<Rightarrow> (nat \<Rightarrow> u64) \<Rightarrow> bytes \<times> vless_out" where
  "wrap v payload rnd =
     (case vo_header v of
        Some first \<Rightarrow>
          (case pad (vo_writer v) (first @ payload) True True rnd of
             (out, w) \<Rightarrow> (out, v\<lparr>vo_header := None, vo_writer := w\<rparr>))
      | None \<Rightarrow>
          (case pad (vo_writer v) payload False False rnd of
             (out, w) \<Rightarrow> (out, v\<lparr>vo_header := None, vo_writer := w\<rparr>)))"

record vless_in =
  response_seen :: bool
  vi_reader :: vision_reader

definition vless_in_new :: "bytes \<Rightarrow> vless_in" where
  "vless_in_new uuid = \<lparr>response_seen = False, vi_reader = vision_reader_new uuid\<rparr>"

definition unwrap :: "vless_in \<Rightarrow> bytes \<Rightarrow> (vless_error, bytes) result \<times> vless_in" where
  "unwrap v plaintext =
     (case unpad (vi_reader v) plaintext of
        (Inl e, r) \<Rightarrow> (Inl e, v\<lparr>vi_reader := r\<rparr>)
      | (Inr content, r) \<Rightarrow>
          let v = v\<lparr>vi_reader := r\<rparr> in
          if \<not> response_seen v then
            let v = v\<lparr>response_seen := True\<rparr> in
            (rbind (parse_response_header content VERSION) (\<lambda>_. slice 4 (length content) content), v)
          else (Inr content, v))"

section \<open>Contracts\<close>

text \<open>A reader at a frame boundary, a reader that cannot panic, and the relation between a writer
  and the reader at the other end of its stream.\<close>

definition at_boundary :: "vision_reader \<Rightarrow> bool" where
  "at_boundary r \<longleftrightarrow> vr_state r = Header \<and> vr_header_fill r = 0 \<and> length (vr_header r) = 5"

definition vr_inv :: "vision_reader \<Rightarrow> bool" where
  "vr_inv r \<longleftrightarrow> length (vr_header r) = 5 \<and> vr_header_fill r < 5 \<and>
     vr_state r \<noteq> Content 0 \<and> vr_state r \<noteq> Padding 0 \<and>
     (vr_state r \<noteq> Header \<longrightarrow> vr_header_fill r = 0)"

definition legal :: "byte \<Rightarrow> bool" where
  "legal c \<longleftrightarrow> c = PADDING_CONTINUE \<or> c = PADDING_END \<or> c = PADDING_DIRECT"

definition closed :: "vision_reader \<Rightarrow> vision_reader" where
  "closed r = (if vr_command r = PADDING_CONTINUE then r\<lparr>vr_state := Header\<rparr>
     else r\<lparr>vr_state := Direct, within_padding_buffers := False\<rparr>)"

definition vision_synced :: "vision_writer \<Rightarrow> vision_reader \<Rightarrow> bool" where
  "vision_synced w r \<longleftrightarrow>
     (if is_padding w then
        (case vw_uuid w of
           Some u \<Rightarrow> length u = 16 \<and> vr_uuid r = u \<and> vr_state r = Initial \<and> vr_header_fill r = 0 \<and>
             length (vr_header r) = 5
         | None \<Rightarrow> at_boundary r)
      else vr_state r = Direct)"

text \<open>What the writer hides in its padding: the identity prefix plus the five header bytes.\<close>

definition prefix_len :: "bytes option \<Rightarrow> nat" where
  "prefix_len u = (case u of Some x \<Rightarrow> length x | None \<Rightarrow> 0)"

definition no_draw :: "nat \<Rightarrow> u64" where
  "no_draw k = 0"

section \<open>The byte loop\<close>

lemma frame_done_legal: "legal (vr_command r) \<Longrightarrow> done_with out r = (Inr out, closed r)"
  by (auto simp: done_with_def frame_done_def closed_def legal_def)

lemma unpad_loop_append:
  "unpad_loop (a @ b) r out =
     (case unpad_loop a r out of (Inl e, r') \<Rightarrow> (Inl e, r') | (Inr out', r') \<Rightarrow> unpad_loop b r' out')"
  by (induction a r out rule: unpad_loop.induct) (auto split: prod.splits sum.splits)

lemma direct_run: "vr_state r = Direct \<Longrightarrow> unpad_loop bs r out = (Inr (out @ bs), r)"
  by (induction bs arbitrary: out) (auto simp: unpad_byte_def)

lemma padding_run:
  "vr_state r = Padding (length ps) \<Longrightarrow> ps \<noteq> [] \<Longrightarrow> legal (vr_command r) \<Longrightarrow>
     unpad_loop (ps @ rest) r out = unpad_loop rest (closed r) out"
proof (induction ps arbitrary: r)
  case (Cons b ps)
  show ?case
  proof (cases "ps = []")
    case True
    with Cons.prems show ?thesis
      by (simp add: unpad_byte_def frame_done_legal)
  next
    case False
    have "closed (r\<lparr>vr_state := Padding (length ps)\<rparr>) = closed r"
      by (simp add: closed_def)
    with False Cons show ?thesis
      by (simp add: unpad_byte_def)
  qed
qed simp

lemma content_run:
  "vr_state r = Content (length cs) \<Longrightarrow> cs \<noteq> [] \<Longrightarrow> legal (vr_command r) \<Longrightarrow>
     unpad_loop (cs @ rest) r out =
     unpad_loop rest (if header_has_padding r then r\<lparr>vr_state := Padding (pending_padding r)\<rparr> else closed r) (out @ cs)"
proof (induction cs arbitrary: r out)
  case (Cons b cs)
  show ?case
  proof (cases "cs = []")
    case True
    with Cons.prems show ?thesis
      by (simp add: unpad_byte_def frame_done_legal)
  next
    case False
    let ?r = "r\<lparr>vr_state := Content (length cs)\<rparr>"
    have "unpad_loop (cs @ rest) ?r (out @ [b]) =
      unpad_loop rest (if header_has_padding ?r then ?r\<lparr>vr_state := Padding (pending_padding ?r)\<rparr> else closed ?r)
        ((out @ [b]) @ cs)"
      using False Cons.prems by (intro Cons.IH) simp_all
    with False Cons.prems show ?thesis
      by (simp add: unpad_byte_def header_has_padding_def pending_padding_def closed_def)
  qed
qed simp

lemma header_run:
  assumes "at_boundary r"
  defines "r5 \<equiv> \<lambda>c l m p q. r\<lparr>vr_header := [c, l, m, p, q], vr_command := c, vr_header_fill := 0\<rparr>"
  shows "unpad_loop (c # l # m # p # q # rest) r out =
     (let cl = unat (from_be16 l m); pl = unat (from_be16 p q) in
      if MAX_FRAME_BODY < cl \<or> MAX_FRAME_BODY < pl then (Inl (Err BadFrame), r5 c l m p q)
      else if 0 < cl then unpad_loop rest (r5 c l m p q\<lparr>vr_state := Content cl\<rparr>) out
      else if 0 < pl then unpad_loop rest (r5 c l m p q\<lparr>vr_state := Padding pl\<rparr>) out
      else case done_with out (r5 c l m p q) of (Inl e, r') \<Rightarrow> (Inl e, r') | (Inr out', r') \<Rightarrow> unpad_loop rest r' out')"
proof -
  from assms(1) obtain h0 h1 h2 h3 h4 where h: "vr_header r = [h0, h1, h2, h3, h4]"
    by (auto simp: at_boundary_def numeral_eq_Suc length_Suc_conv)
  have s: "vr_state r = Header" "vr_header_fill r = 0"
    using assms(1) by (auto simp: at_boundary_def)
  show ?thesis
    by (simp add: unpad_byte_def h s r5_def Let_def del: unat_from_be16)
qed

lemma closed_simps [simp]:
  "vr_state (closed r) = (if vr_command r = PADDING_CONTINUE then Header else Direct)"
  "vr_header_fill (closed r) = vr_header_fill r" "vr_header (closed r) = vr_header r"
  "vr_uuid (closed r) = vr_uuid r"
  by (simp_all add: closed_def)

lemma max_frame_body: "MAX_FRAME_BODY = 2027"
  by (simp add: proto_defs)

lemma xtls_padding_len_le: "n \<le> MAX_FRAME_BODY \<Longrightarrow> n + xtls_padding_len n lp d \<le> MAX_FRAME_BODY"
  by (auto simp: xtls_padding_len_def Let_def)

text \<open>The reader at a frame boundary consumes exactly one frame and yields its content.\<close>

lemma unpad_frame:
  assumes "at_boundary r" "legal c" "length content \<le> MAX_FRAME_BODY"
  shows "\<exists>r'. vr_header_fill r' = 0 \<and> length (vr_header r') = 5 \<and> vr_uuid r' = vr_uuid r \<and>
      vr_state r' = (if c = PADDING_CONTINUE then Header else Direct) \<and>
      (\<forall>rest. unpad_loop (xtls_padding content c None lp d @ rest) r out = unpad_loop rest r' (out @ content))"
proof -
  define pl where "pl = xtls_padding_len (length content) lp d"
  have pl: "pl \<le> MAX_FRAME_BODY" "length content < 65536" "pl < 65536"
    using xtls_padding_len_le [OF assms(3), of lp d] assms(3) by (simp_all add: pl_def max_frame_body)
  obtain l m where lm: "to_be16 (u16_of (length content)) = [l, m]"
    by (simp add: to_be16_conv)
  obtain p q where pq: "to_be16 (u16_of pl) = [p, q]"
    by (simp add: to_be16_conv)
  have cl: "unat (from_be16 l m) = length content" and pv: "unat (from_be16 p q) = pl"
    using unat_u16_pair lm pq pl by blast+
  define r5 where "r5 = r\<lparr>vr_header := [c, l, m, p, q], vr_command := c, vr_header_fill := 0\<rparr>"
  have wire: "xtls_padding content c None lp d @ rest = c # l # m # p # q # content @ replicate pl 0 @ rest" for rest
    by (simp add: xtls_padding_def Let_def lm pq pl_def [symmetric])
  have pad: "header_has_padding (r5\<lparr>vr_state := st\<rparr>) \<longleftrightarrow> 0 < pl"
    "pending_padding (r5\<lparr>vr_state := st\<rparr>) = pl" for st
    using pv by (auto simp: header_has_padding_def pending_padding_def r5_def unat_gt_0 unsigned_eq_0_iff)
  have hdr: "unpad_loop (xtls_padding content c None lp d @ rest) r out =
     (if 0 < length content then unpad_loop (content @ replicate pl 0 @ rest) (r5\<lparr>vr_state := Content (length content)\<rparr>) out
      else if 0 < pl then unpad_loop (replicate pl 0 @ rest) (r5\<lparr>vr_state := Padding pl\<rparr>) out
      else unpad_loop rest (closed r5) out)" for rest
    unfolding wire header_run [OF assms(1)] r5_def [symmetric] cl pv
    using assms(2,3) pl by (auto simp: Let_def frame_done_legal r5_def)
  have closed5: "closed (r5\<lparr>vr_state := st\<rparr>) = closed r5" for st
    by (simp add: closed_def)
  have legal5: "legal (vr_command r5)"
    using assms(2) by (simp add: r5_def)
  have padded: "unpad_loop (replicate pl 0 @ rest) (r5\<lparr>vr_state := Padding pl\<rparr>) o' = unpad_loop rest (closed r5) o'"
    if "0 < pl" for rest o'
    using that padding_run [of "r5\<lparr>vr_state := Padding pl\<rparr>" "replicate pl 0"] legal5 closed5 by simp
  have "unpad_loop (xtls_padding content c None lp d @ rest) r out = unpad_loop rest (closed r5) (out @ content)" for rest
  proof (cases "content = []")
    case True
    then show ?thesis
      unfolding hdr using padded by auto
  next
    case False
    then have "unpad_loop (content @ replicate pl 0 @ rest) (r5\<lparr>vr_state := Content (length content)\<rparr>) out =
       unpad_loop (replicate pl 0 @ rest) (if 0 < pl then r5\<lparr>vr_state := Padding pl\<rparr> else closed r5) (out @ content)"
      by (subst content_run) (simp_all add: legal5 pad closed5)
    then show ?thesis
      unfolding hdr using False padded by auto
  qed
  then show ?thesis
    by (intro exI [of _ "closed r5"]) (simp add: r5_def)
qed

lemma pad_loop_acc: "pad_loop lp fe rnd u rem out = out @ pad_loop lp fe rnd u rem []"
proof (induction rem arbitrary: rnd u out rule: length_induct)
  case (1 rem)
  show ?case
  proof (cases "length rem \<le> MAX_FRAME_BODY")
    case True
    then show ?thesis by (simp add: pad_loop.simps [of lp fe rnd u] Let_def)
  next
    case False
    then have "length (drop MAX_FRAME_BODY rem) < length rem"
      by (simp add: max_frame_body)
    define g where "g = pad_loop lp fe (\<lambda>k. rnd (Suc k)) None (drop MAX_FRAME_BODY rem) []"
    have "pad_loop lp fe (\<lambda>k. rnd (Suc k)) None (drop MAX_FRAME_BODY rem) o' = o' @ g" for o'
      unfolding g_def using "1" \<open>length (drop MAX_FRAME_BODY rem) < length rem\<close> by blast
    then show ?thesis
      using False by (simp add: pad_loop.simps [of lp fe rnd u] Let_def)
  qed
qed

lemma pad_loop_unfold:
  "pad_loop lp fe rnd u rem [] =
     (if length rem \<le> MAX_FRAME_BODY
      then xtls_padding rem (if fe then PADDING_END else PADDING_CONTINUE) u lp (rnd 0)
      else xtls_padding (take MAX_FRAME_BODY rem) PADDING_CONTINUE u lp (rnd 0) @
           pad_loop lp fe (\<lambda>k. rnd (Suc k)) None (drop MAX_FRAME_BODY rem) [])"
proof -
  define g where "g = pad_loop lp fe (\<lambda>k. rnd (Suc k)) None (drop MAX_FRAME_BODY rem) []"
  have "pad_loop lp fe (\<lambda>k. rnd (Suc k)) None (drop MAX_FRAME_BODY rem) o' = o' @ g" for o'
    unfolding g_def by (rule pad_loop_acc)
  then show ?thesis
    by (simp add: pad_loop.simps [of lp fe rnd u rem] Let_def min_def)
qed

lemma xtls_padding_uuid: "xtls_padding cs c (Some u) lp d = u @ xtls_padding cs c None lp d"
  by (simp add: xtls_padding_def Let_def)

lemma pad_loop_uuid: "pad_loop lp fe rnd (Some u) rem [] = u @ pad_loop lp fe rnd None rem []"
  by (subst (1 2) pad_loop_unfold) (simp add: xtls_padding_uuid)

lemma pad_loop_read:
  assumes "at_boundary r"
  shows "\<exists>r'. (if fe then vr_state r' = Direct else at_boundary r') \<and>
     (\<forall>rest. unpad_loop (pad_loop lp fe rnd None rem [] @ rest) r out = unpad_loop rest r' (out @ rem))"
  using assms
proof (induction rem arbitrary: r rnd out rule: length_induct)
  case (1 rem)
  show ?case
  proof (cases "length rem \<le> MAX_FRAME_BODY")
    case True
    have "legal (if fe then PADDING_END else PADDING_CONTINUE)"
      by (simp add: legal_def)
    from unpad_frame [OF "1.prems" this True, of lp "rnd 0" out] True show ?thesis
      by (subst pad_loop_unfold) (fastforce simp: at_boundary_def proto_defs)
  next
    case False
    let ?cs = "take MAX_FRAME_BODY rem"
    have "legal PADDING_CONTINUE" "length ?cs \<le> MAX_FRAME_BODY"
      by (simp_all add: legal_def)
    from unpad_frame [OF "1.prems" this, of lp "rnd 0" out] obtain r1 where r1: "at_boundary r1"
      "\<forall>rest. unpad_loop (xtls_padding ?cs PADDING_CONTINUE None lp (rnd 0) @ rest) r out = unpad_loop rest r1 (out @ ?cs)"
      by (auto simp: at_boundary_def)
    have "length (drop MAX_FRAME_BODY rem) < length rem"
      using False by (simp add: max_frame_body)
    with "1.IH" r1(1) obtain r2 where r2: "if fe then vr_state r2 = Direct else at_boundary r2"
      "\<forall>rest. unpad_loop (pad_loop lp fe (\<lambda>k. rnd (Suc k)) None (drop MAX_FRAME_BODY rem) [] @ rest) r1 (out @ ?cs)
         = unpad_loop rest r2 ((out @ ?cs) @ drop MAX_FRAME_BODY rem)"
      by blast
    show ?thesis
      using r1(2) r2 False by (subst pad_loop_unfold) auto
  qed
qed

lemma xtls_padding_min: "5 \<le> length (xtls_padding cs c u lp d)"
  by (simp add: xtls_padding_def Let_def)

lemma pad_loop_min: "5 \<le> length (pad_loop lp fe rnd None rem [])"
  using xtls_padding_min by (subst pad_loop_unfold) (auto intro: trans_le_add1)

text \<open>One call of the writer, read by the synchronised reader.\<close>

lemma vision_step:
  assumes "vision_synced w r"
  shows "\<exists>r'. unpad r (fst (pad w payload lp fe rnd)) = (Inr payload, r') \<and>
     vision_synced (snd (pad w payload lp fe rnd)) r'"
proof (cases "is_padding w")
  case False
  with assms show ?thesis
    by (auto simp: vision_synced_def pad_def unpad_def direct_run)
next
  case True
  define f where "f = pad_loop lp fe rnd None payload []"
  let ?w = "w\<lparr>vw_uuid := None, is_padding := \<not> fe\<rparr>"
  have w': "snd (pad w payload lp fe rnd) = ?w"
    using True by (cases w) (simp add: pad_def Let_def)
  have read: "\<exists>r'. unpad_loop f r0 [] = (Inr payload, r') \<and> vision_synced ?w r'" if "at_boundary r0" for r0
  proof -
    from pad_loop_read [OF that, of fe lp rnd payload "[]"] obtain r' where
      r': "if fe then vr_state r' = Direct else at_boundary r'" "unpad_loop (f @ []) r0 [] = unpad_loop [] r' ([] @ payload)"
      unfolding f_def by blast
    then show ?thesis
      by (intro exI [of _ r']) (auto simp: vision_synced_def)
  qed
  show ?thesis
  proof (cases "vw_uuid w")
    case None
    with True have "fst (pad w payload lp fe rnd) = f"
      by (simp add: pad_def f_def Let_def)
    moreover have "at_boundary r"
      using assms True None by (simp add: vision_synced_def)
    ultimately show ?thesis
      using read w' by (auto simp: unpad_def at_boundary_def)
  next
    case (Some u)
    with True have "fst (pad w payload lp fe rnd) = u @ f"
      by (simp add: pad_def f_def pad_loop_uuid Let_def)
    moreover have "length u = 16" "vr_uuid r = u" "vr_state r = Initial"
      and b: "at_boundary (r\<lparr>vr_state := Header, within_padding_buffers := True, vr_first_buffer := False\<rparr>)"
      using assms True Some by (simp_all add: vision_synced_def at_boundary_def)
    moreover have "5 \<le> length f"
      by (simp add: f_def pad_loop_min)
    ultimately show ?thesis
      using read [OF b] w' by (simp add: unpad_def)
  qed
qed

section \<open>Stream contracts\<close>

type_synonym pad_call = "bytes \<times> bool \<times> bool \<times> (nat \<Rightarrow> u64)"

definition pad_call :: "vision_writer \<Rightarrow> pad_call \<Rightarrow> bytes \<times> vision_writer" where
  "pad_call w c = (case c of (payload, lp, fe, rnd) \<Rightarrow> pad w payload lp fe rnd)"

definition wrap_call :: "vless_out \<Rightarrow> bytes \<times> (nat \<Rightarrow> u64) \<Rightarrow> bytes \<times> vless_out" where
  "wrap_call v c = (case c of (payload, rnd) \<Rightarrow> wrap v payload rnd)"

definition wrap_content :: "vless_out \<Rightarrow> bytes \<times> (nat \<Rightarrow> u64) \<Rightarrow> bytes" where
  "wrap_content v c = (case vo_header v of Some h \<Rightarrow> h | None \<Rightarrow> []) @ fst c"

text \<open>A server that answers its first payload after the VLESS response header.\<close>

definition reply_call :: "bool \<times> vision_writer \<Rightarrow> pad_call \<Rightarrow> bytes \<times> bool \<times> vision_writer" where
  "reply_call s c = (case (s, c) of ((first, w), payload, lp, fe, rnd) \<Rightarrow>
     (case pad w ((if first then build_response_header else []) @ payload) lp fe rnd of
        (f, w') \<Rightarrow> (f, False, w')))"

definition reply_synced :: "bool \<times> vision_writer \<Rightarrow> vless_in \<Rightarrow> bool" where
  "reply_synced s v \<longleftrightarrow> response_seen v = (\<not> fst s) \<and> vision_synced (snd s) (vi_reader v)"

interpretation vision: paired_stream pad_call unpad "\<lambda>_. fst" vision_synced "\<lambda>_ _. True"
  using vision_step by unfold_locales (fastforce simp: pad_call_def split: prod.splits)

lemma wrap_conv:
  "fst (wrap v p rnd) = fst (pad (vo_writer v) (wrap_content v (p, rnd)) (vo_header v \<noteq> None) (vo_header v \<noteq> None) rnd)"
  "vo_writer (snd (wrap v p rnd)) = snd (pad (vo_writer v) (wrap_content v (p, rnd)) (vo_header v \<noteq> None) (vo_header v \<noteq> None) rnd)"
  "vo_header (snd (wrap v p rnd)) = None"
  by (auto simp: wrap_def wrap_content_def split: option.splits prod.splits)

interpretation requests: paired_stream wrap_call unpad wrap_content "\<lambda>v. vision_synced (vo_writer v)"
  "\<lambda>_ _. True"
proof
  fix v :: vless_out and r and m :: "bytes \<times> (nat \<Rightarrow> u64)"
  assume "vision_synced (vo_writer v) r"
  then show "\<exists>r'. unpad r (fst (wrap_call v m)) = (Inr (wrap_content v m), r') \<and>
      vision_synced (vo_writer (snd (wrap_call v m))) r'"
    by (cases m) (simp add: wrap_call_def wrap_conv vision_step)
qed

lemma content_all_wrap:
  "content_all wrap_call wrap_content v (m # ms) = wrap_content v m # map fst ms"
proof -
  have "content_all wrap_call wrap_content v' ms = map fst ms" if "vo_header v' = None" for v' :: vless_out
    using that by (induction ms arbitrary: v') (auto simp: wrap_content_def wrap_call_def wrap_conv)
  then show ?thesis
    by (cases m) (simp add: wrap_call_def wrap_conv)
qed

lemma parse_built_response [simp]: "parse_response_header (build_response_header @ p) VERSION = Inr ()"
  by (simp add: parse_response_header_def build_response_header_def)

interpretation replies: paired_stream reply_call unwrap "\<lambda>_. fst" reply_synced "\<lambda>_ _. True"
proof
  fix s v and m :: pad_call
  assume sync: "reply_synced s v"
  obtain first w where s: "s = (first, w)" by (cases s)
  obtain payload lp fe rnd where m: "m = (payload, lp, fe, rnd)" by (cases m)
  define c where "c = (if first then build_response_header else []) @ payload"
  obtain r' where r': "unpad (vi_reader v) (fst (pad w c lp fe rnd)) = (Inr c, r')"
    "vision_synced (snd (pad w c lp fe rnd)) r'"
    using sync vision_step s by (fastforce simp: reply_synced_def)
  have "slice 4 (length (build_response_header @ payload)) (build_response_header @ payload) = Inr payload"
    by (simp add: slice_def build_response_header_def)
  then have "unwrap v (fst (pad w c lp fe rnd)) = (Inr payload, v\<lparr>vi_reader := r', response_seen := True\<rparr>)"
    using r'(1) sync s by (auto simp: unwrap_def reply_synced_def c_def Let_def)
  then show "\<exists>v'. unwrap v (fst (reply_call s m)) = (Inr (fst m), v') \<and> reply_synced (snd (reply_call s m)) v'"
    using r'(2) by (auto simp: reply_call_def s m c_def [symmetric] reply_synced_def split: prod.splits)
qed

lemma synced_new: "length u = 16 \<Longrightarrow> vision_synced (vision_writer_new u) (vision_reader_new u)"
  by (simp add: vision_synced_def vision_writer_new_def vision_reader_new_def)

section \<open>Safety lemmas\<close>

lemma done_with_inv:
  "vr_inv r \<Longrightarrow> vr_header_fill r = 0 \<Longrightarrow> vr_state r \<noteq> Initial \<Longrightarrow> done_with out r = (x, r') \<Longrightarrow>
     x \<noteq> Inl Panic \<and> vr_inv r' \<and> vr_state r' \<noteq> Initial"
  by (auto simp: done_with_def frame_done_def vr_inv_def split: if_splits)

lemma pending_pos: "header_has_padding r \<Longrightarrow> 0 < pending_padding r"
  by (auto simp: header_has_padding_def pending_padding_def unat_gt_0)

lemma unpad_header_byte_inv:
  assumes "vr_inv r" "vr_state r = Header" "unpad_byte b r out = (x, r')"
  shows "x \<noteq> Inl Panic \<and> vr_inv r' \<and> vr_state r' \<noteq> Initial"
proof -
  define r1 where "r1 = r\<lparr>vr_header := (vr_header r)[vr_header_fill r := b], vr_header_fill := vr_header_fill r + 1\<rparr>"
  define r2 where "r2 = r1\<lparr>vr_command := vr_header r1 ! 0, vr_header_fill := 0\<rparr>"
  define cl where "cl = unat (from_be16 (vr_header r1 ! 1) (vr_header r1 ! 2))"
  define pl where "pl = unat (from_be16 (vr_header r1 ! 3) (vr_header r1 ! 4))"
  have eq: "unpad_byte b r out = (if vr_header_fill r1 = 5 then
       (if MAX_FRAME_BODY < cl \<or> MAX_FRAME_BODY < pl then (Inl (Err BadFrame), r2)
        else if 0 < cl then (Inr out, r2\<lparr>vr_state := Content cl\<rparr>)
        else if 0 < pl then (Inr out, r2\<lparr>vr_state := Padding pl\<rparr>)
        else done_with out r2) else (Inr out, r1))"
    using assms(1,2) by (simp add: unpad_byte_def Let_def r1_def r2_def cl_def pl_def vr_inv_def)
  have r1: "length (vr_header r1) = 5" "vr_header_fill r1 \<le> 5" "vr_state r1 = Header"
    using assms(1,2) by (auto simp: vr_inv_def r1_def)
  then have r2: "vr_inv r2" "vr_header_fill r2 = 0" "vr_state r2 \<noteq> Initial" "vr_header_fill r1 \<noteq> 5 \<Longrightarrow> vr_inv r1"
    by (auto simp: vr_inv_def r2_def)
  show ?thesis
  proof (cases "vr_header_fill r1 = 5 \<and> cl = 0 \<and> pl = 0")
    case True
    then have "done_with out r2 = (x, r')"
      using assms(3) eq by (simp add: max_frame_body)
    with r2 show ?thesis
      by (intro done_with_inv) auto
  next
    case False
    with r1 r2 assms(3) show ?thesis
      unfolding eq by (auto simp: vr_inv_def split: if_splits)
  qed
qed

lemma unpad_byte_inv:
  assumes "vr_inv r" "vr_state r \<noteq> Initial" "unpad_byte b r out = (x, r')"
  shows "x \<noteq> Inl Panic \<and> vr_inv r' \<and> vr_state r' \<noteq> Initial"
proof (cases "vr_state r")
  case (Content n)
  show ?thesis
  proof (cases "n = 1 \<and> \<not> header_has_padding r")
    case True
    with Content assms show ?thesis
      using done_with_inv [of r "out @ [b]" x r'] by (auto simp: unpad_byte_def vr_inv_def Let_def)
  next
    case False
    with Content assms pending_pos [of r] show ?thesis
      by (auto simp: unpad_byte_def vr_inv_def Let_def split: if_splits)
  qed
next
  case (Padding n)
  show ?thesis
  proof (cases "n = 1")
    case True
    with Padding assms show ?thesis
      using done_with_inv [of r out x r'] by (auto simp: unpad_byte_def vr_inv_def)
  next
    case False
    with Padding assms show ?thesis
      by (auto simp: unpad_byte_def vr_inv_def split: if_splits)
  qed
next
  case Header
  then show ?thesis
    by (rule unpad_header_byte_inv [OF assms(1) _ assms(3)])
qed (use assms in \<open>auto simp: unpad_byte_def\<close>)

lemma unpad_loop_inv:
  "vr_inv r \<Longrightarrow> vr_state r \<noteq> Initial \<Longrightarrow> unpad_loop bs r out = (x, r') \<Longrightarrow>
     x \<noteq> Inl Panic \<and> vr_inv r' \<and> vr_state r' \<noteq> Initial"
proof (induction bs r out rule: unpad_loop.induct)
  case (1 r out)
  then show ?case by auto
next
  case (2 b bs r out)
  obtain y r1 where y: "unpad_byte b r out = (y, r1)" by (cases "unpad_byte b r out")
  from unpad_byte_inv [OF "2.prems"(1,2) y] "2" y show ?case
    by (cases y) auto
qed

lemma unpad_safe: "vr_inv r \<Longrightarrow> unpad r wire = (x, r') \<Longrightarrow> x \<noteq> Inl Panic \<and> vr_inv r'"
proof -
  assume i: "vr_inv r" and u: "unpad r wire = (x, r')"
  show ?thesis
  proof (cases "vr_state r = Initial \<and> \<not> (21 \<le> length wire \<and> take 16 wire = vr_uuid r)")
    case True
    with i u show ?thesis
      by (auto simp: unpad_def vr_inv_def split: if_splits)
  next
    case False
    let ?r = "r\<lparr>vr_state := Header, within_padding_buffers := True, vr_first_buffer := False\<rparr>"
    have "vr_inv ?r"
      using i by (simp add: vr_inv_def)
    with False i u show ?thesis
      using unpad_loop_inv [of ?r "drop 16 wire" "[]" x r'] unpad_loop_inv [of r wire "[]" x r']
      by (auto simp: unpad_def split: if_splits)
  qed
qed

lemma unpad_byte_out:
  "unpad_byte b r (pre @ out) =
     (case unpad_byte b r out of (Inl e, r') \<Rightarrow> (Inl e, r') | (Inr o', r') \<Rightarrow> (Inr (pre @ o'), r'))"
  by (auto simp: unpad_byte_def done_with_def Let_def split: unpad_state.splits prod.splits sum.splits
      simp del: unat_from_be16)

lemma unpad_loop_out:
  "unpad_loop bs r (pre @ out) =
     (case unpad_loop bs r out of (Inl e, r') \<Rightarrow> (Inl e, r') | (Inr o', r') \<Rightarrow> (Inr (pre @ o'), r'))"
  by (induction bs r out rule: unpad_loop.induct) (auto simp: unpad_byte_out split: prod.splits sum.splits)


lemma recv_all_safe: "vr_inv r \<Longrightarrow> Inl Panic \<notin> set (recv_all unpad r bufs)"
proof (induction bufs arbitrary: r)
  case (Cons a bufs)
  obtain x r' where u: "unpad r a = (x, r')" by fastforce
  from unpad_safe [OF Cons.prems u] Cons.IH [of r'] u show ?case
    by auto
qed simp

lemma length_xtls_padding:
  "length (xtls_padding cs c u lp d) = prefix_len u + 5 + length cs + xtls_padding_len (length cs) lp d"
  by (simp add: xtls_padding_def Let_def prefix_len_def split: option.split)

lemma long_padding_len: "n < 900 \<Longrightarrow> n + xtls_padding_len n True d = 900 + unat d mod 500"
proof -
  assume n: "n < 900"
  have "unat d mod 500 < 500" by simp
  with n show ?thesis
    unfolding xtls_padding_len_def by (simp add: proto_defs Let_def)
qed

text \<open>A call pads its payload by a bounded factor.\<close>

lemma length_frame_le: "length cs \<le> MAX_FRAME_BODY \<Longrightarrow> length (xtls_padding cs c u lp d) \<le> prefix_len u + 2032"
  using xtls_padding_len_le [of "length cs" lp d] by (simp add: length_xtls_padding proto_defs)

lemma length_pad_loop_le:
  "length (pad_loop lp fe rnd None rem []) \<le> 2032 * (length rem div MAX_FRAME_BODY + 1)"
proof (induction rem arbitrary: rnd rule: length_induct)
  case (1 rem)
  show ?case
  proof (cases "length rem \<le> MAX_FRAME_BODY")
    case True
    have "length (pad_loop lp fe rnd None rem []) \<le> prefix_len None + 2032"
      using True length_frame_le [OF True] by (subst pad_loop_unfold) simp
    then show ?thesis
      by (simp add: prefix_len_def)
  next
    case False
    let ?rest = "drop MAX_FRAME_BODY rem"
    have "length ?rest < length rem" "length rem div MAX_FRAME_BODY = length ?rest div MAX_FRAME_BODY + 1"
      using False by (simp_all add: max_frame_body le_div_geq)
    moreover from this(1) "1.IH" have
      "length (pad_loop lp fe (\<lambda>k. rnd (Suc k)) None ?rest []) \<le> 2032 * (length ?rest div MAX_FRAME_BODY + 1)"
      by blast
    moreover have "length (xtls_padding (take MAX_FRAME_BODY rem) PADDING_CONTINUE None lp (rnd 0)) \<le> 2032"
      using length_frame_le [of "take MAX_FRAME_BODY rem" PADDING_CONTINUE None lp "rnd 0"] by (simp add: prefix_len_def)
    ultimately show ?thesis
      using False by (subst pad_loop_unfold) simp
  qed
qed

lemma length_pad_frames:
  "(\<And>u. vw_uuid w = Some u \<Longrightarrow> length u = 16) \<Longrightarrow>
     length (fst (pad w payload lp fe rnd)) \<le> 2032 * (length payload div MAX_FRAME_BODY + 1) + 16"
proof -
  assume u: "\<And>u. vw_uuid w = Some u \<Longrightarrow> length u = 16"
  have "length payload \<le> 2032 * (length payload div MAX_FRAME_BODY + 1) + 16"
    using div_mult_mod_eq [of "length payload" MAX_FRAME_BODY] mod_less_divisor [of MAX_FRAME_BODY "length payload"]
    by (simp add: max_frame_body)
  then show ?thesis
    using length_pad_loop_le [of lp fe rnd payload] u
    by (cases "vw_uuid w") (auto simp: pad_def Let_def pad_loop_uuid)
qed

lemma length_pad_le:
  "(\<And>u. vw_uuid w = Some u \<Longrightarrow> length u = 16) \<Longrightarrow> length (fst (pad w payload lp fe rnd)) \<le> 2032 * (length payload + 1) + 16"
  by (rule order_trans [OF length_pad_frames]) (auto intro: mult_le_mono2 div_le_dividend)

section \<open>Properties\<close>

text \<open>C9. Vision is transparent: whatever payloads are padded, with whatever choice of long
  padding, of the call that ends the padding and of random draws, a reader created with the
  same UUID that is fed each padded buffer returns exactly the payloads, call by call.\<close>

theorem vision_round_trip:
  assumes "length uuid = 16"
  shows "recv_all unpad (vision_reader_new uuid) (send_all pad_call (vision_writer_new uuid) calls) =
    map (\<lambda>c. Inr (fst c)) calls"
  using vision.run [OF synced_new [OF assms]] by (simp add: content_all_const)

theorem vision_round_trip_witness:
  "recv_all unpad (vision_reader_new (replicate 16 7))
     (send_all pad_call (vision_writer_new (replicate 16 7))
       [([1, 2], False, False, no_draw), ([], True, True, no_draw), ([3], True, True, no_draw)]) =
   [Inr [1, 2], Inr [], Inr [3]]"
  using vision_round_trip [of "replicate 16 7"
      "[([1, 2], False, False, no_draw), ([], True, True, no_draw), ([3], True, True, no_draw)]"]
  by simp

text \<open>C29. The Vision reader is safe on a hostile stream: no sequence of buffers whatsoever makes
  \<open>unpad\<close> panic, not even when the caller keeps feeding a reader that has returned an error
  (neither the \<open>unreachable!\<close> arm, nor the header index, nor a counter underflow is reached).\<close>

theorem vision_reader_never_panics:
  "Inl Panic \<notin> set (recv_all unpad (vision_reader_new uuid) bufs)"
  by (rule recv_all_safe) (simp add: vr_inv_def vision_reader_new_def)

text \<open>C27. Once locked on, the reader does not depend on how the wire is cut: feeding one buffer
  is the same as feeding any two parts of it one after the other, outputs, errors and final
  state included.\<close>

theorem vision_chunking:
  assumes "vr_state r \<noteq> Initial" "vr_inv r"
  shows "unpad r (a @ b) =
     (case unpad r a of
        (Inl e, r1) \<Rightarrow> (Inl e, r1)
      | (Inr x, r1) \<Rightarrow>
          (case unpad r1 b of (Inl e, r2) \<Rightarrow> (Inl e, r2) | (Inr y, r2) \<Rightarrow> (Inr (x @ y), r2)))"
proof -
  obtain x r1 where x: "unpad_loop a r [] = (x, r1)" by fastforce
  with unpad_loop_inv assms have "vr_state r1 \<noteq> Initial" by blast
  show ?thesis
  proof (cases x)
    case (Inr y)
    have "unpad_loop b r1 y = (case unpad_loop b r1 [] of
        (Inl e, r') \<Rightarrow> (Inl e, r') | (Inr o', r') \<Rightarrow> (Inr (y @ o'), r'))"
      using unpad_loop_out [of b r1 y "[]"] by simp
    with assms(1) x Inr \<open>vr_state r1 \<noteq> Initial\<close> show ?thesis
      by (simp add: unpad_def unpad_loop_append)
  qed (use assms(1) x in \<open>simp add: unpad_def unpad_loop_append\<close>)
qed

theorem vision_chunking_witness:
  "unpad (vision_reader_new []\<lparr>vr_state := Content 3\<rparr>) ([8] @ [9]) =
   (Inr [8, 9], vision_reader_new []\<lparr>vr_state := Content 1\<rparr>)"
proof -
  let ?r = "vision_reader_new []\<lparr>vr_state := Content 3\<rparr>"
  have r: "vr_state ?r \<noteq> Initial" "vr_inv ?r"
    by (simp_all add: vision_reader_new_def vr_inv_def)
  show ?thesis
    unfolding vision_chunking [OF r] by (simp add: unpad_def unpad_byte_def vision_reader_new_def)
qed

text \<open>C39. Frames fit the peer's buffer and long padding hides the length: a frame whose content
  respects \<open>MAX_FRAME_BODY\<close> never exceeds \<open>BUF_SIZE\<close> and announces both lengths without
  truncation; and a long-padded frame with fewer than 900 content bytes has a size that depends
  on the random draw alone (so its padding ranges over \<open>[900 - c, 1400 - c)\<close>).\<close>

theorem vision_frame_size:
  assumes "length content \<le> MAX_FRAME_BODY" "prefix_len uuid \<le> 16"
  shows "length (xtls_padding content command uuid long_padding draw) \<le> BUF_SIZE \<and>
    unat (u16_of (xtls_padding_len (length content) long_padding draw)) =
      xtls_padding_len (length content) long_padding draw \<and>
    (length content < 900 \<longrightarrow>
       length (xtls_padding content command uuid True draw) = prefix_len uuid + 905 + unat draw mod 500)"
proof -
  have *: "length content + xtls_padding_len (length content) long_padding draw \<le> MAX_FRAME_BODY"
    using xtls_padding_len_le [of "length content" long_padding draw] assms(1) by linarith
  moreover have "MAX_FRAME_BODY = 2027" "BUF_SIZE = 2048"
    by (simp_all add: proto_defs)
  ultimately show ?thesis
    using assms(2) long_padding_len [of "length content" draw]
    by (auto simp: length_xtls_padding)
qed

theorem vision_frame_size_witness:
  "length (xtls_padding [1, 2, 3] 0 None True 1234) = 905 + 234 \<and>
   length (xtls_padding [1, 2, 3] 0 None True 1234) \<le> BUF_SIZE"
  using vision_frame_size [of "[1, 2, 3]" None 0 True 1234] by (simp add: proto_defs prefix_len_def)

text \<open>The request direction end to end: the buffers \<open>VlessOut\<close> produces are read by the
  server's \<open>VisionReader\<close> as the request header followed by the first payload, then the other
  payloads; and the first one parses as the request the client asked for.\<close>

theorem vless_request_stream:
  assumes "vless_out_new uuid flow command address port = Inr out" "length uuid = 16"
    "\<forall>name. flow = Some name \<longrightarrow> length name < 256 \<and> utf8_valid name" "address_ok address"
  shows "\<exists>hdr. build_request_header uuid flow command address port = Inr hdr \<and>
    recv_all unpad (vision_reader_new uuid) (send_all wrap_call out ((p, rnd) # calls)) =
      Inr (hdr @ p) # map (\<lambda>c. Inr (fst c)) calls \<and>
    parse_request_header (hdr @ p) =
      Inr \<lparr>pr_uuid = uuid, pr_flow = flow_seen flow, pr_command = command,
           pr_address = (if command = CMD_MUX then Domain mux_cool else address),
           pr_port = (if command = CMD_MUX then 0 else port)\<rparr> \<and>
    request_header_len (hdr @ p) = Inr (length hdr)"
proof -
  from assms(1) obtain hdr where hdr: "build_request_header uuid flow command address port = Inr hdr"
    and out: "out = \<lparr>vo_header = Some hdr, vo_writer = vision_writer_new uuid\<rparr>"
    by (auto simp: vless_out_new_def rbind_eq_Inr)
  have "vision_synced (vo_writer out) (vision_reader_new uuid)"
    using synced_new assms(2) out by simp
  from requests.run [OF this all_ok_True] have "recv_all unpad (vision_reader_new uuid) (send_all wrap_call out ((p, rnd) # calls)) =
      Inr (hdr @ p) # map (\<lambda>c. Inr (fst c)) calls"
    using out by (simp only: content_all_wrap list.map map_map comp_def) (simp add: wrap_content_def)
  then show ?thesis
    using hdr parse_built_header [OF hdr assms(2)] built_header_len [OF hdr assms(2)] assms(3,4) by blast
qed

theorem vless_request_stream_witness:
  "\<exists>hdr. build_request_header demo_uuid None CMD_UDP (Ipv4 [1, 1, 1, 1]) 53 = Inr hdr \<and>
    recv_all unpad (vision_reader_new demo_uuid)
      (send_all wrap_call \<lparr>vo_header = Some hdr, vo_writer = vision_writer_new demo_uuid\<rparr>
        [([1], no_draw), ([2], no_draw)]) = [Inr (hdr @ [1]), Inr [2]]"
proof -
  obtain hdr where hdr: "build_request_header demo_uuid None CMD_UDP (Ipv4 [1, 1, 1, 1]) 53 = Inr hdr"
    by (simp add: build_request_header_def proto_defs)
  then have "vless_out_new demo_uuid None CMD_UDP (Ipv4 [1, 1, 1, 1]) 53 =
      Inr \<lparr>vo_header = Some hdr, vo_writer = vision_writer_new demo_uuid\<rparr>"
    by (simp add: vless_out_new_def)
  from vless_request_stream [OF this, of "[1]" no_draw "[([2], no_draw)]"] hdr show ?thesis
    by (auto simp: demo_uuid_def)
qed

text \<open>The response direction end to end: when the server pads its response header and then
  its payloads with its own Vision writer, \<open>VlessIn\<close> strips the header from the first buffer
  and returns exactly the payloads.\<close>

theorem vless_response_stream:
  assumes "length uuid = 16"
  shows "recv_all unwrap (vless_in_new uuid) (send_all reply_call (True, vision_writer_new uuid) calls) =
    map (\<lambda>c. Inr (fst c)) calls"
proof -
  have "reply_synced (True, vision_writer_new uuid) (vless_in_new uuid)"
    using synced_new [OF assms] by (simp add: reply_synced_def vless_in_new_def)
  from replies.run [OF this] show ?thesis
    by (simp add: content_all_const)
qed

theorem vless_response_stream_witness:
  "recv_all unwrap (vless_in_new (replicate 16 1))
     (send_all reply_call (True, vision_writer_new (replicate 16 1))
       [([5], True, False, no_draw), ([6], False, True, no_draw)]) = [Inr [5], Inr [6]]"
  using vless_response_stream [of "replicate 16 1" "[([5], True, False, no_draw), ([6], False, True, no_draw)]"]
  by simp

text \<open>What a rejection does not latch: after the reader has refused a stream with
  \<open>UuidMismatch\<close>, or \<open>VlessIn\<close> a response with \<open>BadResponse\<close>, the next unprefixed buffer is
  passed through as payload, with no identity and no response header ever checked.\<close>

theorem vision_rejection_not_latched:
  assumes "\<not> (21 \<le> length b \<and> take 16 b = uuid)"
  shows "(21 \<le> length a \<and> take 16 a \<noteq> uuid \<longrightarrow>
     recv_all unpad (vision_reader_new uuid) [a, b] = [Inl (Err UuidMismatch), Inr b]) \<and>
    (length a < 4 \<longrightarrow>
     recv_all unwrap (vless_in_new uuid) [a, b] = [Inl (Err BadResponse), Inr b])"
  using assms
  by (auto simp: unpad_def vision_reader_new_def unwrap_def vless_in_new_def Let_def parse_response_header_def)

theorem vision_rejection_not_latched_witness:
  "recv_all unpad (vision_reader_new (replicate 16 1)) [replicate 21 2, replicate 21 3] =
     [Inl (Err UuidMismatch), Inr (replicate 21 3)] \<and>
   recv_all unwrap (vless_in_new (replicate 16 1)) [[9], replicate 21 3] =
     [Inl (Err BadResponse), Inr (replicate 21 3)]"
  using vision_rejection_not_latched [of "replicate 21 3" "replicate 16 1" "replicate 21 2"]
    vision_rejection_not_latched [of "replicate 21 3" "replicate 16 1" "[9]"]
  by (simp add: numeral_eq_Suc)

end
