(* ===== verification/Crypto.thy ===== *)
theory Crypto
  imports Prelude
begin

text \<open>
  The cryptographic primitives of the crates \<open>x25519-dalek\<close>, \<open>aes-gcm\<close>, \<open>hkdf\<close>, \<open>hmac\<close> and \<open>sha2\<close>
  are code the program calls and not code of the program: they are the fields of a record
  \<open>crypto\<close> that every definition takes as its first argument.  What the program relies on is
  stated as named hypotheses of the theorems that need it: Diffie-Hellman agreement
  (\<open>dh_commutes\<close>), exactness of the AEAD (\<open>aead_exact\<close>: encryption of a message within
  the length limit succeeds and adds a 16-byte tag, decryption accepts exactly the encryptions)
  and output lengths (\<open>digest_lengths\<close>).  \<open>demo_crypto\<close> is a concrete instance in which all of
  them hold; the witnesses use it.
\<close>

record crypto =
  x25519 :: "bytes \<Rightarrow> bytes \<Rightarrow> bytes"
  x25519_base :: "bytes \<Rightarrow> bytes"
  hkdf_sha256 :: "bytes \<Rightarrow> bytes \<Rightarrow> bytes \<Rightarrow> nat \<Rightarrow> bytes"
  sha256 :: "bytes \<Rightarrow> bytes"
  hmac_sha512 :: "bytes \<Rightarrow> bytes \<Rightarrow> bytes"
  aes256_encrypt :: "bytes \<Rightarrow> bytes \<Rightarrow> bytes \<Rightarrow> bytes \<Rightarrow> bytes option"
  aes256_decrypt :: "bytes \<Rightarrow> bytes \<Rightarrow> bytes \<Rightarrow> bytes \<Rightarrow> bytes option"

definition dh_commutes :: "crypto \<Rightarrow> bool" where
  "dh_commutes c \<longleftrightarrow> (\<forall>a b. x25519 c a (x25519_base c b) = x25519 c b (x25519_base c a))"

definition aead_exact :: "crypto \<Rightarrow> bool" where
  "aead_exact c \<longleftrightarrow>
     (\<forall>k n m a. length m < 2 ^ 32 \<longrightarrow> (\<exists>ct. aes256_encrypt c k n m a = Some ct \<and> length ct = length m + 16)) \<and>
     (\<forall>k n ct m a. length m < 2 ^ 32 \<longrightarrow>
        (aes256_decrypt c k n ct a = Some m \<longleftrightarrow> aes256_encrypt c k n m a = Some ct))"

definition digest_lengths :: "crypto \<Rightarrow> bool" where
  "digest_lengths c \<longleftrightarrow>
     (\<forall>a b. length (x25519 c a b) = 32) \<and> (\<forall>a. length (x25519_base c a) = 32) \<and>
     (\<forall>s i f n. length (hkdf_sha256 c s i f n) = n) \<and> (\<forall>m. length (sha256 c m) = 32) \<and>
     (\<forall>k m. length (hmac_sha512 c k m) = 64)"

definition crypto_ok :: "crypto \<Rightarrow> bool" where
  "crypto_ok c \<longleftrightarrow> dh_commutes c \<and> aead_exact c \<and> digest_lengths c"

text \<open>\<open>dst[off..off + src.len()].copy_from_slice(src)\<close> on an array that is long enough.\<close>

definition copy_into :: "nat \<Rightarrow> bytes \<Rightarrow> bytes \<Rightarrow> bytes" where
  "copy_into off src dst = take off dst @ src @ drop (off + length src) dst"

section \<open>A concrete instance\<close>

definition demo_fix :: "nat \<Rightarrow> bytes \<Rightarrow> bytes" where
  "demo_fix n bs = take n (bs @ replicate n 0)"

definition demo_tag :: "bytes \<Rightarrow> bytes \<Rightarrow> bytes \<Rightarrow> bytes \<Rightarrow> bytes" where
  "demo_tag k n m a = demo_fix 16 [sum_list k, sum_list n, sum_list m, sum_list a]"

definition demo_encrypt :: "bytes \<Rightarrow> bytes \<Rightarrow> bytes \<Rightarrow> bytes \<Rightarrow> bytes option" where
  "demo_encrypt k n m a = Some (m @ demo_tag k n m a)"

definition demo_decrypt :: "bytes \<Rightarrow> bytes \<Rightarrow> bytes \<Rightarrow> bytes \<Rightarrow> bytes option" where
  "demo_decrypt k n ct a =
     (let m = take (length ct - 16) ct
      in if 16 \<le> length ct \<and> drop (length ct - 16) ct = demo_tag k n m a then Some m else None)"

definition demo_crypto :: crypto where
  "demo_crypto =
     \<lparr>x25519 = (\<lambda>a b. map2 (+) (demo_fix 32 a) (demo_fix 32 b)),
      x25519_base = demo_fix 32,
      hkdf_sha256 = (\<lambda>s i f n. demo_fix n (i @ s @ f)),
      sha256 = demo_fix 32,
      hmac_sha512 = (\<lambda>k m. demo_fix 64 (k @ m)),
      aes256_encrypt = demo_encrypt,
      aes256_decrypt = demo_decrypt\<rparr>"

section \<open>Lemmas\<close>

lemma length_demo_fix [simp]: "length (demo_fix n bs) = n"
  by (simp add: demo_fix_def)

lemma demo_fix_same: "length bs = n \<Longrightarrow> demo_fix n bs = bs"
  by (simp add: demo_fix_def)

lemma map2_add_commute: "length a = length b \<Longrightarrow> map2 (+) a b = map2 (+) b (a :: bytes)"
  by (induction a b rule: list_induct2) (simp_all add: add.commute)

lemma demo_aead: "demo_decrypt k n ct a = Some m \<longleftrightarrow> demo_encrypt k n m a = Some ct"
proof
  assume "demo_decrypt k n ct a = Some m"
  then show "demo_encrypt k n m a = Some ct"
    by (auto simp: demo_decrypt_def demo_encrypt_def Let_def split: if_splits) (metis append_take_drop_id)
next
  assume "demo_encrypt k n m a = Some ct"
  then show "demo_decrypt k n ct a = Some m"
    by (auto simp: demo_decrypt_def demo_encrypt_def demo_tag_def Let_def)
qed

lemma demo_crypto_ok: "crypto_ok demo_crypto"
proof -
  have "dh_commutes demo_crypto"
    by (simp add: dh_commutes_def demo_crypto_def demo_fix_same map2_add_commute)
  moreover have "aead_exact demo_crypto"
    by (simp add: aead_exact_def demo_crypto_def demo_aead) (simp add: demo_encrypt_def demo_tag_def)
  moreover have "digest_lengths demo_crypto"
    by (simp add: digest_lengths_def demo_crypto_def)
  ultimately show ?thesis
    by (simp add: crypto_ok_def)
qed

lemma encrypt_some:
  assumes "aead_exact c" "length m < 2 ^ 32"
  obtains ct where "aes256_encrypt c k n m a = Some ct" "length ct = length m + 16"
    "aes256_decrypt c k n ct a = Some m"
  using assms unfolding aead_exact_def by metis

lemma decrypt_encrypt:
  "aead_exact c \<Longrightarrow> length m < 2 ^ 32 \<Longrightarrow> aes256_encrypt c k n m a = Some ct \<Longrightarrow> aes256_decrypt c k n ct a = Some m"
  by (simp add: aead_exact_def)

lemma encrypt_decrypt:
  "aead_exact c \<Longrightarrow> length m < 2 ^ 32 \<Longrightarrow> aes256_decrypt c k n ct a = Some m \<Longrightarrow> aes256_encrypt c k n m a = Some ct"
  by (simp add: aead_exact_def)

lemma digest_length [simp]:
  assumes "digest_lengths c"
  shows "length (x25519 c a b) = 32" "length (x25519_base c a) = 32" "length (hkdf_sha256 c s i f n) = n"
    "length (sha256 c m) = 32" "length (hmac_sha512 c k m) = 64"
  using assms by (simp_all add: digest_lengths_def)

lemma dh_agree: "dh_commutes c \<Longrightarrow> x25519 c a (x25519_base c b) = x25519 c b (x25519_base c a)"
  by (simp add: dh_commutes_def)

lemma length_copy_into [simp]: "off + length src \<le> length dst \<Longrightarrow> length (copy_into off src dst) = length dst"
  by (simp add: copy_into_def)

lemma copy_into_zeros:
  "off = length pre + k \<Longrightarrow> k + length src \<le> n \<Longrightarrow> copy_into off src (pre @ replicate n 0) =
     pre @ replicate k 0 @ src @ replicate (n - k - length src) 0"
  by (simp add: copy_into_def take_replicate drop_replicate)

end
