(* ===== verification/Reader.thy ===== *)
theory Reader
  imports Prelude
begin

text \<open>
  The bounds-checked cursor \<open>Reader\<close> of \<open>native/src/tls.rs\<close> and \<open>native/src/tls13.rs\<close> (the two
  copies differ in the error type only, which is the parameter \<open>e\<close> here), a view \<open>rd_at pre rest\<close>
  of a cursor that has consumed \<open>pre\<close> and has \<open>rest\<close> before it, a safety calculus for code that
  threads a cursor, and the contract \<open>item_loop\<close> of the loops that read a block of
  length-delimited items.
\<close>

section \<open>The cursor\<close>

record reader =
  rbuf :: bytes
  rpos :: nat

definition reader_new :: "bytes \<Rightarrow> reader" where
  "reader_new b = \<lparr>rbuf = b, rpos = 0\<rparr>"

text \<open>\<open>self.buf.len() - self.pos\<close>, an unsigned subtraction.\<close>

definition rd_left :: "reader \<Rightarrow> ('e, nat) result" where
  "rd_left r = (if length (rbuf r) < rpos r then Inl Panic else Inr (length (rbuf r) - rpos r))"

definition rd_take :: "'e \<Rightarrow> nat \<Rightarrow> reader \<Rightarrow> ('e, bytes \<times> reader) result" where
  "rd_take e n r =
     rbind (rd_left r) (\<lambda>left.
       if left < n then Inl (Err e)
       else rbind (slice (rpos r) (rpos r + n) (rbuf r)) (\<lambda>out. Inr (out, r\<lparr>rpos := rpos r + n\<rparr>)))"

definition rd_u8 :: "'e \<Rightarrow> reader \<Rightarrow> ('e, byte \<times> reader) result" where
  "rd_u8 e r = rbind (rd_take e 1 r) (\<lambda>(b, r). rbind (index 0 b) (\<lambda>x. Inr (x, r)))"

definition rd_u16 :: "'e \<Rightarrow> reader \<Rightarrow> ('e, u16 \<times> reader) result" where
  "rd_u16 e r = rbind (rd_take e 2 r) (\<lambda>(b, r).
     rbind (index 0 b) (\<lambda>x. rbind (index 1 b) (\<lambda>y. Inr (from_be16 x y, r))))"

definition rd_u24 :: "'e \<Rightarrow> reader \<Rightarrow> ('e, nat \<times> reader) result" where
  "rd_u24 e r = rbind (rd_take e 3 r) (\<lambda>(b, r).
     rbind (index 0 b) (\<lambda>x. rbind (index 1 b) (\<lambda>y. rbind (index 2 b) (\<lambda>z.
       Inr (or (or (push_bit 16 (unat x)) (push_bit 8 (unat y))) (unat z), r)))))"

definition exhausted :: "reader \<Rightarrow> bool" where
  "exhausted r \<longleftrightarrow> rpos r = length (rbuf r)"

text \<open>A cursor that has consumed \<open>pre\<close> and has \<open>rest\<close> before it.\<close>

definition rd_at :: "bytes \<Rightarrow> bytes \<Rightarrow> reader" where
  "rd_at pre rest = \<lparr>rbuf = pre @ rest, rpos = length pre\<rparr>"

text \<open>A computation that does not panic and whose result, if any, satisfies \<open>P\<close>.\<close>

definition safe :: "('e, 'a) result \<Rightarrow> ('a \<Rightarrow> bool) \<Rightarrow> bool" where
  "safe m P \<longleftrightarrow> (case m of Inl (Err _) \<Rightarrow> True | Inl Panic \<Rightarrow> False | Inr x \<Rightarrow> P x)"

definition reader_ok :: "reader \<Rightarrow> bool" where
  "reader_ok r \<longleftrightarrow> rpos r \<le> length (rbuf r)"

named_theorems safe_intros \<open>safety rules, one per operation\<close>

section \<open>Reading from a view\<close>

lemma reader_new_at: "reader_new b = rd_at [] b"
  by (simp add: reader_new_def rd_at_def)

lemma rd_left_at [simp]: "rd_left (rd_at pre rest) = Inr (length rest)"
  by (simp add: rd_left_def rd_at_def)

lemma exhausted_at [simp]: "exhausted (rd_at pre rest) \<longleftrightarrow> rest = []"
  by (simp add: exhausted_def rd_at_def)

lemma rd_take_at:
  "rd_take e n (rd_at pre rest) =
     (if length rest < n then Inl (Err e) else Inr (take n rest, rd_at (pre @ take n rest) (drop n rest)))"
  by (simp add: rd_take_def rd_at_def rd_left_def slice_def)

lemma rd_take_append [simp]:
  "length xs = n \<Longrightarrow> rd_take e n (rd_at pre (xs @ rest)) = Inr (xs, rd_at (pre @ xs) rest)"
  by (simp add: rd_take_at)

lemma rd_take_all [simp]:
  "length xs = n \<Longrightarrow> rd_take e n (rd_at pre xs) = Inr (xs, rd_at (pre @ xs) [])"
  by (simp add: rd_take_at)

lemma rd_u8_Cons [simp]: "rd_u8 e (rd_at pre (b # rest)) = Inr (b, rd_at (pre @ [b]) rest)"
  by (simp add: rd_u8_def rd_take_at index_def)

lemma rd_take_2_Cons [simp]:
  "rd_take e 2 (rd_at pre (a # b # rest)) = Inr ([a, b], rd_at (pre @ [a, b]) rest)"
  by (simp add: rd_take_at)

lemma rd_u16_Cons [simp]:
  "rd_u16 e (rd_at pre (a # b # rest)) = Inr (from_be16 a b, rd_at (pre @ [a, b]) rest)"
  by (simp add: rd_u16_def rd_take_at index_def)

lemma rd_u16_append [simp]:
  "rd_u16 e (rd_at pre (to_be16 w @ rest)) = Inr (w, rd_at (pre @ to_be16 w) rest)"
  by (simp add: to_be16_conv)

lemma rd_u16_last [simp]: "rd_u16 e (rd_at pre (to_be16 w)) = Inr (w, rd_at (pre @ to_be16 w) [])"
  using rd_u16_append [of e pre w "[]"] by simp

lemma shift_or_24:
  "or (or (push_bit 16 (unat x)) (push_bit 8 (unat y))) (unat (z :: byte)) = be_val [x, y :: byte, z :: byte]"
proof -
  have *: "or (push_bit k a) b = a * 2 ^ k + b" if "b < 2 ^ k" for a b k :: nat
    using nat_or_shift [OF that, of a] by (simp add: push_bit_eq_mult or.commute add.commute)
  have "or (push_bit 8 (unat y)) (unat z) = unat y * 256 + unat z"
    using *[of "unat z" 8 "unat y"] by simp
  moreover have "unat y * 256 + unat z < 2 ^ 16"
    using be_val_2_less [of y z] by simp
  ultimately show ?thesis
    using *[of "unat y * 256 + unat z" 16 "unat x"] by (simp add: be_val_def or.assoc)
qed

lemma rd_u24_append [simp]:
  assumes "n < 2 ^ 24"
  shows "rd_u24 e (rd_at pre (be_bytes 3 n @ rest)) = Inr (n, rd_at (pre @ be_bytes 3 n) rest)"
proof -
  obtain x y z where b: "be_bytes 3 n = [x, y, z]"
    by (simp add: be_bytes_numeral)
  have "be_val [x, y, z] = n"
    using be_val_be_bytes [of 3 n] assms unfolding b by simp
  then show ?thesis
    by (simp add: rd_u24_def b rd_take_at index_def shift_or_24)
qed

section \<open>Safety\<close>

lemma safe_Inr [simp]: "safe (Inr x) P \<longleftrightarrow> P x"
  by (simp add: safe_def)

lemma safe_Err [simp]: "safe (Inl (Err e)) P"
  by (simp add: safe_def)

lemma safe_not_Panic: "safe m P \<Longrightarrow> m \<noteq> Inl Panic"
  by (auto simp: safe_def)

lemma safeD: "safe m P \<Longrightarrow> m = Inr x \<Longrightarrow> P x"
  by (simp add: safe_def)

lemma safe_rbind: "safe m P \<Longrightarrow> (\<And>x. m = Inr x \<Longrightarrow> P x \<Longrightarrow> safe (f x) Q) \<Longrightarrow> safe (rbind m f) Q"
  by (auto simp: safe_def rbind_def split: sum.splits fault.splits)

lemma safe_mono: "safe m P \<Longrightarrow> (\<And>x. m = Inr x \<Longrightarrow> P x \<Longrightarrow> Q x) \<Longrightarrow> safe m Q"
  by (auto simp: safe_def split: sum.splits fault.splits)

lemma safe_if [safe_intros]: "(c \<Longrightarrow> safe a P) \<Longrightarrow> (\<not> c \<Longrightarrow> safe b P) \<Longrightarrow> safe (if c then a else b) P"
  by simp

lemma safe_Let [safe_intros]: "(\<And>x. x = t \<Longrightarrow> safe (f x) P) \<Longrightarrow> safe (Let t f) P"
  by (simp add: Let_def)

lemma safe_ok_or [safe_intros]: "(\<And>x. m = Some x \<Longrightarrow> P x) \<Longrightarrow> safe (ok_or e m) P"
  by (cases m) auto

lemma safe_index [safe_intros]: "i < length xs \<Longrightarrow> safe (index i xs) (\<lambda>x. x = xs ! i)"
  by (simp add: index_def)

lemma safe_slice [safe_intros]:
  "a \<le> b \<Longrightarrow> b \<le> length xs \<Longrightarrow> safe (slice a b xs) (\<lambda>ys. ys = take (b - a) (drop a xs))"
  by (simp add: slice_def)

lemma safe_pair: "safe (f (fst p) (snd p)) P \<Longrightarrow> safe (case p of (a, b) \<Rightarrow> f a b) P"
  by (simp add: case_prod_beta)

lemma reader_ok_at [simp]: "reader_ok (rd_at pre rest)"
  by (simp add: reader_ok_def rd_at_def)

lemma reader_ok_new [simp]: "reader_ok (reader_new b)"
  by (simp add: reader_new_at)

lemma reader_okE:
  assumes "reader_ok r"
  obtains pre rest where "r = rd_at pre rest" "rbuf r = pre @ rest" "rpos r = length pre"
  using assms that [of "take (rpos r) (rbuf r)" "drop (rpos r) (rbuf r)"]
  by (cases r) (simp add: rd_at_def reader_ok_def)

lemma safe_rd_left [safe_intros]:
  "reader_ok r \<Longrightarrow> safe (rd_left r) (\<lambda>n. n = length (rbuf r) - rpos r)"
  by (simp add: rd_left_def reader_ok_def)

text \<open>Every read keeps the buffer and moves the cursor forward inside it.\<close>

lemma safe_rd_take [safe_intros]:
  assumes "reader_ok r"
  shows "safe (rd_take e n r) (\<lambda>(b, r'). length b = n \<and> reader_ok r' \<and> rbuf r' = rbuf r \<and>
    rpos r' = rpos r + n)"
proof -
  from assms have "rpos r \<le> length (rbuf r)" by (simp add: reader_ok_def)
  then show ?thesis
    by (auto simp: rd_take_def rd_left_def slice_def reader_ok_def)
qed

lemma safe_rd_u8 [safe_intros]:
  "reader_ok r \<Longrightarrow> safe (rd_u8 e r) (\<lambda>(_, r'). reader_ok r' \<and> rbuf r' = rbuf r \<and> rpos r' = rpos r + 1)"
  unfolding rd_u8_def by (rule safe_rbind, erule safe_rd_take) (auto simp: index_def)

lemma safe_rd_u16 [safe_intros]:
  "reader_ok r \<Longrightarrow> safe (rd_u16 e r) (\<lambda>(_, r'). reader_ok r' \<and> rbuf r' = rbuf r \<and> rpos r' = rpos r + 2)"
  unfolding rd_u16_def by (rule safe_rbind, erule safe_rd_take) (auto simp: index_def)

lemma safe_rd_u24 [safe_intros]:
  "reader_ok r \<Longrightarrow> safe (rd_u24 e r) (\<lambda>(_, r'). reader_ok r' \<and> rbuf r' = rbuf r \<and> rpos r' = rpos r + 3)"
  unfolding rd_u24_def by (rule safe_rbind, erule safe_rd_take) (auto simp: index_def)

text \<open>The same as rules for the continuation of a read.\<close>

lemma safe_bind_take [safe_intros]:
  "reader_ok r \<Longrightarrow> (\<And>b r'. rd_take e n r = Inr (b, r') \<Longrightarrow> length b = n \<Longrightarrow> reader_ok r' \<Longrightarrow> rbuf r' = rbuf r \<Longrightarrow> rpos r' = rpos r + n \<Longrightarrow> safe (f b r') P) \<Longrightarrow>
   safe (rbind (rd_take e n r) (\<lambda>(b, r). f b r)) P"
  by (rule safe_rbind, erule safe_rd_take) auto

lemma safe_bind_u8 [safe_intros]:
  "reader_ok r \<Longrightarrow> (\<And>b r'. rd_u8 e r = Inr (b, r') \<Longrightarrow> reader_ok r' \<Longrightarrow> rbuf r' = rbuf r \<Longrightarrow> rpos r' = rpos r + 1 \<Longrightarrow> safe (f b r') P) \<Longrightarrow>
   safe (rbind (rd_u8 e r) (\<lambda>(b, r). f b r)) P"
  by (rule safe_rbind, erule safe_rd_u8) auto

lemma safe_bind_u16 [safe_intros]:
  "reader_ok r \<Longrightarrow> (\<And>b r'. rd_u16 e r = Inr (b, r') \<Longrightarrow> reader_ok r' \<Longrightarrow> rbuf r' = rbuf r \<Longrightarrow> rpos r' = rpos r + 2 \<Longrightarrow> safe (f b r') P) \<Longrightarrow>
   safe (rbind (rd_u16 e r) (\<lambda>(b, r). f b r)) P"
  by (rule safe_rbind, erule safe_rd_u16) auto

lemma safe_bind_u24 [safe_intros]:
  "reader_ok r \<Longrightarrow> (\<And>b r'. rd_u24 e r = Inr (b, r') \<Longrightarrow> reader_ok r' \<Longrightarrow> rbuf r' = rbuf r \<Longrightarrow> rpos r' = rpos r + 3 \<Longrightarrow> safe (f b r') P) \<Longrightarrow>
   safe (rbind (rd_u24 e r) (\<lambda>(b, r). f b r)) P"
  by (rule safe_rbind, erule safe_rd_u24) auto

lemma safe_bind_left [safe_intros]:
  "reader_ok r \<Longrightarrow> safe (f (length (rbuf r) - rpos r)) P \<Longrightarrow> safe (rbind (rd_left r) f) P"
  by (simp add: rd_left_def reader_ok_def)

lemma safe_bind_index [safe_intros]:
  "i < length xs \<Longrightarrow> safe (f (xs ! i)) P \<Longrightarrow> safe (rbind (index i xs) f) P"
  by (simp add: index_def)

section \<open>Loops over length-delimited items\<close>

text \<open>The contract of a loop that reads items until a byte counter reaches \<open>total\<close>: it stops
  there, and an encoded item ahead of the cursor is consumed whole and folded into the
  accumulator.  Then a block of encoded items is read as the fold over the items.\<close>

locale item_loop =
  fixes loop :: "nat \<Rightarrow> nat \<Rightarrow> reader \<Rightarrow> 's \<Rightarrow> ('e, 's \<times> reader) result"
    and enc :: "'i \<Rightarrow> bytes"
    and upd :: "'i \<Rightarrow> 's \<Rightarrow> 's"
    and ok :: "'i \<Rightarrow> bool"
  assumes stop: "tot \<le> n \<Longrightarrow> loop tot n r s = Inr (s, r)"
    and step: "ok i \<Longrightarrow> n + length (enc i) \<le> tot \<Longrightarrow>
      loop tot n (rd_at pre (enc i @ rest)) s =
      loop tot (n + length (enc i)) (rd_at (pre @ enc i) rest) (upd i s)"
begin

lemma run:
  "\<forall>i \<in> set is. ok i \<Longrightarrow> tot = n + length (concat (map enc is)) \<Longrightarrow>
     loop tot n (rd_at pre (concat (map enc is) @ rest)) s =
     Inr (fold upd is s, rd_at (pre @ concat (map enc is)) rest)"
proof (induction "is" arbitrary: n pre s)
  case Nil
  then show ?case by (simp add: stop)
next
  case (Cons i "is")
  have "loop tot n (rd_at pre (enc i @ concat (map enc is) @ rest)) s =
      loop tot (n + length (enc i)) (rd_at (pre @ enc i) (concat (map enc is) @ rest)) (upd i s)"
    using Cons.prems by (intro step) simp_all
  also have "\<dots> = Inr (fold upd is (upd i s), rd_at ((pre @ enc i) @ concat (map enc is)) rest)"
    using Cons.prems by (intro Cons.IH) simp_all
  finally show ?case by simp
qed

end

end
