(* ===== verification/Tls.thy ===== *)
theory Tls
  imports Reader
begin

text \<open>
  \<open>native/src/tls.rs\<close>: the TLS 1.3 ClientHello record, built extension by extension in the order
  of the source (\<open>build_client_hello\<close>) and parsed with the bounds-checked cursor
  (\<open>parse_client_hello\<close>).  Text is its UTF-8 bytes.  The unsigned subtraction in the padding
  computation and the assertion of \<open>push_u24\<close> are checked, as in a build with overflow checks.
  The second half states what a ClientHello means independently of this builder (a list of
  typed extensions, \<open>hello_wire\<close>) and shows that the parser reads it.
\<close>

section \<open>Constants\<close>

definition CONTENT_HANDSHAKE :: byte where [proto_defs]: "CONTENT_HANDSHAKE = 0x16"
definition HS_CLIENT_HELLO :: byte where [proto_defs]: "HS_CLIENT_HELLO = 0x01"
definition EXT_SERVER_NAME :: u16 where [proto_defs]: "EXT_SERVER_NAME = 0x0000"
definition EXT_PADDING :: u16 where [proto_defs]: "EXT_PADDING = 0x0015"
definition EXT_SUPPORTED_GROUPS :: u16 where [proto_defs]: "EXT_SUPPORTED_GROUPS = 0x000a"
definition EXT_SIGNATURE_ALGORITHMS :: u16 where [proto_defs]: "EXT_SIGNATURE_ALGORITHMS = 0x000d"
definition EXT_KEY_SHARE :: u16 where [proto_defs]: "EXT_KEY_SHARE = 0x0033"
definition EXT_SUPPORTED_VERSIONS :: u16 where [proto_defs]: "EXT_SUPPORTED_VERSIONS = 0x002b"
definition EXT_PSK_MODES :: u16 where [proto_defs]: "EXT_PSK_MODES = 0x002d"
definition EXT_EMS :: u16 where [proto_defs]: "EXT_EMS = 0x0017"
definition EXT_RENEGOTIATION_INFO :: u16 where [proto_defs]: "EXT_RENEGOTIATION_INFO = 0xff01"
definition EXT_ALPN :: u16 where [proto_defs]: "EXT_ALPN = 0x0010"
definition EXT_STATUS_REQUEST :: u16 where [proto_defs]: "EXT_STATUS_REQUEST = 0x0005"
definition EXT_SIGNATURE_ALGORITHMS_CERT :: u16 where [proto_defs]: "EXT_SIGNATURE_ALGORITHMS_CERT = 0x0032"
definition EXT_SCT :: u16 where [proto_defs]: "EXT_SCT = 0x0012"
definition EXT_COMPRESS_CERT :: u16 where [proto_defs]: "EXT_COMPRESS_CERT = 0x001b"
definition EXT_ALPS :: u16 where [proto_defs]: "EXT_ALPS = 0x4469"
definition EXT_ALPS_V2 :: u16 where [proto_defs]: "EXT_ALPS_V2 = 0x44cd"
definition EXT_DELEGATED_CREDENTIALS :: u16 where [proto_defs]: "EXT_DELEGATED_CREDENTIALS = 0x001f"
definition EXT_SESSION_TICKET :: u16 where [proto_defs]: "EXT_SESSION_TICKET = 0x0023"
definition EXT_ETM :: u16 where [proto_defs]: "EXT_ETM = 0x0016"
definition CERT_COMPRESSION_BROTLI :: u16 where [proto_defs]: "CERT_COMPRESSION_BROTLI = 0x0002"
definition GROUP_X25519 :: u16 where [proto_defs]: "GROUP_X25519 = 0x001d"
definition GROUP_SECP256R1 :: u16 where [proto_defs]: "GROUP_SECP256R1 = 0x0017"
definition GROUP_SECP384R1 :: u16 where [proto_defs]: "GROUP_SECP384R1 = 0x0018"
definition GROUP_GREASE :: u16 where [proto_defs]: "GROUP_GREASE = 0x0a0a"
definition GREASE_CIPHER :: u16 where [proto_defs]: "GREASE_CIPHER = 0x0a0a"
definition GREASE_EXT :: u16 where [proto_defs]: "GREASE_EXT = 0x1a1a"
definition GREASE_VERSION :: u16 where [proto_defs]: "GREASE_VERSION = 0x0a0a"
definition ALPN_H2 :: bytes where [proto_defs]: "ALPN_H2 = ascii ''h2''"
definition ALPN_HTTP11 :: bytes where [proto_defs]: "ALPN_HTTP11 = ascii ''http/1.1''"
definition MAX_SESSION_ID_LEN :: nat where [proto_defs]: "MAX_SESSION_ID_LEN = 32"
definition X25519_PK_LEN :: nat where [proto_defs]: "X25519_PK_LEN = 32"
definition SESSION_ID_OFFSET :: nat where [proto_defs]: "SESSION_ID_OFFSET = 5 + 4 + 2 + 32 + 1"

datatype tls_error = Truncated | BadRecordType | BadRecordVersion | LengthMismatch | TrailingBytes
  | BadServerName | ShortIdTooLong | NoX25519KeyShare

record parsed_client_hello =
  ch_sni :: "bytes option"
  ch_random :: bytes
  ch_session_id :: bytes
  ch_ephemeral_public :: bytes
  tls13_negotiable :: bool

section \<open>Building\<close>

definition push_u16 :: "bytes \<Rightarrow> u16 \<Rightarrow> bytes" where
  "push_u16 out n = out @ to_be16 n"

definition push_u24 :: "bytes \<Rightarrow> nat \<Rightarrow> ('e, bytes) result" where
  "push_u24 out n = (if n \<le> 0xFFFFFF then Inr (out @ drop 1 (be_bytes 4 n)) else Inl Panic)"

definition push_extension :: "bytes \<Rightarrow> u16 \<Rightarrow> bytes \<Rightarrow> bytes" where
  "push_extension out ext_type data = push_u16 (push_u16 out ext_type) (u16_of (length data)) @ data"

definition sni_len :: "bytes option \<Rightarrow> nat" where
  "sni_len sni = (case sni of Some s \<Rightarrow> length s | None \<Rightarrow> 0)"

text \<open>\<open>(n >> 8) as u8\<close> and \<open>(n & 0xff) as u8\<close>.\<close>

definition hi8 :: "u16 \<Rightarrow> byte" where
  "hi8 n = ucast (drop_bit 8 n)"

definition lo8 :: "u16 \<Rightarrow> byte" where
  "lo8 n = ucast (and n 0xff)"

definition sig_algs :: bytes where
  "sig_algs = [0x00, 0x10, 0x04, 0x03, 0x08, 0x04, 0x04, 0x01, 0x05, 0x03, 0x08, 0x05, 0x05, 0x01,
     0x08, 0x06, 0x06, 0x01]"

text \<open>The extension block up to the padding extension, in the order of the source.\<close>

definition push_server_name :: "bytes option \<Rightarrow> bytes \<Rightarrow> bytes" where
  "push_server_name sni exts =
     (case sni of
        Some host \<Rightarrow>
          let list = push_u16 [0] (u16_of (length host)) @ host;
              ext = push_u16 [] (u16_of (length list)) @ list
          in push_extension exts EXT_SERVER_NAME ext
      | None \<Rightarrow> exts)"

definition build_groups :: bytes where
  "build_groups =
     push_u16 (push_u16 (push_u16 (push_u16 (push_u16 [] 8) GROUP_GREASE) GROUP_X25519) GROUP_SECP256R1)
       GROUP_SECP384R1"

definition build_alpn :: bytes where
  "build_alpn =
     push_u16 [] (u16_of (1 + length ALPN_H2 + 1 + length ALPN_HTTP11)) @
     [word_of_nat (length ALPN_H2)] @ ALPN_H2 @ [word_of_nat (length ALPN_HTTP11)] @ ALPN_HTTP11"

definition build_key_share :: "bytes \<Rightarrow> bytes" where
  "build_key_share ephemeral_public =
     (let shares = push_u16 (push_u16 [] GROUP_X25519) (u16_of X25519_PK_LEN) @ ephemeral_public
      in push_u16 [] (u16_of (length shares)) @ shares)"

definition build_extensions :: "bytes option \<Rightarrow> bytes \<Rightarrow> bytes" where
  "build_extensions sni ephemeral_public =
     (let exts = push_extension [] GREASE_EXT [];
          exts = push_server_name sni exts;
          exts = push_extension exts EXT_EMS [];
          exts = push_extension exts EXT_RENEGOTIATION_INFO [0x00];
          exts = push_extension exts EXT_SUPPORTED_GROUPS build_groups;
          exts = push_extension exts EXT_ALPN build_alpn;
          exts = push_extension exts EXT_SIGNATURE_ALGORITHMS sig_algs;
          exts = push_extension exts EXT_STATUS_REQUEST [0x01, 0x00, 0x00, 0x00, 0x00];
          exts = push_extension exts EXT_COMPRESS_CERT
            [0x02, hi8 CERT_COMPRESSION_BROTLI, lo8 CERT_COMPRESSION_BROTLI];
          exts = push_extension exts EXT_SCT [];
          exts = push_extension exts EXT_PSK_MODES [0x01, 0x01];
          exts = push_extension exts EXT_SIGNATURE_ALGORITHMS_CERT sig_algs;
          exts = push_extension exts EXT_DELEGATED_CREDENTIALS sig_algs;
          exts = push_extension exts EXT_ALPS [0x00, 0x00];
          exts = push_extension exts EXT_ALPS_V2 [0x00, 0x00];
          exts = push_extension exts EXT_SESSION_TICKET [];
          exts = push_extension exts EXT_ETM [];
          exts = push_extension exts EXT_SUPPORTED_VERSIONS
            [0x06, hi8 GREASE_VERSION, lo8 GREASE_VERSION, 0x03, 0x04, 0x03, 0x03]
      in push_extension exts EXT_KEY_SHARE (build_key_share ephemeral_public))"

definition push_padding :: "bytes option \<Rightarrow> bytes \<Rightarrow> ('e, bytes) result" where
  "push_padding sni exts =
     (let sni_overhead = (if sni \<noteq> None then 9 + sni_len sni else 0);
          tot = length exts + sni_overhead
      in rbind (if tot < 512 then (if tot \<le> 512 - 4 then Inr (512 - 4 - tot) else Inl Panic) else Inr 0)
           (\<lambda>padding_len. Inr (if 0 < padding_len
              then push_extension exts EXT_PADDING (replicate padding_len 0) else exts)))"

definition cipher_suites :: bytes where
  "cipher_suites = [hi8 GREASE_CIPHER, lo8 GREASE_CIPHER, 0x13, 0x01, 0x13, 0x02, 0x13, 0x03,
     0xc0, 0x2b, 0xc0, 0x2f, 0xc0, 0x2c, 0xc0, 0x30, 0xc0, 0x32, 0xc0, 0x2d, 0xc0, 0x27, 0xc0, 0x13,
     0x00, 0x9c, 0x00, 0x9d, 0x00, 0x2f, 0x00, 0x35]"

definition build_body :: "bytes \<Rightarrow> bytes \<Rightarrow> bytes \<Rightarrow> bytes" where
  "build_body random session_id exts =
     (let body = [0x03, 0x03] @ random @ [word_of_nat (length session_id)] @ session_id;
          body = push_u16 body (u16_of (length cipher_suites)) @ cipher_suites @ [0x01] @ [0x00]
      in push_u16 body (u16_of (length exts)) @ exts)"

definition build_record :: "bytes \<Rightarrow> ('e, bytes) result" where
  "build_record body =
     rbind (push_u24 [HS_CLIENT_HELLO] (length body)) (\<lambda>handshake.
       let handshake = handshake @ body
       in Inr (push_u16 ([CONTENT_HANDSHAKE] @ [0x03, 0x01]) (u16_of (length handshake)) @ handshake))"

definition build_client_hello :: "bytes option \<Rightarrow> bytes \<Rightarrow> bytes \<Rightarrow> bytes \<Rightarrow> (tls_error, bytes) result" where
  "build_client_hello sni ephemeral_public random session_id =
     (if MAX_SESSION_ID_LEN < length session_id then Inl (Err ShortIdTooLong)
      else rbind (push_padding sni (build_extensions sni ephemeral_public)) (\<lambda>exts.
        build_record (build_body random session_id exts)))"

section \<open>Parsing\<close>

text \<open>The three variables the extension loop assigns.\<close>

record hello_acc =
  acc_sni :: "bytes option"
  acc_eph :: "bytes option"
  acc_tls13 :: bool

definition parse_server_name :: "reader \<Rightarrow> (tls_error, bytes) result" where
  "parse_server_name er =
     rbind (rd_u16 Truncated er) (\<lambda>(list_len, er).
     rbind (rd_u8 Truncated er) (\<lambda>(name_type, er).
     rbind (rd_u16 Truncated er) (\<lambda>(name_len, er).
       if name_type \<noteq> 0 \<or> unat list_len \<noteq> 1 + 2 + unat name_len then Inl (Err BadServerName)
       else rbind (rd_take Truncated (unat name_len) er) (\<lambda>(name, er).
         if \<not> exhausted er then Inl (Err BadServerName)
         else if utf8_valid name then Inr name else Inl (Err BadServerName)))))"

function parse_shares ::
    "nat \<Rightarrow> nat \<Rightarrow> reader \<Rightarrow> bytes option \<Rightarrow> (tls_error, bytes option \<times> reader) result" where
  "parse_shares shares_len share_read er eph =
     (if share_read < shares_len then
        rbind (rd_u16 Truncated er) (\<lambda>(group, er).
        rbind (rd_u16 Truncated er) (\<lambda>(klen, er).
        rbind (rd_take Truncated (unat klen) er) (\<lambda>(key, er).
          parse_shares shares_len (share_read + 4 + unat klen) er
            (if group = GROUP_X25519 \<and> unat klen = X25519_PK_LEN \<and> eph = None then Some key else eph))))
      else Inr (eph, er))"
  by pat_completeness auto
termination
  by (relation "measure (\<lambda>(l, n, _, _). l - n)") auto

declare parse_shares.simps [simp del]

fun parse_versions :: "nat \<Rightarrow> reader \<Rightarrow> bool \<Rightarrow> (tls_error, bool \<times> reader) result" where
  "parse_versions 0 er tls13 = Inr (tls13, er)"
| "parse_versions (Suc n) er tls13 =
     rbind (rd_u16 Truncated er) (\<lambda>(v, er). parse_versions n er (if v = 0x0304 then True else tls13))"

definition parse_extension :: "u16 \<Rightarrow> bytes \<Rightarrow> hello_acc \<Rightarrow> (tls_error, hello_acc) result" where
  "parse_extension ext_type body a =
     (let er = reader_new body in
      if ext_type = EXT_SERVER_NAME then
        rbind (parse_server_name er) (\<lambda>name. Inr (a\<lparr>acc_sni := Some name\<rparr>))
      else if ext_type = EXT_KEY_SHARE then
        rbind (rd_u16 Truncated er) (\<lambda>(shares_len, er).
        rbind (parse_shares (unat shares_len) 0 er (acc_eph a)) (\<lambda>(eph, er).
          if \<not> exhausted er then Inl (Err LengthMismatch) else Inr (a\<lparr>acc_eph := eph\<rparr>)))
      else if ext_type = EXT_SUPPORTED_VERSIONS then
        rbind (rd_u8 Truncated er) (\<lambda>(list_bytes, er).
          if unat list_bytes mod 2 \<noteq> 0 then Inl (Err LengthMismatch)
          else rbind (parse_versions (unat list_bytes div 2) er (acc_tls13 a)) (\<lambda>(tls13, er).
            if \<not> exhausted er then Inl (Err LengthMismatch) else Inr (a\<lparr>acc_tls13 := tls13\<rparr>)))
      else Inr a)"

function parse_extensions ::
    "nat \<Rightarrow> nat \<Rightarrow> reader \<Rightarrow> hello_acc \<Rightarrow> (tls_error, hello_acc \<times> reader) result" where
  "parse_extensions ext_total ext_read r a =
     (if ext_read < ext_total then
        rbind (rd_u16 Truncated r) (\<lambda>(ext_type, r).
        rbind (rd_u16 Truncated r) (\<lambda>(ext_len, r).
          if ext_total < ext_read + 4 + unat ext_len then Inl (Err LengthMismatch)
          else rbind (rd_take Truncated (unat ext_len) r) (\<lambda>(body, r).
            rbind (parse_extension ext_type body a) (\<lambda>a.
              parse_extensions ext_total (ext_read + 4 + unat ext_len) r a))))
      else Inr (a, r))"
  by pat_completeness auto
termination
  by (relation "measure (\<lambda>(l, n, _, _). l - n)") auto

declare parse_extensions.simps [simp del]

definition parse_record_header :: "reader \<Rightarrow> (tls_error, reader) result" where
  "parse_record_header r =
     rbind (rd_u8 Truncated r) (\<lambda>(ty, r).
       if ty \<noteq> CONTENT_HANDSHAKE then Inl (Err BadRecordType)
       else rbind (rd_take Truncated 2 r) (\<lambda>(version, r).
         rbind (index 0 version) (\<lambda>v0. rbind (index 1 version) (\<lambda>v1.
           if v0 \<noteq> 0x03 \<or> 0x03 < v1 then Inl (Err BadRecordVersion)
           else rbind (rd_u16 Truncated r) (\<lambda>(record_len, r).
             rbind (rd_left r) (\<lambda>left.
               if left \<noteq> unat record_len then Inl (Err LengthMismatch)
               else rbind (rd_u8 Truncated r) (\<lambda>(hs, r).
                 if hs \<noteq> HS_CLIENT_HELLO then Inl (Err BadRecordType)
                 else rbind (rd_u24 Truncated r) (\<lambda>(body_len, r).
                   rbind (rd_left r) (\<lambda>left.
                     if left \<noteq> body_len then Inl (Err LengthMismatch) else Inr r)))))))))"

definition parse_client_hello :: "bytes \<Rightarrow> (tls_error, parsed_client_hello) result" where
  "parse_client_hello wire =
     rbind (parse_record_header (reader_new wire)) (\<lambda>r.
     rbind (rd_take Truncated 2 r) (\<lambda>(_, r).
     rbind (rd_take Truncated 32 r) (\<lambda>(random, r).
     rbind (rd_u8 Truncated r) (\<lambda>(sid_len, r).
       if MAX_SESSION_ID_LEN < unat sid_len then Inl (Err ShortIdTooLong)
       else rbind (rd_take Truncated (unat sid_len) r) (\<lambda>(session_id, r).
         rbind (rd_u16 Truncated r) (\<lambda>(cipher_len, r).
           if unat cipher_len mod 2 \<noteq> 0 then Inl (Err LengthMismatch)
           else rbind (rd_take Truncated (unat cipher_len) r) (\<lambda>(_, r).
             rbind (rd_u8 Truncated r) (\<lambda>(comp_len, r).
             rbind (rd_take Truncated (unat comp_len) r) (\<lambda>(_, r).
             rbind (rd_u16 Truncated r) (\<lambda>(ext_total, r).
             rbind (parse_extensions (unat ext_total) 0 r
                      \<lparr>acc_sni = None, acc_eph = None, acc_tls13 = False\<rparr>) (\<lambda>(a, r).
               if \<not> exhausted r then Inl (Err TrailingBytes)
               else rbind (ok_or NoX25519KeyShare (acc_eph a)) (\<lambda>eph.
                 Inr \<lparr>ch_sni = acc_sni a, ch_random = random, ch_session_id = session_id,
                      ch_ephemeral_public = eph, tls13_negotiable = acc_tls13 a\<rparr>))))))))))))"

section \<open>What a ClientHello means\<close>

datatype extension = ServerName bytes | KeyShares "(u16 \<times> bytes) list" | Versions "u16 list" | Opaque u16 bytes

definition share_wire :: "u16 \<times> bytes \<Rightarrow> bytes" where
  "share_wire s = to_be16 (fst s) @ to_be16 (u16_of (length (snd s))) @ snd s"

definition share_upd :: "u16 \<times> bytes \<Rightarrow> bytes option \<Rightarrow> bytes option" where
  "share_upd s eph = (if fst s = GROUP_X25519 \<and> length (snd s) = X25519_PK_LEN \<and> eph = None then Some (snd s) else eph)"

fun ext_type :: "extension \<Rightarrow> u16" where
  "ext_type (ServerName h) = EXT_SERVER_NAME"
| "ext_type (KeyShares ss) = EXT_KEY_SHARE"
| "ext_type (Versions vs) = EXT_SUPPORTED_VERSIONS"
| "ext_type (Opaque ty d) = ty"

fun ext_body :: "extension \<Rightarrow> bytes" where
  "ext_body (ServerName h) = to_be16 (u16_of (3 + length h)) @ [0] @ to_be16 (u16_of (length h)) @ h"
| "ext_body (KeyShares ss) =
     to_be16 (u16_of (length (concat (map share_wire ss)))) @ concat (map share_wire ss)"
| "ext_body (Versions vs) = [word_of_nat (2 * length vs)] @ concat (map to_be16 vs)"
| "ext_body (Opaque ty d) = d"

fun ext_ok :: "extension \<Rightarrow> bool" where
  "ext_ok (ServerName h) \<longleftrightarrow> utf8_valid h \<and> length h + 5 < 65536"
| "ext_ok (KeyShares ss) \<longleftrightarrow> length (concat (map share_wire ss)) + 2 < 65536"
| "ext_ok (Versions vs) \<longleftrightarrow> 2 * length vs < 256"
| "ext_ok (Opaque ty d) \<longleftrightarrow> ty \<notin> {EXT_SERVER_NAME, EXT_KEY_SHARE, EXT_SUPPORTED_VERSIONS} \<and> length d < 65536"

fun ext_upd :: "extension \<Rightarrow> hello_acc \<Rightarrow> hello_acc" where
  "ext_upd (ServerName h) a = a\<lparr>acc_sni := Some h\<rparr>"
| "ext_upd (KeyShares ss) a = a\<lparr>acc_eph := fold share_upd ss (acc_eph a)\<rparr>"
| "ext_upd (Versions vs) a = a\<lparr>acc_tls13 := (acc_tls13 a \<or> 0x0304 \<in> set vs)\<rparr>"
| "ext_upd (Opaque ty d) a = a"

definition ext_wire :: "extension \<Rightarrow> bytes" where
  "ext_wire x = to_be16 (ext_type x) @ to_be16 (u16_of (length (ext_body x))) @ ext_body x"

record hello =
  h_minor :: byte
  h_version :: bytes
  h_random :: bytes
  h_sid :: bytes
  h_ciphers :: bytes
  h_comp :: bytes
  h_exts :: "extension list"

definition hello_body :: "hello \<Rightarrow> bytes" where
  "hello_body h = h_version h @ h_random h @ [word_of_nat (length (h_sid h))] @ h_sid h @
     to_be16 (u16_of (length (h_ciphers h))) @ h_ciphers h @
     [word_of_nat (length (h_comp h))] @ h_comp h @
     to_be16 (u16_of (length (concat (map ext_wire (h_exts h))))) @ concat (map ext_wire (h_exts h))"

definition hello_wire :: "hello \<Rightarrow> bytes" where
  "hello_wire h = [CONTENT_HANDSHAKE, 0x03, h_minor h] @ to_be16 (u16_of (4 + length (hello_body h))) @
     [HS_CLIENT_HELLO] @ be_bytes 3 (length (hello_body h)) @ hello_body h"

definition hello_ok :: "hello \<Rightarrow> bool" where
  "hello_ok h \<longleftrightarrow> h_minor h \<le> 3 \<and> length (h_version h) = 2 \<and> length (h_random h) = 32 \<and>
     length (h_sid h) \<le> 32 \<and> even (length (h_ciphers h)) \<and> length (h_comp h) < 256 \<and>
     (\<forall>x \<in> set (h_exts h). ext_ok x) \<and> 4 + length (hello_body h) < 65536"

definition hello_result :: "hello \<Rightarrow> (tls_error, parsed_client_hello) result" where
  "hello_result h =
     (let a = fold ext_upd (h_exts h) \<lparr>acc_sni = None, acc_eph = None, acc_tls13 = False\<rparr>
      in case acc_eph a of
           None \<Rightarrow> Inl (Err NoX25519KeyShare)
         | Some eph \<Rightarrow> Inr \<lparr>ch_sni = acc_sni a, ch_random = h_random h, ch_session_id = h_sid h,
             ch_ephemeral_public = eph, tls13_negotiable = acc_tls13 a\<rparr>)"

text \<open>The hello of this client.\<close>

definition chrome_exts :: "bytes option \<Rightarrow> bytes \<Rightarrow> extension list" where
  "chrome_exts sni eph =
     [Opaque GREASE_EXT []] @ (case sni of Some h \<Rightarrow> [ServerName h] | None \<Rightarrow> []) @
     [Opaque EXT_EMS [], Opaque EXT_RENEGOTIATION_INFO [0], Opaque EXT_SUPPORTED_GROUPS build_groups,
      Opaque EXT_ALPN build_alpn, Opaque EXT_SIGNATURE_ALGORITHMS sig_algs,
      Opaque EXT_STATUS_REQUEST [1, 0, 0, 0, 0], Opaque EXT_COMPRESS_CERT [2, 0, 2], Opaque EXT_SCT [],
      Opaque EXT_PSK_MODES [1, 1], Opaque EXT_SIGNATURE_ALGORITHMS_CERT sig_algs,
      Opaque EXT_DELEGATED_CREDENTIALS sig_algs, Opaque EXT_ALPS [0, 0], Opaque EXT_ALPS_V2 [0, 0],
      Opaque EXT_SESSION_TICKET [], Opaque EXT_ETM [], Versions [GREASE_VERSION, 0x0304, 0x0303],
      KeyShares [(GROUP_X25519, eph)]]"

definition chrome_hello :: "bytes option \<Rightarrow> bytes \<Rightarrow> bytes \<Rightarrow> bytes \<Rightarrow> nat \<Rightarrow> hello" where
  "chrome_hello sni eph random sid padding =
     \<lparr>h_minor = 1, h_version = [3, 3], h_random = random, h_sid = sid, h_ciphers = cipher_suites,
      h_comp = [0], h_exts = chrome_exts sni eph @
        (if 0 < padding then [Opaque EXT_PADDING (replicate padding 0)] else [])\<rparr>"

text \<open>The padding the builder asks for; its unsigned subtraction fails for one host length.\<close>

definition pad_for :: "bytes option \<Rightarrow> nat" where
  "pad_for sni = (case sni of Some h \<Rightarrow> 280 - 2 * length h | None \<Rightarrow> 298)"

definition sni_fits :: "bytes option \<Rightarrow> bool" where
  "sni_fits sni \<longleftrightarrow> (case sni of Some h \<Rightarrow> length h \<le> 60000 | None \<Rightarrow> True)"

definition sni_141 :: "bytes option \<Rightarrow> bool" where
  "sni_141 sni \<longleftrightarrow> (case sni of Some h \<Rightarrow> length h = 141 | None \<Rightarrow> False)"

text \<open>Where the session id stands in the record.\<close>

definition before_sid :: "hello \<Rightarrow> bytes" where
  "before_sid h = [CONTENT_HANDSHAKE, 0x03, h_minor h] @ to_be16 (u16_of (4 + length (hello_body h))) @
     [HS_CLIENT_HELLO] @ be_bytes 3 (length (hello_body h)) @ h_version h @ h_random h @ [word_of_nat (length (h_sid h))]"

definition after_sid :: "hello \<Rightarrow> bytes" where
  "after_sid h = to_be16 (u16_of (length (h_ciphers h))) @ h_ciphers h @
     [word_of_nat (length (h_comp h))] @ h_comp h @
     to_be16 (u16_of (length (concat (map ext_wire (h_exts h))))) @ concat (map ext_wire (h_exts h))"

text \<open>What the parser guarantees of the values it collects and returns.\<close>

definition acc_ok :: "hello_acc \<Rightarrow> bool" where
  "acc_ok a \<longleftrightarrow> (\<forall>k. acc_eph a = Some k \<longrightarrow> length k = 32) \<and> (\<forall>h. acc_sni a = Some h \<longrightarrow> utf8_valid h)"

definition parsed_ok :: "parsed_client_hello \<Rightarrow> bool" where
  "parsed_ok p \<longleftrightarrow> length (ch_random p) = 32 \<and> length (ch_session_id p) \<le> 32 \<and>
     length (ch_ephemeral_public p) = 32 \<and> (\<forall>h. ch_sni p = Some h \<longrightarrow> utf8_valid h)"

section \<open>The parser reads every well-formed hello\<close>

lemma length_share_wire [simp]: "length (share_wire s) = 4 + length (snd s)"
  by (simp add: share_wire_def)

lemma parse_shares_stop: "l \<le> n \<Longrightarrow> parse_shares l n r s = Inr (s, r)"
  by (subst parse_shares.simps) simp

lemma parse_shares_step:
  assumes "length (snd s) < 65536" "n + length (share_wire s) \<le> l"
  shows "parse_shares l n (rd_at pre (share_wire s @ rest)) eph =
    parse_shares l (n + length (share_wire s)) (rd_at (pre @ share_wire s) rest) (share_upd s eph)"
proof -
  have len: "n + length (share_wire s) = n + 4 + length (snd s)" by simp
  with assms have "n < l" by simp
  then show ?thesis
    unfolding len using assms(1) by (subst parse_shares.simps) (simp add: share_wire_def share_upd_def)
qed

interpretation shares: item_loop parse_shares share_wire share_upd "\<lambda>s. length (snd s) < 65536"
  by unfold_locales (simp_all add: parse_shares_stop parse_shares_step)

lemma parse_versions_run:
  "parse_versions (length vs) (rd_at pre (concat (map to_be16 vs))) b =
     Inr (b \<or> 0x0304 \<in> set vs, rd_at (pre @ concat (map to_be16 vs)) [])"
  by (induction vs arbitrary: pre b) auto

lemma member_share_bound:
  "s \<in> set ss \<Longrightarrow> length (snd s) \<le> length (concat (map share_wire ss))"
  by (induction ss) auto

lemma parse_extension_spec:
  assumes "ext_ok x"
  shows "parse_extension (ext_type x) (ext_body x) a = Inr (ext_upd x a)"
proof (cases x)
  case (ServerName h)
  with assms show ?thesis
    by (simp add: parse_extension_def parse_server_name_def reader_new_at del: of_nat_add)
next
  case (KeyShares ss)
  let ?w = "concat (map share_wire ss)"
  have small: "length ?w < 65536" "\<forall>s \<in> set ss. length (snd s) < 65536"
    using assms KeyShares member_share_bound [of _ ss] by force+
  have "parse_shares (length ?w) 0 (rd_at (to_be16 (u16_of (length ?w))) (?w @ [])) (acc_eph a) =
      Inr (fold share_upd ss (acc_eph a), rd_at (to_be16 (u16_of (length ?w)) @ ?w) [])"
    using small by (intro shares.run) simp_all
  with KeyShares small show ?thesis
    by (simp add: parse_extension_def reader_new_at proto_defs del: length_concat)
next
  case (Versions vs)
  with assms show ?thesis
    using parse_versions_run [of vs "[word_of_nat (2 * length vs)]" "acc_tls13 a"]
    by (simp add: parse_extension_def reader_new_at proto_defs del: of_nat_mult)
next
  case (Opaque ty d)
  with assms show ?thesis
    by (simp add: parse_extension_def)
qed

lemma length_concat_be16 [simp]: "length (concat (map to_be16 vs)) = 2 * length vs"
  by (induction vs) auto

lemma ext_body_small: "ext_ok x \<Longrightarrow> length (ext_body x) < 65536"
  by (cases x) (auto simp: length_concat_be16 simp del: length_concat)

lemma parse_extensions_step:
  assumes "ext_ok x" "n + length (ext_wire x) \<le> l"
  shows "parse_extensions l n (rd_at pre (ext_wire x @ rest)) a =
    parse_extensions l (n + length (ext_wire x)) (rd_at (pre @ ext_wire x) rest) (ext_upd x a)"
proof -
  have len: "n + length (ext_wire x) = n + 4 + length (ext_body x)" by (simp add: ext_wire_def)
  with assms have "n < l" "\<not> l < n + 4 + length (ext_body x)" by simp_all
  then show ?thesis
    unfolding len using assms(1) ext_body_small [OF assms(1)]
    by (subst parse_extensions.simps) (simp add: ext_wire_def parse_extension_spec)
qed

lemma parse_extensions_stop: "l \<le> n \<Longrightarrow> parse_extensions l n r a = Inr (a, r)"
  by (subst parse_extensions.simps) simp

interpretation extensions: item_loop parse_extensions ext_wire ext_upd ext_ok
  by unfold_locales (rule parse_extensions_stop parse_extensions_step, assumption+)+

lemma length_hello_body:
  "length (hello_body h) = length (h_version h) + length (h_random h) + length (h_sid h) +
     length (h_ciphers h) + length (h_comp h) + length (concat (map ext_wire (h_exts h))) + 6"
  by (simp add: hello_body_def del: length_concat)

lemma parse_record_header_wire:
  assumes "hello_ok h"
  shows "\<exists>pre. parse_record_header (reader_new (hello_wire h)) = Inr (rd_at pre (hello_body h))"
proof -
  have "\<not> 3 < h_minor h" "length (hello_body h) < 2 ^ 24" "4 + length (hello_body h) < 65536"
    using assms by (auto simp: hello_ok_def)
  then show ?thesis
    by (simp add: parse_record_header_def hello_wire_def reader_new_at index_def proto_defs
        del: of_nat_add) blast
qed

lemma parse_hello_wire:
  assumes "hello_ok h"
  shows "parse_client_hello (hello_wire h) = hello_result h"
proof -
  let ?x = "concat (map ext_wire (h_exts h))"
  have ok: "length (h_version h) = 2" "length (h_random h) = 32" "length (h_sid h) \<le> 32"
    "even (length (h_ciphers h))" "length (h_comp h) < 256" "\<forall>x \<in> set (h_exts h). ext_ok x"
    "length (h_ciphers h) < 65536" "length ?x < 65536"
    using assms length_hello_body [of h] by (simp_all add: hello_ok_def del: length_concat)
  have run: "parse_extensions (length ?x) 0 (rd_at pre ?x) a = Inr (fold ext_upd (h_exts h) a, rd_at (pre @ ?x) [])"
    for pre a
    using extensions.run [OF ok(6), of "length ?x" 0 pre "[]" a] by simp
  obtain pre where pre: "parse_record_header (reader_new (hello_wire h)) = Inr (rd_at pre (hello_body h))"
    using parse_record_header_wire [OF assms] by blast
  show ?thesis
    using ok
    by (simp add: parse_client_hello_def pre hello_body_def run hello_result_def Let_def MAX_SESSION_ID_LEN_def
        even_iff_mod_2_eq_zero ok_or_def del: length_concat split: option.split)
qed

section \<open>The builder\<close>

lemma push_extension_wire:
  "push_extension out (ext_type x) (ext_body x) = out @ ext_wire x"
  by (simp add: push_extension_def push_u16_def ext_wire_def)

lemma push_opaque: "push_extension out ty d = out @ ext_wire (Opaque ty d)"
  using push_extension_wire [of out "Opaque ty d"] by simp

lemma push_sni: "push_server_name sni out =
    out @ concat (map ext_wire (case sni of Some h \<Rightarrow> [ServerName h] | None \<Rightarrow> []))"
  using push_extension_wire [of out "ServerName h" for h]
  by (simp add: push_server_name_def push_u16_def split: option.split)

lemma push_key_share:
  "length eph = 32 \<Longrightarrow> push_extension out EXT_KEY_SHARE (build_key_share eph) = out @ ext_wire (KeyShares [(GROUP_X25519, eph)])"
  using push_extension_wire [of out "KeyShares [(GROUP_X25519, eph)]"]
  by (simp add: build_key_share_def push_u16_def share_wire_def X25519_PK_LEN_def)

lemma bytes_of_grease: "hi8 0x0a0a = 10" "lo8 0x0a0a = 10" "hi8 2 = 0" "lo8 2 = 2"
  by (simp_all add: hi8_def lo8_def)

lemma be16_versions: "concat (map to_be16 [0x0a0a, 0x0304, 0x0303]) = [10, 10, 3, 4, 3, 3]"
  by (simp add: to_be16_conv)

lemma push_versions:
  "push_extension out EXT_SUPPORTED_VERSIONS [0x06, hi8 GREASE_VERSION, lo8 GREASE_VERSION, 0x03, 0x04, 0x03, 0x03] =
     out @ ext_wire (Versions [GREASE_VERSION, 0x0304, 0x0303])"
  using push_extension_wire [of out "Versions [GREASE_VERSION, 0x0304, 0x0303]"] be16_versions
  by (simp add: GREASE_VERSION_def bytes_of_grease)

lemma build_extensions_wire:
  "length eph = 32 \<Longrightarrow> build_extensions sni eph = concat (map ext_wire (chrome_exts sni eph))"
  by (simp add: build_extensions_def Let_def push_versions push_key_share push_sni chrome_exts_def
      CERT_COMPRESSION_BROTLI_def bytes_of_grease)
     (simp add: push_opaque)

lemma length_ext_wire [simp]: "length (ext_wire x) = 4 + length (ext_body x)"
  by (simp add: ext_wire_def)

lemma fixed_lengths: "length build_groups = 10" "length build_alpn = 14" "length sig_algs = 18" "length cipher_suites = 32"
  by (simp_all add: build_groups_def build_alpn_def sig_algs_def cipher_suites_def push_u16_def ALPN_H2_def ALPN_HTTP11_def)

text \<open>The block before padding: 210 bytes, plus the server name extension.\<close>

lemma length_build_extensions:
  "length eph = 32 \<Longrightarrow> length (build_extensions sni eph) = 210 + (case sni of Some h \<Rightarrow> 9 + length h | None \<Rightarrow> 0)"
  by (simp add: build_extensions_wire chrome_exts_def fixed_lengths split: option.split)

lemma push_padding_wire:
  assumes "length eph = 32"
  shows "push_padding sni (build_extensions sni eph) =
    (if sni_141 sni then Inl Panic
     else Inr (concat (map ext_wire (h_exts (chrome_hello sni eph random sid (pad_for sni))))))"
  unfolding push_padding_def length_build_extensions [OF assms]
  by (simp add: build_extensions_wire assms chrome_hello_def push_opaque sni_141_def pad_for_def sni_len_def
      split: option.split)
     (auto simp: Let_def build_extensions_wire assms)

lemma build_body_wire:
  "build_body random sid (concat (map ext_wire (h_exts (chrome_hello sni eph random sid p)))) =
     hello_body (chrome_hello sni eph random sid p)"
  by (simp add: build_body_def hello_body_def push_u16_def chrome_hello_def)

lemma build_record_wire:
  "length (hello_body h) \<le> 0xFFFFFF \<Longrightarrow> h_minor h = 1 \<Longrightarrow> build_record (hello_body h) = Inr (hello_wire h)"
  by (simp add: build_record_def push_u24_def push_u16_def hello_wire_def be_bytes_numeral)

lemma length_chrome_body:
  assumes "length eph = 32"
  shows "length (hello_body (chrome_hello sni eph random sid p)) =
    251 + length random + length sid + (case sni of Some h \<Rightarrow> 9 + length h | None \<Rightarrow> 0) + (if 0 < p then 4 + p else 0)"
proof -
  have "length (concat (map ext_wire (chrome_exts sni eph))) = 210 + (case sni of Some h \<Rightarrow> 9 + length h | None \<Rightarrow> 0)"
    using length_build_extensions [OF assms] build_extensions_wire [OF assms] by metis
  then show ?thesis
    unfolding length_hello_body by (simp add: chrome_hello_def fixed_lengths del: length_concat)
qed

lemma build_wire:
  assumes "length eph = 32" "length random = 32" "length sid \<le> 32" "sni_fits sni"
  shows "build_client_hello sni eph random sid =
    (if sni_141 sni then Inl Panic else Inr (hello_wire (chrome_hello sni eph random sid (pad_for sni))))"
proof -
  let ?h = "chrome_hello sni eph random sid (pad_for sni)"
  have "length (hello_body ?h) \<le> 0xFFFFFF"
    using assms by (auto simp: length_chrome_body sni_fits_def pad_for_def split: option.splits)
  then have *: "build_record (hello_body ?h) = Inr (hello_wire ?h)"
    by (intro build_record_wire) (simp_all add: chrome_hello_def)
  from assms show ?thesis
    unfolding build_client_hello_def push_padding_wire [OF assms(1), of sni random sid]
    by (simp add: * build_body_wire MAX_SESSION_ID_LEN_def del: map_append concat_append)
qed

lemma chrome_wire_split:
  fixes sni :: "bytes option" and p :: nat
  assumes "length random = 32" "length sid = 32" "length eph = 32"
  defines "z \<equiv> chrome_hello sni eph random (replicate 32 0) p"
  shows "hello_wire (chrome_hello sni eph random sid p) = before_sid z @ sid @ after_sid z" "length (before_sid z) = 44"
proof -
  have "length (hello_body (chrome_hello sni eph random sid p)) = length (hello_body z)"
    using assms by (simp add: length_chrome_body)
  then show "hello_wire (chrome_hello sni eph random sid p) = before_sid z @ sid @ after_sid z"
    using assms(2) unfolding hello_wire_def before_sid_def after_sid_def
    by (simp add: z_def) (simp add: hello_body_def chrome_hello_def del: length_concat)
qed (use assms in \<open>simp add: before_sid_def chrome_hello_def\<close>)

lemma chrome_hello_ok:
  assumes "length eph = 32" "length random = 32" "length sid \<le> 32" "sni_fits sni"
    "\<forall>h. sni = Some h \<longrightarrow> utf8_valid h"
  shows "hello_ok (chrome_hello sni eph random sid (pad_for sni))"
proof -
  have "4 + length (hello_body (chrome_hello sni eph random sid (pad_for sni))) < 65536"
    using assms by (auto simp: length_chrome_body sni_fits_def pad_for_def split: option.splits)
  moreover have "\<forall>x \<in> set (chrome_exts sni eph). ext_ok x"
    using assms by (auto simp: chrome_exts_def fixed_lengths sni_fits_def proto_defs split: option.splits)
  moreover have "pad_for sni \<le> 298"
    by (cases sni) (simp_all add: pad_for_def)
  ultimately show ?thesis
    using assms by (auto simp: hello_ok_def chrome_hello_def fixed_lengths proto_defs)
qed

lemma chrome_hello_result:
  "length eph = 32 \<Longrightarrow> hello_result (chrome_hello sni eph random sid p) =
     Inr \<lparr>ch_sni = sni, ch_random = random, ch_session_id = sid, ch_ephemeral_public = eph, tls13_negotiable = True\<rparr>"
  by (simp add: hello_result_def chrome_hello_def chrome_exts_def share_upd_def X25519_PK_LEN_def split: option.split)

section \<open>Safety\<close>

lemma parse_shares_safe:
  "reader_ok er \<Longrightarrow> (\<forall>k. eph = Some k \<longrightarrow> length k = 32) \<Longrightarrow>
     safe (parse_shares l n er eph) (\<lambda>(eph, er). reader_ok er \<and> (\<forall>k. eph = Some k \<longrightarrow> length k = 32))"
proof (induction l n er eph rule: parse_shares.induct)
  case (1 l n er eph)
  show ?case
    using "1.prems" by (subst parse_shares.simps) (intro safe_intros "1.IH"; (assumption | rule refl | auto simp: X25519_PK_LEN_def))
qed

lemma parse_versions_safe:
  "reader_ok er \<Longrightarrow> safe (parse_versions n er b) (\<lambda>(b, er). reader_ok er)"
  by (induction n er b rule: parse_versions.induct) (auto intro!: safe_intros)

lemma parse_server_name_safe: "reader_ok er \<Longrightarrow> safe (parse_server_name er) utf8_valid"
  unfolding parse_server_name_def by (intro safe_intros) auto

lemma parse_extension_safe:
  assumes "acc_ok a"
  shows "safe (parse_extension ty body a) acc_ok"
proof -
  have key: "safe (rbind (parse_shares l 0 er (acc_eph a)) (\<lambda>(eph, er).
      if \<not> exhausted er then Inl (Err LengthMismatch) else Inr (a\<lparr>acc_eph := eph\<rparr>))) acc_ok" if "reader_ok er" for l er
    using assms that by (intro safe_rbind [OF parse_shares_safe]) (auto simp: acc_ok_def)
  have ver: "safe (rbind (parse_versions n er (acc_tls13 a)) (\<lambda>(tls13, er).
      if \<not> exhausted er then Inl (Err LengthMismatch) else Inr (a\<lparr>acc_tls13 := tls13\<rparr>))) acc_ok" if "reader_ok er" for n er
    using assms that by (intro safe_rbind [OF parse_versions_safe]) (auto simp: acc_ok_def)
  have name: "safe (rbind (parse_server_name er) (\<lambda>name. Inr (a\<lparr>acc_sni := Some name\<rparr>))) acc_ok" if "reader_ok er" for er
    using assms that by (intro safe_rbind [OF parse_server_name_safe]) (auto simp: acc_ok_def)
  show ?thesis
    unfolding parse_extension_def using assms by (intro safe_intros key ver name) auto
qed

lemma parse_extensions_safe:
  "reader_ok r \<Longrightarrow> acc_ok a \<Longrightarrow> safe (parse_extensions l n r a) (\<lambda>(a, r). reader_ok r \<and> acc_ok a)"
proof (induction l n r a rule: parse_extensions.induct)
  case (1 l n r a)
  show ?case
    using "1.prems"
    by (subst parse_extensions.simps)
       (intro safe_intros safe_rbind [OF parse_extension_safe] "1.IH"; (assumption | rule refl | simp))
qed

lemma parse_record_header_safe: "reader_ok r \<Longrightarrow> safe (parse_record_header r) reader_ok"
  unfolding parse_record_header_def by (intro safe_intros) auto

lemma parse_client_hello_safe: "safe (parse_client_hello wire) parsed_ok"
proof -
  have ext: "safe (rbind (parse_extensions l 0 r \<lparr>acc_sni = None, acc_eph = None, acc_tls13 = False\<rparr>) (\<lambda>(a, r).
      if \<not> exhausted r then Inl (Err TrailingBytes)
      else rbind (ok_or NoX25519KeyShare (acc_eph a)) (\<lambda>eph.
        Inr \<lparr>ch_sni = acc_sni a, ch_random = random, ch_session_id = sid,
             ch_ephemeral_public = eph, tls13_negotiable = acc_tls13 a\<rparr>))) parsed_ok"
    if "reader_ok r" "length random = 32" "length sid \<le> 32" for l r random sid
  proof (rule safe_rbind [OF parse_extensions_safe])
    fix x assume "case x of (a, r) \<Rightarrow> reader_ok r \<and> acc_ok a"
    with that show "safe (case x of (a, r) \<Rightarrow> if \<not> exhausted r then Inl (Err TrailingBytes)
      else rbind (ok_or NoX25519KeyShare (acc_eph a)) (\<lambda>eph.
        Inr \<lparr>ch_sni = acc_sni a, ch_random = random, ch_session_id = sid,
             ch_ephemeral_public = eph, tls13_negotiable = acc_tls13 a\<rparr>)) parsed_ok"
      by (cases "acc_eph (fst x)") (auto simp: parsed_ok_def acc_ok_def)
  qed (use that in \<open>simp_all add: acc_ok_def\<close>)
  show ?thesis
    unfolding parse_client_hello_def
    by (intro safe_rbind [OF parse_record_header_safe] safe_intros ext; simp add: MAX_SESSION_ID_LEN_def)
qed

section \<open>Properties\<close>

text \<open>C12. The parser implements the meaning of a ClientHello: every well-formed record, from any
  client, with any extensions in any order, is parsed to its random, its session id, the last
  server name, the first 32-byte x25519 share and whether TLS 1.3 is offered, or refused with
  \<open>NoX25519KeyShare\<close> when no such share is offered.\<close>

theorem client_hello_meaning:
  assumes "hello_ok h"
  shows "parse_client_hello (hello_wire h) = hello_result h"
  using assms by (rule parse_hello_wire)

theorem client_hello_meaning_witness:
  "parse_client_hello (hello_wire
     \<lparr>h_minor = 3, h_version = [3, 3], h_random = replicate 32 7, h_sid = [1], h_ciphers = [0x13, 1], h_comp = [0],
      h_exts = [KeyShares [(GROUP_SECP256R1, replicate 32 8), (GROUP_X25519, replicate 32 9)],
        ServerName [97], Opaque EXT_ALPN [1, 2, 3], ServerName [98]]\<rparr>) =
   Inr \<lparr>ch_sni = Some [98], ch_random = replicate 32 7, ch_session_id = [1],
        ch_ephemeral_public = replicate 32 9, tls13_negotiable = False\<rparr>"
  by (subst client_hello_meaning)
     (simp_all add: hello_ok_def length_hello_body hello_result_def share_upd_def proto_defs)

text \<open>A hello built for the server is read back: the builder's record parses to exactly the
  server name, ephemeral key, random and session id it was given, with TLS 1.3 offered.\<close>

theorem client_hello_round_trip:
  assumes "build_client_hello sni eph random sid = Inr rec" "length eph = 32" "length random = 32"
    "sni_fits sni" "\<forall>h. sni = Some h \<longrightarrow> utf8_valid h"
  shows "parse_client_hello rec =
    Inr \<lparr>ch_sni = sni, ch_random = random, ch_session_id = sid, ch_ephemeral_public = eph, tls13_negotiable = True\<rparr>"
proof -
  from assms(1) have sid: "length sid \<le> 32"
    by (auto simp: build_client_hello_def MAX_SESSION_ID_LEN_def split: if_splits)
  with assms have "rec = hello_wire (chrome_hello sni eph random sid (pad_for sni))"
    by (auto simp: build_wire split: if_splits)
  with sid assms show ?thesis
    by (simp add: parse_hello_wire chrome_hello_ok chrome_hello_result)
qed

theorem client_hello_round_trip_witness:
  "\<exists>rec. build_client_hello (Some [97, 46, 98]) (replicate 32 1) (replicate 32 2) [3] = Inr rec \<and>
    parse_client_hello rec = Inr \<lparr>ch_sni = Some [97, 46, 98], ch_random = replicate 32 2,
      ch_session_id = [3], ch_ephemeral_public = replicate 32 1, tls13_negotiable = True\<rparr>"
proof -
  obtain rec where "build_client_hello (Some [97, 46, 98]) (replicate 32 1) (replicate 32 2) [3] = Inr rec"
    by (simp add: build_wire sni_fits_def sni_141_def)
  with client_hello_round_trip [OF this] show ?thesis
    by (simp add: sni_fits_def)
qed

text \<open>The parser is safe on hostile records: on no input does it panic, and an accepted hello
  always has a 32-byte random, at most 32 bytes of session id, a 32-byte key and a server name
  that is valid UTF-8.\<close>

theorem client_hello_parse_safe:
  "parse_client_hello wire \<noteq> Inl Panic \<and> (\<forall>p. parse_client_hello wire = Inr p \<longrightarrow> parsed_ok p)"
  using parse_client_hello_safe [of wire] by (auto dest: safe_not_Panic safeD)

theorem client_hello_parse_safe_witness:
  "parsed_ok \<lparr>ch_sni = None, ch_random = replicate 32 2,
      ch_session_id = [3], ch_ephemeral_public = replicate 32 1, tls13_negotiable = True\<rparr>"
proof -
  have "parse_client_hello (hello_wire (chrome_hello None (replicate 32 1) (replicate 32 2) [3] (pad_for None))) =
    Inr \<lparr>ch_sni = None, ch_random = replicate 32 2,
      ch_session_id = [3], ch_ephemeral_public = replicate 32 1, tls13_negotiable = True\<rparr>"
    by (simp add: parse_hello_wire chrome_hello_ok chrome_hello_result sni_fits_def)
  then show ?thesis
    using client_hello_parse_safe by blast
qed

text \<open>The builder succeeds on every session id of at most 32 bytes and every server name,
  except that a server name of exactly 141 bytes makes the padding computation underflow.\<close>

theorem client_hello_build_total:
  assumes "length eph = 32" "length random = 32" "sni_fits sni"
  shows "build_client_hello sni eph random sid =
    (if 32 < length sid then Inl (Err ShortIdTooLong)
     else if (\<exists>h. sni = Some h \<and> length h = 141) then Inl Panic
     else Inr (hello_wire (chrome_hello sni eph random sid (pad_for sni))))"
proof (cases "32 < length sid")
  case True
  then show ?thesis
    by (simp add: build_client_hello_def MAX_SESSION_ID_LEN_def)
next
  case False
  with build_wire [OF assms(1,2) _ assms(3)] show ?thesis
    by (auto simp: sni_141_def split: option.splits)
qed

theorem client_hello_build_total_witness:
  "build_client_hello (Some (replicate 141 97)) (replicate 32 1) (replicate 32 2) [3] = Inl Panic"
  by (subst client_hello_build_total) (simp_all add: sni_fits_def)

text \<open>The session id sits at \<open>SESSION_ID_OFFSET\<close>: a hello with a 32-byte session id is the
  hello with an all-zero id in which exactly the bytes 44 to 75 are replaced, which is what
  lets the Reality layer authenticate the zeroed record and then patch the seal in.\<close>

theorem session_id_slot:
  assumes "build_client_hello sni eph random sid = Inr rec" "length eph = 32" "length random = 32"
    "length sid = 32" "sni_fits sni"
  shows "\<exists>zeroed. build_client_hello sni eph random (replicate 32 0) = Inr zeroed \<and>
    take SESSION_ID_OFFSET rec = take SESSION_ID_OFFSET zeroed \<and>
    take 32 (drop SESSION_ID_OFFSET rec) = sid \<and>
    drop (SESSION_ID_OFFSET + 32) rec = drop (SESSION_ID_OFFSET + 32) zeroed \<and>
    rec = take SESSION_ID_OFFSET zeroed @ sid @ drop (SESSION_ID_OFFSET + 32) zeroed"
proof -
  let ?z = "chrome_hello sni eph random (replicate 32 0) (pad_for sni)"
  have s: "hello_wire (chrome_hello sni eph random sid (pad_for sni)) = before_sid ?z @ sid @ after_sid ?z"
    "hello_wire ?z = before_sid ?z @ replicate 32 0 @ after_sid ?z" "length (before_sid ?z) = 44"
    using assms by (auto intro!: chrome_wire_split)
  from assms have "rec = before_sid ?z @ sid @ after_sid ?z"
    "build_client_hello sni eph random (replicate 32 0) = Inr (before_sid ?z @ replicate 32 0 @ after_sid ?z)"
    by (auto simp: build_wire s split: if_splits)
  then show ?thesis
    using s(3) assms(4) by (simp add: SESSION_ID_OFFSET_def)
qed

theorem session_id_slot_witness:
  "\<exists>rec. build_client_hello None (replicate 32 1) (replicate 32 2) (replicate 32 9) = Inr rec \<and>
    take 32 (drop SESSION_ID_OFFSET rec) = replicate 32 9"
proof -
  obtain rec where "build_client_hello None (replicate 32 1) (replicate 32 2) (replicate 32 9) = Inr rec"
    by (simp add: build_wire sni_fits_def sni_141_def)
  with session_id_slot [OF this] show ?thesis
    by (auto simp: sni_fits_def)
qed

end
