(* ===== verification/Reality.thy ===== *)
theory Reality
  imports Crypto Tls
begin

text \<open>
  \<open>native/src/reality.rs\<close>: the REALITY key, the sealed session id and the temporary trusted
  certificate.  Random secrets (\<open>StaticSecret::random_from_rng\<close>) are arguments.
\<close>

definition REALITY_INFO :: bytes where [proto_defs]: "REALITY_INFO = ascii ''REALITY''"
definition SID_VERSION_LEN :: nat where [proto_defs]: "SID_VERSION_LEN = 3"
definition SID_RESERVED_LEN :: nat where [proto_defs]: "SID_RESERVED_LEN = 1"
definition SID_TIME_LEN :: nat where [proto_defs]: "SID_TIME_LEN = 4"
definition SID_SHORT_ID_LEN :: nat where [proto_defs]: "SID_SHORT_ID_LEN = 8"
definition SID_PLAIN_LEN :: nat where
  [proto_defs]: "SID_PLAIN_LEN = SID_VERSION_LEN + SID_RESERVED_LEN + SID_TIME_LEN + SID_SHORT_ID_LEN"
definition SID_WIRE_OFFSET :: nat where [proto_defs]: "SID_WIRE_OFFSET = SESSION_ID_OFFSET"
definition SID_WIRE_LEN :: nat where [proto_defs]: "SID_WIRE_LEN = 32"
definition RANDOM_SALT_LEN :: nat where [proto_defs]: "RANDOM_SALT_LEN = 20"
definition RANDOM_NONCE_LEN :: nat where [proto_defs]: "RANDOM_NONCE_LEN = 12"

datatype reality_error = SidShortIdTooLong | SessionIdRejected | CertRejected | SidLayout

record session_id_plain =
  client_version :: bytes
  unix_time :: u32
  short_id :: bytes

definition auth_key :: "crypto \<Rightarrow> bytes \<Rightarrow> bytes \<Rightarrow> bytes" where
  "auth_key c shared_secret random =
     hkdf_sha256 c (take RANDOM_SALT_LEN random) shared_secret REALITY_INFO 32"

definition sid_nonce :: "bytes \<Rightarrow> bytes" where
  "sid_nonce random = take RANDOM_NONCE_LEN (drop RANDOM_SALT_LEN random)"

definition sid_plain :: "bytes \<Rightarrow> u32 \<Rightarrow> bytes \<Rightarrow> bytes" where
  "sid_plain version time sid =
     (let plain = replicate SID_PLAIN_LEN 0;
          plain = copy_into 0 version plain;
          plain = copy_into 4 (be_bytes 4 (unat time)) plain
      in copy_into 8 sid plain)"

definition seal_session_id ::
    "crypto \<Rightarrow> bytes \<Rightarrow> bytes \<Rightarrow> bytes \<Rightarrow> bytes \<Rightarrow> u32 \<Rightarrow> bytes \<Rightarrow> (reality_error, bytes) result" where
  "seal_session_id c aead_key random hello_with_zeroed_sid version time sid =
     (if SID_SHORT_ID_LEN < length sid then Inl (Err SidShortIdTooLong)
      else if length hello_with_zeroed_sid < SID_WIRE_OFFSET + SID_WIRE_LEN then Inl (Err SidLayout)
      else case aes256_encrypt c aead_key (sid_nonce random) (sid_plain version time sid) hello_with_zeroed_sid of
             None \<Rightarrow> Inl (Err SessionIdRejected)
           | Some sealed \<Rightarrow> if length sealed = SID_WIRE_LEN then Inr sealed else Inl Panic)"

definition unseal_session_id ::
    "crypto \<Rightarrow> bytes \<Rightarrow> bytes \<Rightarrow> bytes \<Rightarrow> bytes \<Rightarrow> (reality_error, session_id_plain) result" where
  "unseal_session_id c aead_key random hello_with_zeroed_sid session_id =
     (if length hello_with_zeroed_sid < SID_WIRE_OFFSET + SID_WIRE_LEN then Inl (Err SidLayout)
      else case aes256_decrypt c aead_key (sid_nonce random) session_id hello_with_zeroed_sid of
             None \<Rightarrow> Inl (Err SessionIdRejected)
           | Some plain \<Rightarrow>
               if length plain = SID_PLAIN_LEN
               then Inr \<lparr>client_version = [plain ! 0, plain ! 1, plain ! 2],
                         unix_time = word_of_nat (be_val [plain ! 4, plain ! 5, plain ! 6, plain ! 7]),
                         short_id = [plain ! 8, plain ! 9, plain ! 10, plain ! 11,
                                     plain ! 12, plain ! 13, plain ! 14, plain ! 15]\<rparr>
               else Inl (Err SidLayout))"

definition temporary_certificate :: "crypto \<Rightarrow> bytes \<Rightarrow> bytes \<Rightarrow> bytes" where
  "temporary_certificate c auth_key_bytes signing =
     (let verifying = x25519_base c signing;
          tag = hmac_sha512 c auth_key_bytes verifying;
          out = replicate 96 0;
          out = copy_into 0 verifying out
      in copy_into 32 tag out)"

definition verify_temporary_certificate :: "crypto \<Rightarrow> bytes \<Rightarrow> bytes \<Rightarrow> (reality_error, unit) result" where
  "verify_temporary_certificate c auth_key_bytes certificate =
     (if length certificate \<noteq> 96 then Inl (Err CertRejected)
      else let pub_bytes = take 32 certificate;
               sig = drop 32 certificate;
               ok = foldl (\<lambda>ok (a, b). ok \<and> a = b) True (zip (hmac_sha512 c auth_key_bytes pub_bytes) sig)
        in if ok then Inr () else Inl (Err CertRejected))"

record server_ephemeral =
  se_secret :: bytes
  se_public :: bytes

definition server_ephemeral_generate :: "crypto \<Rightarrow> bytes \<Rightarrow> server_ephemeral" where
  "server_ephemeral_generate c secret = \<lparr>se_secret = secret, se_public = x25519_base c secret\<rparr>"

definition shared_secret :: "crypto \<Rightarrow> server_ephemeral \<Rightarrow> bytes \<Rightarrow> bytes" where
  "shared_secret c se client_ephemeral = x25519 c (se_secret se) client_ephemeral"

definition session_identity :: "crypto \<Rightarrow> bytes \<Rightarrow> bytes \<Rightarrow> bytes" where
  "session_identity c session_id secret = sha256 c (session_id @ secret)"

text \<open>The layout of the plaintext, with the reserved byte that \<open>unseal_session_id\<close> ignores.\<close>

definition sid_layout :: "bytes \<Rightarrow> byte \<Rightarrow> u32 \<Rightarrow> bytes \<Rightarrow> bytes" where
  "sid_layout version reserved time sid = version @ [reserved] @ be_bytes 4 (unat time) @ sid"

definition pad_short_id :: "bytes \<Rightarrow> bytes" where
  "pad_short_id sid = sid @ replicate (8 - length sid) 0"

section \<open>Lemmas\<close>

lemma sid_plain_layout:
  assumes "length version = 3" "length sid \<le> 8"
  shows "sid_plain version time sid = sid_layout version 0 time (pad_short_id sid)"
proof -
  have "copy_into 0 version (replicate 16 0) = version @ replicate 13 0"
    using copy_into_zeros [of 0 "[]" 0 version 16] assms(1) by simp
  moreover have "copy_into 4 (be_bytes 4 n) (version @ replicate 13 0) = (version @ [0] @ be_bytes 4 n) @ replicate 8 0" for n
    using copy_into_zeros [of 4 version 1 "be_bytes 4 n" 13] assms(1) by simp
  moreover have "copy_into 8 sid ((version @ [0] @ be_bytes 4 n) @ replicate 8 0) =
      (version @ [0] @ be_bytes 4 n) @ sid @ replicate (8 - length sid) 0" for n
    using copy_into_zeros [of 8 "version @ [0] @ be_bytes 4 n" 0 sid 8] assms by simp
  ultimately show ?thesis
    by (simp add: sid_plain_def sid_layout_def pad_short_id_def proto_defs Let_def del: append_assoc)
qed

lemma nth_eq_take_drop:
  "k + 3 \<le> length xs \<Longrightarrow> [xs ! k, xs ! (k + 1), xs ! (k + 2)] = take 3 (drop k xs)"
  "k + 4 \<le> length xs \<Longrightarrow> [xs ! k, xs ! (k + 1), xs ! (k + 2), xs ! (k + 3)] = take 4 (drop k xs)"
  by (auto intro!: nth_equalityI simp: less_Suc_eq numeral_eq_Suc)

lemma sid_fields:
  assumes "length p = 16"
  shows "[p ! 0, p ! 1, p ! 2] = take 3 p" "[p ! 4, p ! 5, p ! 6, p ! 7] = take 4 (drop 4 p)"
    "[p ! 8, p ! 9, p ! 10, p ! 11, p ! 12, p ! 13, p ! 14, p ! 15] = drop 8 p"
proof -
  show "[p ! 0, p ! 1, p ! 2] = take 3 p" "[p ! 4, p ! 5, p ! 6, p ! 7] = take 4 (drop 4 p)"
    using nth_eq_take_drop [of 0 p] nth_eq_take_drop [of 4 p] assms by (simp_all add: numeral_2_eq_2)
  have "drop 8 p = take 4 (drop 8 p) @ take 4 (drop 12 p)"
    using assms append_take_drop_id [of 4 "drop 8 p"] by simp
  then show "[p ! 8, p ! 9, p ! 10, p ! 11, p ! 12, p ! 13, p ! 14, p ! 15] = drop 8 p"
    using nth_eq_take_drop(2) [of 8 p] nth_eq_take_drop(2) [of 12 p] assms
    by simp (metis append_Cons append_Nil)
qed

text \<open>What \<open>unseal_session_id\<close> returns of a decrypted plaintext.\<close>

lemma unseal_spec:
  "unseal_session_id c k r h s = Inr v \<longleftrightarrow>
     76 \<le> length h \<and> (\<exists>p. aes256_decrypt c k (sid_nonce r) s h = Some p \<and> length p = 16 \<and>
       v = \<lparr>client_version = take 3 p, unix_time = word_of_nat (be_val (take 4 (drop 4 p))), short_id = drop 8 p\<rparr>)"
  by (auto simp: unseal_session_id_def proto_defs sid_fields [simplified] sid_fields
      split: option.splits if_splits)

lemma fold_all_eq: "foldl (\<lambda>ok (a, b). ok \<and> a = b) b0 ps \<longleftrightarrow> b0 \<and> (\<forall>(a, b) \<in> set ps. a = b)"
  by (induction ps arbitrary: b0) auto

lemma zip_all_eq: "length xs = length ys \<Longrightarrow> (\<forall>(a, b) \<in> set (zip xs ys). a = b) \<longleftrightarrow> xs = ys"
  by (induction xs ys rule: list_induct2) auto

lemma verify_spec:
  assumes "digest_lengths c"
  shows "verify_temporary_certificate c k cert = Inr () \<longleftrightarrow>
    length cert = 96 \<and> drop 32 cert = hmac_sha512 c k (take 32 cert)"
  using assms zip_all_eq [of "hmac_sha512 c k (take 32 cert)" "drop 32 cert"]
  unfolding verify_temporary_certificate_def fold_all_eq by (auto simp: Let_def)

lemma temporary_certificate_wire:
  assumes "digest_lengths c"
  shows "temporary_certificate c k s = x25519_base c s @ hmac_sha512 c k (x25519_base c s)"
  using assms copy_into_zeros [of 0 "[]" 0 "x25519_base c s" 96]
    copy_into_zeros [of 32 "x25519_base c s" 0 "hmac_sha512 c k (x25519_base c s)" 64]
  by (simp add: temporary_certificate_def Let_def)

lemma seal_unseal:
  assumes "aead_exact c" "seal_session_id c k r h version time sid = Inr s" "length version = 3"
  shows "length s = 32 \<and> unseal_session_id c k r h s =
    Inr \<lparr>client_version = version, unix_time = time, short_id = pad_short_id sid\<rparr>"
proof -
  let ?p = "sid_plain version time sid"
  have sid: "length sid \<le> 8" and h: "76 \<le> length h" and s: "length s = 32"
    and enc: "aes256_encrypt c k (sid_nonce r) ?p h = Some s"
    using assms(2) by (auto simp: seal_session_id_def proto_defs split: if_splits option.splits)
  have p: "?p = version @ [0] @ be_bytes 4 (unat time) @ pad_short_id sid"
    using sid_plain_layout [OF assms(3) sid] by (simp add: sid_layout_def)
  have "length ?p = 16"
    using sid assms(3) by (simp add: p pad_short_id_def)
  moreover from this have "aes256_decrypt c k (sid_nonce r) s h = Some ?p"
    using enc by (intro decrypt_encrypt [OF assms(1)]) simp_all
  moreover have "unat time < 256 ^ 4"
    using unsigned_less [of time] by simp
  ultimately show ?thesis
    unfolding unseal_spec using h s assms(3) by (auto simp: p)
qed

lemma seal_succeeds:
  assumes "aead_exact c" "length sid \<le> 8" "76 \<le> length h" "length version = 3"
  shows "\<exists>s. seal_session_id c k r h version time sid = Inr s"
proof -
  have "length (sid_plain version time sid) = 16"
    using assms by (simp add: sid_plain_layout sid_layout_def pad_short_id_def)
  then obtain s where "aes256_encrypt c k (sid_nonce r) (sid_plain version time sid) h = Some s" "length s = 32"
    using encrypt_some [OF assms(1), of "sid_plain version time sid" k "sid_nonce r" h] by auto
  with assms show ?thesis
    by (simp add: seal_session_id_def proto_defs)
qed

section \<open>Properties\<close>

text \<open>C24. The sealed session id round-trips: for a short id of at most 8 bytes and a hello long
  enough to hold the slot, sealing succeeds with 32 bytes, and the server that opens them with the
  same key, random and zeroed hello gets back the client version, the time and the short id padded
  with zeros.\<close>

theorem session_id_round_trip:
  assumes "aead_exact c" "length sid \<le> 8" "76 \<le> length hello" "length version = 3"
  shows "\<exists>s. seal_session_id c key random hello version time sid = Inr s \<and> length s = 32 \<and>
    unseal_session_id c key random hello s =
      Inr \<lparr>client_version = version, unix_time = time, short_id = pad_short_id sid\<rparr>"
  using assms seal_succeeds [OF assms] seal_unseal [OF assms(1) _ assms(4)] by metis

theorem session_id_round_trip_witness:
  "\<exists>s. seal_session_id demo_crypto [1] (replicate 32 5) (replicate 80 0) [9, 9, 1] 77 [1, 2] = Inr s \<and> length s = 32 \<and>
    unseal_session_id demo_crypto [1] (replicate 32 5) (replicate 80 0) s =
      Inr \<lparr>client_version = [9, 9, 1], unix_time = 77, short_id = pad_short_id [1, 2]\<rparr>"
  using demo_crypto_ok by (intro session_id_round_trip) (simp_all add: crypto_ok_def)

text \<open>Only sealed session ids are accepted: whatever 32 bytes the server opens successfully are
  the AEAD encryption, under the same key, nonce and zeroed hello, of the very fields it returns
  (the reserved byte alone is not checked).\<close>

theorem session_id_authentic:
  assumes "aead_exact c" "unseal_session_id c key random hello s = Inr v"
  shows "\<exists>reserved. aes256_encrypt c key (sid_nonce random)
      (sid_layout (client_version v) reserved (unix_time v) (short_id v)) hello = Some s"
proof -
  from assms(2) obtain p where dec: "aes256_decrypt c key (sid_nonce random) s hello = Some p" and len: "length p = 16"
    and v: "v = \<lparr>client_version = take 3 p, unix_time = word_of_nat (be_val (take 4 (drop 4 p))), short_id = drop 8 p\<rparr>"
    by (auto simp: unseal_spec)
  let ?t = "take 4 (drop 4 p)"
  have t: "be_bytes 4 (unat (word_of_nat (be_val ?t) :: u32)) = ?t"
    using be_val_bound [of ?t] len be_bytes_be_val [of ?t 4] by (simp add: unat_of_nat)
  have "drop 3 p = p ! 3 # drop 4 p" "drop 4 p = ?t @ drop 8 p"
    using len Cons_nth_drop_Suc [of 3 p] append_take_drop_id [of 4 "drop 4 p"] by simp_all
  then have "p = take 3 p @ [p ! 3] @ ?t @ drop 8 p"
    using append_take_drop_id [of 3 p] by simp
  then have "p = sid_layout (client_version v) (p ! 3) (unix_time v) (short_id v)"
    by (simp add: v sid_layout_def t)
  with encrypt_decrypt [OF assms(1) _ dec] len show ?thesis
    by (intro exI [of _ "p ! 3"]) simp
qed

theorem session_id_authentic_witness:
  "\<exists>s reserved. seal_session_id demo_crypto [1] (replicate 32 5) (replicate 80 0) [9, 9, 1] 77 [1, 2] = Inr s \<and>
    aes256_encrypt demo_crypto [1] (sid_nonce (replicate 32 5))
      (sid_layout [9, 9, 1] reserved 77 (pad_short_id [1, 2])) (replicate 80 0) = Some s"
proof -
  have ok: "aead_exact demo_crypto"
    using demo_crypto_ok by (simp add: crypto_ok_def)
  obtain s where s: "seal_session_id demo_crypto [1] (replicate 32 5) (replicate 80 0) [9, 9, 1] 77 [1, 2] = Inr s"
    using seal_succeeds [OF ok, of "[1, 2]" "replicate 80 0" "[9, 9, 1]" "[1]" "replicate 32 5" 77] by auto
  from seal_unseal [OF ok s] session_id_authentic [OF ok, of "[1]" "replicate 32 5" "replicate 80 0" s] s show ?thesis
    by auto
qed

text \<open>The temporary certificate: the client's folded comparison accepts exactly the 96-byte
  strings whose last 64 bytes are the HMAC of the first 32 under the session key, and so accepts
  every certificate the server issues with that key.\<close>

theorem temporary_certificate_accepted:
  assumes "digest_lengths c"
  shows "(verify_temporary_certificate c key cert = Inr () \<longleftrightarrow>
      length cert = 96 \<and> drop 32 cert = hmac_sha512 c key (take 32 cert)) \<and>
    verify_temporary_certificate c key (temporary_certificate c key signing) = Inr ()"
  using assms by (simp add: verify_spec temporary_certificate_wire)

theorem temporary_certificate_accepted_witness:
  "verify_temporary_certificate demo_crypto [1] (temporary_certificate demo_crypto [1] [2]) = Inr () \<and>
   verify_temporary_certificate demo_crypto [1] (replicate 96 3) \<noteq> Inr ()"
proof -
  have "hd (drop 32 (replicate 96 (3 :: byte))) \<noteq> hd (hmac_sha512 demo_crypto [1] (take 32 (replicate 96 3)))"
    by (simp add: demo_crypto_def demo_fix_def)
  then show ?thesis
    using temporary_certificate_accepted [of demo_crypto "[1]" "replicate 96 3" "[2]"] demo_crypto_ok
    unfolding crypto_ok_def by metis
qed

end
