(* ===== verification/Handshake.thy ===== *)
theory Handshake
  imports Reality
begin

text \<open>
  \<open>native/src/handshake.rs\<close>: the client handshake state machine, the record layer and the nonce
  derivation.  \<open>OnceLock\<close> is an option that is set at most once, \<open>AtomicBool\<close> a bool (one thread
  runs the handshake); the ephemeral secret and the clock are arguments.  Methods that take
  \<open>&self\<close> and mutate through interior mutability return the new state, also on error.
\<close>

definition HKDF_SALT :: bytes where "HKDF_SALT = ascii ''shadevpn-reality-hkdf-salt-v1''"
definition KEY_INFO :: bytes where "KEY_INFO = ascii ''shadevpn-record-keys-v1''"
definition NONCE_DOMAIN_CLIENT :: bytes where "NONCE_DOMAIN_CLIENT = ascii ''shadevpn-nonce-client-v1''"
definition NONCE_DOMAIN_SERVER :: bytes where "NONCE_DOMAIN_SERVER = ascii ''shadevpn-nonce-server-v1''"
definition NONCE_PURPOSE_RESPONSE :: bytes where "NONCE_PURPOSE_RESPONSE = ascii ''shadevpn-purpose-response-v1''"
definition NONCE_PURPOSE_DATA :: bytes where "NONCE_PURPOSE_DATA = ascii ''shadevpn-purpose-data-v1''"
definition NONCE_LEN :: nat where [proto_defs]: "NONCE_LEN = 12"
definition TAG_LEN :: nat where [proto_defs]: "TAG_LEN = 16"
definition CLIENT_VERSION :: bytes where [proto_defs]: "CLIENT_VERSION = [0x53, 0x56, 0x01]"
definition CERT_LEN :: nat where [proto_defs]: "CERT_LEN = 96"
definition SERVER_SHARE_LEN :: nat where [proto_defs]: "SERVER_SHARE_LEN = 32"
definition SERVER_RESPONSE_MIN :: nat where
  [proto_defs]: "SERVER_RESPONSE_MIN = CERT_LEN + SERVER_SHARE_LEN + TAG_LEN"

record record_keys =
  send_key :: bytes
  recv_key :: bytes

datatype handshake_error = BadServerKey | BadShortId | SessionAuthRejected | SealFailed | EphemeralKeyFailed

record handshake_params =
  server_address :: bytes
  server_port :: u16
  hp_sni :: bytes
  server_public_key :: bytes
  hp_short_id :: bytes
  fingerprint :: "bytes option"

record handshake_state =
  ephemeral :: bytes
  ephemeral_public :: bytes
  hs_auth_key :: bytes
  wire_hello :: bytes
  sealed_session_id :: bytes
  hs_record_keys :: "record_keys option"
  completed :: bool

definition hkdf_expand :: "crypto \<Rightarrow> bytes \<Rightarrow> bytes \<Rightarrow> bytes \<Rightarrow> nat \<Rightarrow> bytes" where
  "hkdf_expand c salt ikm info out_len = hkdf_sha256 c salt ikm info out_len"

datatype direction = Client | Server

definition nonce_input :: "bytes \<Rightarrow> u64 \<Rightarrow> direction \<Rightarrow> bytes \<Rightarrow> bytes" where
  "nonce_input session_id seq dir purpose =
     (case dir of Client \<Rightarrow> NONCE_DOMAIN_CLIENT | Server \<Rightarrow> NONCE_DOMAIN_SERVER) @
     purpose @ session_id @ be_bytes 8 (unat seq)"

definition derive_nonce :: "crypto \<Rightarrow> bytes \<Rightarrow> u64 \<Rightarrow> direction \<Rightarrow> bytes \<Rightarrow> bytes" where
  "derive_nonce c session_id seq dir purpose = take NONCE_LEN (sha256 c (nonce_input session_id seq dir purpose))"

section \<open>The client state machine\<close>

definition initiate ::
    "crypto \<Rightarrow> bytes \<Rightarrow> u32 \<Rightarrow> handshake_params \<Rightarrow> (handshake_error, handshake_state) result" where
  "initiate c eph time params =
     (if hp_short_id params = [] \<or> SID_SHORT_ID_LEN < length (hp_short_id params) then Inl (Err BadShortId)
      else if server_public_key params = replicate 32 0 then Inl (Err BadServerKey)
      else let eph_public = x25519_base c eph;
               shared = x25519 c eph (server_public_key params)
        in if shared = replicate 32 0 then Inl (Err EphemeralKeyFailed)
           else let random = hkdf_expand c HKDF_SALT shared (ascii ''shadevpn-hello-random-v1'') 32;
                    key = auth_key c shared random
             in rbind (map_err_to SealFailed (build_client_hello (Some (hp_sni params)) eph_public random (replicate 32 0)))
                  (\<lambda>hello_zeroed.
                rbind (map_err_to SealFailed
                         (seal_session_id c key random hello_zeroed CLIENT_VERSION time (hp_short_id params)))
                  (\<lambda>sealed.
                if SESSION_ID_OFFSET + 32 \<le> length hello_zeroed
                then Inr \<lparr>ephemeral = eph, ephemeral_public = eph_public, hs_auth_key = key,
                          wire_hello = copy_into SESSION_ID_OFFSET sealed hello_zeroed,
                          sealed_session_id = sealed, hs_record_keys = None, completed = False\<rparr>
                else Inl Panic)))"

text \<open>\<open>complete\<close>; \<open>reject\<close> puts the completed flag back before the error is returned.\<close>

definition reject :: "handshake_state \<Rightarrow> (handshake_error, unit) result \<times> handshake_state" where
  "reject s = (Inl (Err SessionAuthRejected), s\<lparr>completed := False\<rparr>)"

definition derive_record_keys :: "crypto \<Rightarrow> bytes \<Rightarrow> bytes \<Rightarrow> record_keys" where
  "derive_record_keys c sid ecdhe =
     (let binding = session_identity c sid ecdhe;
          ks = hkdf_expand c HKDF_SALT binding KEY_INFO 64
      in \<lparr>send_key = take 32 ks, recv_key = drop 32 ks\<rparr>)"

definition complete ::
    "crypto \<Rightarrow> handshake_state \<Rightarrow> bytes \<Rightarrow> (handshake_error, unit) result \<times> handshake_state" where
  "complete c s server_response =
     (if completed s then (Inl (Err SessionAuthRejected), s)
      else let s = s\<lparr>completed := True\<rparr> in
        if length server_response < SERVER_RESPONSE_MIN then reject s
        else let certificate = take CERT_LEN server_response in
          if verify_temporary_certificate c (hs_auth_key s) certificate \<noteq> Inr () then reject s
          else let server_share = take SERVER_SHARE_LEN (drop CERT_LEN server_response);
                   ecdhe = x25519 c (ephemeral s) server_share
            in if ecdhe = replicate 32 0 then reject s
               else let keys = derive_record_keys c (sealed_session_id s) ecdhe
                 in if hs_record_keys s \<noteq> None then reject s
                    else let s = s\<lparr>hs_record_keys := Some keys\<rparr>;
                             nonce = derive_nonce c (sealed_session_id s) 0 Server NONCE_PURPOSE_RESPONSE
                      in if aes256_decrypt c (recv_key keys) nonce
                              (drop (CERT_LEN + SERVER_SHARE_LEN) server_response) [] = None
                         then reject s
                         else (Inr (), s))"

definition hs_keys :: "handshake_state \<Rightarrow> (handshake_error, record_keys) result" where
  "hs_keys s = ok_or SessionAuthRejected (hs_record_keys s)"

definition seal_record :: "crypto \<Rightarrow> handshake_state \<Rightarrow> u64 \<Rightarrow> bytes \<Rightarrow> (handshake_error, bytes) result" where
  "seal_record c s seq plaintext =
     rbind (hs_keys s) (\<lambda>keys.
       ok_or SealFailed (aes256_encrypt c (send_key keys)
         (derive_nonce c (sealed_session_id s) seq Client NONCE_PURPOSE_DATA) plaintext []))"

definition open_record :: "crypto \<Rightarrow> handshake_state \<Rightarrow> u64 \<Rightarrow> bytes \<Rightarrow> (handshake_error, bytes) result" where
  "open_record c s seq ciphertext =
     rbind (hs_keys s) (\<lambda>keys.
       ok_or SessionAuthRejected (aes256_decrypt c (recv_key keys)
         (derive_nonce c (sealed_session_id s) seq Server NONCE_PURPOSE_DATA) ciphertext []))"

record handshake_material =
  hm_server_address :: bytes
  hm_server_port :: u16
  hm_sni :: bytes
  server_public_key_b64 :: bytes
  short_id_hex :: bytes

text \<open>The decoders of the \<open>base64\<close> and \<open>hex\<close> crates are arguments.\<close>

definition into_params ::
    "(bytes \<Rightarrow> bytes option) \<Rightarrow> (bytes \<Rightarrow> bytes option) \<Rightarrow> (bytes \<Rightarrow> bytes option) \<Rightarrow>
     handshake_material \<Rightarrow> (handshake_error, handshake_params) result" where
  "into_params b64_url b64_std hex_decode m =
     rbind (ok_or BadServerKey
              (case b64_url (server_public_key_b64 m) of
                 Some bs \<Rightarrow> Some bs | None \<Rightarrow> b64_std (server_public_key_b64 m))) (\<lambda>pk_bytes.
       if length pk_bytes \<noteq> 32 then Inl (Err BadServerKey)
       else rbind (ok_or BadShortId (hex_decode (short_id_hex m))) (\<lambda>sid.
         if sid = [] then Inl (Err BadShortId)
         else Inr \<lparr>server_address = hm_server_address m, server_port = hm_server_port m, hp_sni = hm_sni m,
                   server_public_key = pk_bytes, hp_short_id = sid, fingerprint = None\<rparr>))"

text \<open>A state in which the client would accept a response but for its sealed confirmation.\<close>

definition cert_checks :: "crypto \<Rightarrow> handshake_state \<Rightarrow> bytes \<Rightarrow> bool" where
  "cert_checks c s resp \<longleftrightarrow> 144 \<le> length resp \<and>
     drop 32 (take 96 resp) = hmac_sha512 c (hs_auth_key s) (take 32 resp) \<and>
     x25519 c (ephemeral s) (take 32 (drop 96 resp)) \<noteq> replicate 32 0"

definition response_keys :: "crypto \<Rightarrow> handshake_state \<Rightarrow> bytes \<Rightarrow> record_keys" where
  "response_keys c s resp =
     derive_record_keys c (sealed_session_id s) (x25519 c (ephemeral s) (take 32 (drop 96 resp)))"

definition confirmation :: "crypto \<Rightarrow> handshake_state \<Rightarrow> bytes \<Rightarrow> bytes option" where
  "confirmation c s resp =
     aes256_decrypt c (recv_key (response_keys c s resp))
       (derive_nonce c (sealed_session_id s) 0 Server NONCE_PURPOSE_RESPONSE) (drop 128 resp) []"

section \<open>Lemmas\<close>

lemma domain_lengths:
  "length NONCE_DOMAIN_CLIENT = 24" "length NONCE_DOMAIN_SERVER = 24"
  "length NONCE_PURPOSE_RESPONSE = 28" "length NONCE_PURPOSE_DATA = 24"
  by (simp_all add: NONCE_DOMAIN_CLIENT_def NONCE_DOMAIN_SERVER_def NONCE_PURPOSE_RESPONSE_def NONCE_PURPOSE_DATA_def)

lemma domains_differ: "NONCE_DOMAIN_CLIENT \<noteq> NONCE_DOMAIN_SERVER"
proof
  assume "NONCE_DOMAIN_CLIENT = NONCE_DOMAIN_SERVER"
  then have "NONCE_DOMAIN_CLIENT ! 15 = NONCE_DOMAIN_SERVER ! 15" by simp
  then show False
    by (simp add: NONCE_DOMAIN_CLIENT_def NONCE_DOMAIN_SERVER_def ascii_def)
qed

lemma seq_bytes_inj: "be_bytes 8 (unat (a :: u64)) = be_bytes 8 (unat b) \<Longrightarrow> a = b"
proof -
  assume eq: "be_bytes 8 (unat a) = be_bytes 8 (unat b)"
  have "unat a < 256 ^ 8" "unat b < 256 ^ 8"
    using unsigned_less [of a, where 'a = nat] unsigned_less [of b, where 'a = nat] by simp_all
  with be_bytes_inj [OF eq] show ?thesis
    by (simp add: unsigned_word_eqI)
qed

lemma complete_spec:
  assumes "digest_lengths c"
  shows "complete c s resp =
    (if completed s then (Inl (Err SessionAuthRejected), s)
     else if \<not> cert_checks c s resp \<or> hs_record_keys s \<noteq> None then (Inl (Err SessionAuthRejected), s)
     else if confirmation c s resp = None
       then (Inl (Err SessionAuthRejected), s\<lparr>hs_record_keys := Some (response_keys c s resp)\<rparr>)
     else (Inr (), s\<lparr>completed := True, hs_record_keys := Some (response_keys c s resp)\<rparr>))"
proof (cases "completed s \<or> length resp < 144")
  case True
  then show ?thesis
    by (cases s) (auto simp: complete_def reject_def cert_checks_def proto_defs Let_def)
next
  case False
  then have cert: "verify_temporary_certificate c k (take 96 resp) = Inr () \<longleftrightarrow>
      drop 32 (take 96 resp) = hmac_sha512 c k (take 32 resp)" for k
    by (auto simp: verify_spec [OF assms])
  from False show ?thesis
    by (cases s) (auto simp: complete_def reject_def cert_checks_def confirmation_def response_keys_def proto_defs Let_def cert)
qed

lemma seal_record_some:
  assumes "aead_exact c" "length p < 2 ^ 32" "hs_record_keys s = Some keys"
  shows "\<exists>ct. seal_record c s seq p = Inr ct \<and> length ct = length p + 16 \<and>
    aes256_decrypt c (send_key keys) (derive_nonce c (sealed_session_id s) seq Client NONCE_PURPOSE_DATA) ct [] = Some p"
  using encrypt_some [OF assms(1,2), of "send_key keys" "derive_nonce c (sealed_session_id s) seq Client NONCE_PURPOSE_DATA" "[]"]
    assms(3)
  by (fastforce simp: seal_record_def hs_keys_def)

text \<open>What a successful \<open>initiate\<close> sends: the hello with the seal in the session id slot, where the
  seal authenticates the same hello with the slot zeroed.\<close>

definition hello_random :: "crypto \<Rightarrow> bytes \<Rightarrow> bytes" where
  "hello_random c shared = hkdf_expand c HKDF_SALT shared (ascii ''shadevpn-hello-random-v1'') 32"

definition session_hello :: "crypto \<Rightarrow> bytes \<Rightarrow> bytes \<Rightarrow> bytes \<Rightarrow> bytes \<Rightarrow> bytes" where
  "session_hello c eph sni shared sid =
     hello_wire (chrome_hello (Some sni) (x25519_base c eph) (hello_random c shared) sid (pad_for (Some sni)))"

definition params_ok :: "crypto \<Rightarrow> bytes \<Rightarrow> handshake_params \<Rightarrow> bool" where
  "params_ok c eph params \<longleftrightarrow> hp_short_id params \<noteq> [] \<and> length (hp_short_id params) \<le> 8 \<and>
     server_public_key params \<noteq> replicate 32 0 \<and> x25519 c eph (server_public_key params) \<noteq> replicate 32 0 \<and>
     length (hp_sni params) \<le> 60000 \<and> length (hp_sni params) \<noteq> 141"

lemma session_hello_patch:
  assumes "digest_lengths c" "length sid = 32" "length (session_hello c eph sni shared (replicate 32 0)) = n"
  shows "copy_into 44 sid (session_hello c eph sni shared (replicate 32 0)) = session_hello c eph sni shared sid"
    "copy_into 44 (replicate 32 0) (session_hello c eph sni shared sid) = session_hello c eph sni shared (replicate 32 0)"
    "76 \<le> n" "length (session_hello c eph sni shared sid) = n"
proof -
  let ?z = "chrome_hello (Some sni) (x25519_base c eph) (hello_random c shared) (replicate 32 0) (pad_for (Some sni))"
  have len: "length (x25519_base c eph) = 32" "length (hello_random c shared) = 32"
    using assms(1) by (simp_all add: hello_random_def hkdf_expand_def)
  have split: "session_hello c eph sni shared t = before_sid ?z @ t @ after_sid ?z" if "length t = 32" for t
    unfolding session_hello_def by (rule chrome_wire_split(1) [OF len(2) that len(1)])
  have "length (before_sid ?z) = 44"
    by (rule chrome_wire_split(2) [OF len(2) _ len(1), of "replicate 32 0"]) simp
  then show "copy_into 44 sid (session_hello c eph sni shared (replicate 32 0)) = session_hello c eph sni shared sid"
    "copy_into 44 (replicate 32 0) (session_hello c eph sni shared sid) = session_hello c eph sni shared (replicate 32 0)"
    "76 \<le> n" "length (session_hello c eph sni shared sid) = n"
    using assms(2,3) by (auto simp: split copy_into_def)
qed

lemma length_session_hello:
  assumes "digest_lengths c" "length sid = 32" "length sni \<le> 60000"
  shows "length (session_hello c eph sni shared sid) \<le> 70000"
proof -
  have "length (x25519_base c eph) = 32" "length (hello_random c shared) = 32"
    using assms(1) by (simp_all add: hello_random_def hkdf_expand_def)
  with assms(2,3) show ?thesis
    by (auto simp: session_hello_def hello_wire_def length_chrome_body pad_for_def)
qed

lemma initiate_spec:
  assumes "crypto_ok c" "params_ok c eph params"
  defines "shared \<equiv> x25519 c eph (server_public_key params)"
  shows "\<exists>sid. length sid = 32 \<and>
    seal_session_id c (auth_key c shared (hello_random c shared)) (hello_random c shared)
      (session_hello c eph (hp_sni params) shared (replicate 32 0)) CLIENT_VERSION time (hp_short_id params) = Inr sid \<and>
    initiate c eph time params = Inr \<lparr>ephemeral = eph, ephemeral_public = x25519_base c eph,
      hs_auth_key = auth_key c shared (hello_random c shared),
      wire_hello = session_hello c eph (hp_sni params) shared sid,
      sealed_session_id = sid, hs_record_keys = None, completed = False\<rparr>"
proof -
  have c: "digest_lengths c" "aead_exact c"
    using assms(1) by (simp_all add: crypto_ok_def)
  let ?z = "session_hello c eph (hp_sni params) shared (replicate 32 0)"
  let ?r = "hello_random c shared"
  have z: "76 \<le> length ?z"
    using session_hello_patch(3) [OF c(1), of "replicate 32 0"] by simp
  have build: "build_client_hello (Some (hp_sni params)) (x25519_base c eph) ?r (replicate 32 0) = Inr ?z"
    unfolding session_hello_def using assms(2) c
    by (subst build_wire) (auto simp: hello_random_def hkdf_expand_def sni_fits_def sni_141_def params_ok_def)
  obtain sid where sid: "seal_session_id c (auth_key c shared ?r) ?r ?z CLIENT_VERSION time (hp_short_id params) = Inr sid"
    using seal_succeeds [OF c(2) _ z, of "hp_short_id params" CLIENT_VERSION] assms(2)
    by (fastforce simp: params_ok_def CLIENT_VERSION_def)
  then have len: "length sid = 32"
    by (auto simp: seal_session_id_def proto_defs split: if_splits option.splits)
  show ?thesis
    using sid len z assms(2) build session_hello_patch(1) [OF c(1) len]
    by (auto simp: initiate_def params_ok_def hello_random_def [symmetric] proto_defs Let_def shared_def)
qed

text \<open>The response of a server that knows the session key and shares the ephemeral secret.\<close>

lemma honest_response:
  fixes signing :: bytes
  assumes "crypto_ok c" "length share = 32" "16 \<le> length ct" "x25519 c (ephemeral s) share \<noteq> replicate 32 0"
  defines "resp \<equiv> temporary_certificate c (hs_auth_key s) signing @ share @ ct"
  shows "cert_checks c s resp"
    "response_keys c s resp = derive_record_keys c (sealed_session_id s) (x25519 c (ephemeral s) share)"
    "confirmation c s resp = aes256_decrypt c (recv_key (response_keys c s resp))
       (derive_nonce c (sealed_session_id s) 0 Server NONCE_PURPOSE_RESPONSE) ct []"
proof -
  have c: "digest_lengths c"
    using assms(1) by (simp add: crypto_ok_def)
  have resp: "resp = (x25519_base c signing @ hmac_sha512 c (hs_auth_key s) (x25519_base c signing)) @ share @ ct"
    unfolding resp_def temporary_certificate_wire [OF c] ..
  show "cert_checks c s resp"
    "response_keys c s resp = derive_record_keys c (sealed_session_id s) (x25519 c (ephemeral s) share)"
    using assms(2-4) c by (simp_all add: cert_checks_def response_keys_def resp)
  show "confirmation c s resp = aes256_decrypt c (recv_key (response_keys c s resp))
       (derive_nonce c (sealed_session_id s) 0 Server NONCE_PURPOSE_RESPONSE) ct []"
    unfolding confirmation_def using assms(2) c by (simp add: resp)
qed

definition demo_state :: handshake_state where
  "demo_state = \<lparr>ephemeral = [1], ephemeral_public = [], hs_auth_key = [2], wire_hello = [],
     sealed_session_id = replicate 32 4, hs_record_keys = None, completed = False\<rparr>"

definition demo_response :: "bytes \<Rightarrow> bytes" where
  "demo_response ct = temporary_certificate demo_crypto [2] [5] @ replicate 32 3 @ ct"

lemma demo_response_checks:
  assumes "16 \<le> length ct"
  shows "cert_checks demo_crypto demo_state (demo_response ct)"
    "response_keys demo_crypto demo_state (demo_response ct) =
       derive_record_keys demo_crypto (replicate 32 4) (x25519 demo_crypto [1] (replicate 32 3))"
    "confirmation demo_crypto demo_state (demo_response ct) =
       demo_decrypt (recv_key (derive_record_keys demo_crypto (replicate 32 4) (x25519 demo_crypto [1] (replicate 32 3))))
         (derive_nonce demo_crypto (replicate 32 4) 0 Server NONCE_PURPOSE_RESPONSE) ct []"
proof -
  have "x25519 demo_crypto [1] (replicate 32 3) ! 0 = 4" "replicate 32 (0 :: byte) ! 0 = 0"
    by (simp_all add: demo_crypto_def demo_fix_def)
  then have "x25519 demo_crypto (ephemeral demo_state) (replicate 32 3) \<noteq> replicate 32 0"
    by (auto simp: demo_state_def dest: arg_cong [of _ _ "\<lambda>xs. xs ! 0"])
  from honest_response [OF demo_crypto_ok _ assms this, of "[5]"]
  show "cert_checks demo_crypto demo_state (demo_response ct)"
    "response_keys demo_crypto demo_state (demo_response ct) =
       derive_record_keys demo_crypto (replicate 32 4) (x25519 demo_crypto [1] (replicate 32 3))"
    "confirmation demo_crypto demo_state (demo_response ct) =
       demo_decrypt (recv_key (derive_record_keys demo_crypto (replicate 32 4) (x25519 demo_crypto [1] (replicate 32 3))))
         (derive_nonce demo_crypto (replicate 32 4) 0 Server NONCE_PURPOSE_RESPONSE) ct []"
    by (simp_all add: demo_state_def demo_response_def) (simp add: demo_crypto_def)
qed

section \<open>Properties\<close>

text \<open>C22. Nonce separation: the input hashed into a nonce determines the direction, the purpose, the
  session id and the sequence number, so no two records, and no record and the confirmation, of
  any sessions ever hash the same input.\<close>

theorem nonce_inputs_distinct:
  assumes "nonce_input sid seq dir purpose = nonce_input sid' seq' dir' purpose'"
    "length sid = 32" "length sid' = 32"
    "purpose \<in> {NONCE_PURPOSE_RESPONSE, NONCE_PURPOSE_DATA}" "purpose' \<in> {NONCE_PURPOSE_RESPONSE, NONCE_PURPOSE_DATA}"
  shows "sid = sid' \<and> seq = seq' \<and> dir = dir' \<and> purpose = purpose'"
proof -
  have dom: "length (case d of Client \<Rightarrow> NONCE_DOMAIN_CLIENT | Server \<Rightarrow> NONCE_DOMAIN_SERVER) = 24" for d
    by (cases d) (simp_all add: domain_lengths)
  have "length purpose = length purpose'"
    using arg_cong [OF assms(1), of length] assms(2,3) dom by (simp add: nonce_input_def)
  then have "purpose = purpose'"
    using assms(4,5) by (auto simp: domain_lengths)
  moreover have "dir = dir'"
    using assms(1) dom domains_differ by (cases dir; cases dir') (auto simp: nonce_input_def append_eq_append_conv domain_lengths)
  moreover have "sid @ be_bytes 8 (unat seq) = sid' @ be_bytes 8 (unat seq')"
    using assms(1) calculation by (simp add: nonce_input_def)
  then have "sid = sid' \<and> seq = seq'"
    using assms(2,3) seq_bytes_inj by (simp add: append_eq_append_conv)
  ultimately show ?thesis by blast
qed

theorem nonce_inputs_distinct_witness:
  "nonce_input (replicate 32 1) 7 Client NONCE_PURPOSE_DATA \<noteq> nonce_input (replicate 32 1) 7 Server NONCE_PURPOSE_DATA"
  using nonce_inputs_distinct [of "replicate 32 1" 7 Client NONCE_PURPOSE_DATA "replicate 32 1" 7 Server NONCE_PURPOSE_DATA]
  by auto

text \<open>C23. Authentication of the server response: \<open>complete\<close> succeeds exactly when it has not
  succeeded before, no keys were installed by an earlier attempt, the certificate carries the HMAC
  under the session key, the fresh share does not give the all-zero secret, and the confirmation
  opens under the keys derived from that share; then the keys are installed and the state is
  completed.  On failure the completed flag is unchanged.\<close>

theorem complete_authenticates:
  assumes "digest_lengths c"
  shows "(fst (complete c s resp) = Inr () \<longleftrightarrow>
      \<not> completed s \<and> hs_record_keys s = None \<and> cert_checks c s resp \<and> confirmation c s resp \<noteq> None) \<and>
    (fst (complete c s resp) = Inr () \<longrightarrow>
      snd (complete c s resp) = s\<lparr>completed := True, hs_record_keys := Some (response_keys c s resp)\<rparr>) \<and>
    (fst (complete c s resp) \<noteq> Inr () \<longrightarrow>
      fst (complete c s resp) = Inl (Err SessionAuthRejected) \<and> completed (snd (complete c s resp)) = completed s)"
  by (auto simp: complete_spec [OF assms])

theorem complete_authenticates_witness:
  "\<exists>ct. fst (complete demo_crypto demo_state (demo_response ct)) = Inr () \<and>
    completed (snd (complete demo_crypto demo_state (demo_response ct)))"
proof -
  let ?k = "recv_key (derive_record_keys demo_crypto (replicate 32 4) (x25519 demo_crypto [1] (replicate 32 3)))"
  let ?n = "derive_nonce demo_crypto (replicate 32 4) 0 Server NONCE_PURPOSE_RESPONSE"
  obtain ct where ct: "demo_encrypt ?k ?n [7] [] = Some ct" "16 \<le> length ct"
    by (simp add: demo_encrypt_def demo_tag_def)
  from ct(1) have "demo_decrypt ?k ?n ct [] = Some [7]"
    by (simp only: demo_aead)
  then have conf: "confirmation demo_crypto demo_state (demo_response ct) = Some [7]"
    by (simp only: demo_response_checks(3) [OF ct(2)])
  have c: "digest_lengths demo_crypto"
    using demo_crypto_ok by (simp add: crypto_ok_def)
  have "\<not> completed demo_state" "hs_record_keys demo_state = None"
    by (simp_all add: demo_state_def)
  with complete_authenticates [OF c, of demo_state "demo_response ct"] demo_response_checks(1) [OF ct(2)] conf show ?thesis
    by (intro exI [of _ ct]) simp
qed

text \<open>A failed confirmation is not undone: when the certificate checks but the confirmation does
  not open, \<open>complete\<close> reports failure and yet leaves the record keys installed.  From then on
  every retry fails, even on a genuine response, while \<open>seal_record\<close> works with keys that
  were never confirmed.\<close>

theorem failed_confirmation_keeps_keys:
  assumes "crypto_ok c" "\<not> completed s" "hs_record_keys s = None" "cert_checks c s resp" "confirmation c s resp = None"
    "length p < 2 ^ 32"
  shows "\<exists>s'. complete c s resp = (Inl (Err SessionAuthRejected), s') \<and> \<not> completed s' \<and>
    (\<forall>resp'. complete c s' resp' = (Inl (Err SessionAuthRejected), s')) \<and> (\<exists>ct. seal_record c s' seq p = Inr ct)"
proof -
  let ?s = "s\<lparr>hs_record_keys := Some (response_keys c s resp)\<rparr>"
  have c: "digest_lengths c" "aead_exact c"
    using assms(1) by (simp_all add: crypto_ok_def)
  have "complete c s resp = (Inl (Err SessionAuthRejected), ?s)" "\<not> completed ?s"
    "\<forall>resp'. complete c ?s resp' = (Inl (Err SessionAuthRejected), ?s)"
    using assms by (simp_all add: complete_spec [OF c(1)])
  moreover have "\<exists>ct. seal_record c ?s seq p = Inr ct"
    using seal_record_some [OF c(2) assms(6), of ?s] by fastforce
  ultimately show ?thesis by blast
qed

theorem failed_confirmation_keeps_keys_witness:
  "\<exists>s'. complete demo_crypto demo_state (demo_response (replicate 16 1)) = (Inl (Err SessionAuthRejected), s') \<and>
    \<not> completed s' \<and> (\<exists>ct. seal_record demo_crypto s' 0 [1, 2] = Inr ct)"
proof -
  have "replicate 16 1 \<noteq> demo_tag k n m a" for k n m a
    by (auto simp: demo_tag_def demo_fix_def dest: arg_cong [of _ _ "\<lambda>xs. xs ! 15"])
  then have "demo_decrypt k n (replicate 16 1) [] = None" for k n
    by (auto simp: demo_decrypt_def)
  then have "confirmation demo_crypto demo_state (demo_response (replicate 16 1)) = None"
    by (simp add: demo_response_checks)
  with failed_confirmation_keeps_keys [OF demo_crypto_ok _ _ demo_response_checks(1) this, of "[1, 2]" 0] show ?thesis
    by (auto simp: demo_state_def)
qed

end
