(* ===== verification/TestServer.thy ===== *)
theory TestServer
  imports Transport Vision Handshake
begin

text \<open>
  \<open>native/src/test_server.rs\<close>: the honest server the integration tests run against.  \<open>server_accept\<close> is
  the handshake half of \<open>run_server\<close> from the received hello frame to the response,
  \<open>server_record\<close> what its record loop does with one frame, \<open>server_turn\<close> one turn of the loop on the
  connection, \<open>server_loop\<close> and \<open>run_server\<close> the loop and the whole server.  The ephemeral secret, the certificate
  secret and the padding draws are arguments; the error strings are constructors.
\<close>

datatype server_error = BadHello tls_error | NoSniOffered | SessionIdNot32 | SessionIdRefused reality_error
  | VersionMismatch | ShortIdNotAllowed | ServerSealFailed | RecordNotOpened | VisionUnpad vless_error
  | RequestHeader vless_error | UuidRefused | ResealFailed
  | HelloRead frame_error | ClosedBeforeHello | WriteResponse frame_error | WriteRecord frame_error | RecordLoop frame_error

record vless_observed =
  vo_uuid :: bytes
  vo_flow :: "bytes option"
  vo_command :: byte
  vo_address :: address
  vo_port :: u16
  vo_payload_bytes :: nat

record server_session =
  ss_sid :: bytes
  ss_recv_key :: bytes
  ss_send_key :: bytes
  ss_seq_in :: u64
  ss_seq_out :: u64
  ss_uuid :: "bytes option"
  ss_reader :: "vision_reader option"
  ss_writer :: "vision_writer option"
  ss_request :: "vless_observed option"
  ss_payload_bytes :: nat

definition map_err :: "('e \<Rightarrow> 'f) \<Rightarrow> ('e, 'a) result \<Rightarrow> ('f, 'a) result" where
  "map_err f m = (case m of Inl (Err e) \<Rightarrow> Inl (Err (f e)) | Inl Panic \<Rightarrow> Inl Panic | Inr x \<Rightarrow> Inr x)"

definition expected_short_id :: bytes where
  "expected_short_id = copy_into 0 [0x01, 0x02] (replicate 8 0)"

definition server_accept ::
    "crypto \<Rightarrow> bytes \<Rightarrow> bytes \<Rightarrow> bytes \<Rightarrow> bytes option \<Rightarrow> bytes \<Rightarrow>
     (server_error, bytes \<times> bytes \<times> server_session) result" where
  "server_accept c server_secret eph_secret signing expect_uuid hello_frame =
     rbind (map_err BadHello (parse_client_hello hello_frame)) (\<lambda>hello.
     rbind (ok_or NoSniOffered (ch_sni hello)) (\<lambda>sni.
       let shared = x25519 c server_secret (ch_ephemeral_public hello);
           key = auth_key c shared (ch_random hello)
       in if length hello_frame < SESSION_ID_OFFSET + 32 then Inl Panic
       else let aad = copy_into SESSION_ID_OFFSET (replicate 32 0) hello_frame in
       if length (ch_session_id hello) \<noteq> 32 then Inl (Err SessionIdNot32)
       else let sid = ch_session_id hello in
       rbind (map_err SessionIdRefused (unseal_session_id c key (ch_random hello) aad sid)) (\<lambda>plain.
         if client_version plain \<noteq> CLIENT_VERSION then Inl (Err VersionMismatch)
         else if short_id plain \<noteq> expected_short_id then Inl (Err ShortIdNotAllowed)
         else let server_eph = server_ephemeral_generate c eph_secret;
                  ecdhe = shared_secret c server_eph (ch_ephemeral_public hello);
                  binding = session_identity c sid ecdhe;
                  ks = hkdf_expand c HKDF_SALT binding KEY_INFO 64;
                  recv = take 32 ks;
                  send = drop 32 ks
         in case aes256_encrypt c send (derive_nonce c sid 0 Server NONCE_PURPOSE_RESPONSE) (ascii ''shadevpn-server-ok'') [] of
              None \<Rightarrow> Inl (Err ServerSealFailed)
            | Some sealed_confirm \<Rightarrow>
                Inr (sni, temporary_certificate c key signing @ se_public server_eph @ sealed_confirm,
                  \<lparr>ss_sid = sid, ss_recv_key = recv, ss_send_key = send, ss_seq_in = 0, ss_seq_out = 0,
                   ss_uuid = expect_uuid, ss_reader = map_option vision_reader_new expect_uuid,
                   ss_writer = map_option vision_writer_new expect_uuid, ss_request = None, ss_payload_bytes = 0\<rparr>))))"

definition u64_inc :: "u64 \<Rightarrow> ('e, u64) result" where
  "u64_inc w = (if w = -1 then Inl Panic else Inr (w + 1))"

text \<open>The payload of a VLESS record: the first one carries the request header, which is checked and
  answered with the response header.\<close>

definition server_payload :: "bytes \<Rightarrow> server_session \<Rightarrow> (server_error, bytes \<times> server_session) result" where
  "server_payload unpadded s =
     (case ss_request s of
        None \<Rightarrow>
          rbind (map_err RequestHeader (request_header_len unpadded)) (\<lambda>hlen.
          rbind (slice 0 hlen unpadded) (\<lambda>hdr.
          rbind (map_err RequestHeader (parse_request_header hdr)) (\<lambda>req.
            if Some (pr_uuid req) \<noteq> ss_uuid s then Inl (Err UuidRefused)
            else let n = ss_payload_bytes s + (length unpadded - hlen) in
              rbind (slice hlen (length unpadded) unpadded) (\<lambda>body.
                Inr (build_response_header @ body,
                  s\<lparr>ss_payload_bytes := n,
                    ss_request := Some \<lparr>vo_uuid = pr_uuid req, vo_flow = pr_flow req, vo_command = pr_command req,
                      vo_address = pr_address req, vo_port = pr_port req, vo_payload_bytes = n\<rparr>\<rparr>)))))
      | Some v \<Rightarrow>
          let n = ss_payload_bytes s + length unpadded
          in Inr (unpadded, s\<lparr>ss_payload_bytes := n, ss_request := Some (v\<lparr>vo_payload_bytes := n\<rparr>)\<rparr>))"

definition server_reply :: "bytes \<Rightarrow> (nat \<Rightarrow> u64) \<Rightarrow> server_session \<Rightarrow> (server_error, bytes \<times> server_session) result" where
  "server_reply opened rnd s =
     (case (ss_reader s, ss_writer s) of
        (Some rd, Some wr) \<Rightarrow>
          (case unpad rd opened of
             (Inl e, rd) \<Rightarrow> map_err VisionUnpad (Inl e)
           | (Inr unpadded, rd) \<Rightarrow>
               rbind (server_payload unpadded (s\<lparr>ss_reader := Some rd\<rparr>)) (\<lambda>(payload, s).
                 case pad wr payload False True rnd of (out, wr) \<Rightarrow> Inr (out, s\<lparr>ss_writer := Some wr\<rparr>)))
      | _ \<Rightarrow> Inr (opened, s))"

text \<open>One turn of the record loop; an empty frame is skipped.\<close>

definition server_record ::
    "crypto \<Rightarrow> bytes \<Rightarrow> (nat \<Rightarrow> u64) \<Rightarrow> server_session \<Rightarrow> (server_error, bytes option \<times> server_session) result" where
  "server_record c frame rnd s =
     (if frame = [] then Inr (None, s)
      else rbind (ok_or RecordNotOpened (aes256_decrypt c (ss_recv_key s)
                    (derive_nonce c (ss_sid s) (ss_seq_in s) Client NONCE_PURPOSE_DATA) frame [])) (\<lambda>opened.
        rbind (u64_inc (ss_seq_in s)) (\<lambda>seq_in.
        rbind (server_reply opened rnd (s\<lparr>ss_seq_in := seq_in\<rparr>)) (\<lambda>(reply, s).
        rbind (ok_or ResealFailed (aes256_encrypt c (ss_send_key s)
                    (derive_nonce c (ss_sid s) (ss_seq_out s) Server NONCE_PURPOSE_DATA) reply [])) (\<lambda>resealed.
        rbind (u64_inc (ss_seq_out s)) (\<lambda>seq_out.
          Inr (Some resealed, s\<lparr>ss_seq_out := seq_out\<rparr>)))))))"

text \<open>One turn of the record loop on the connection: \<open>Inr False\<close> is the clean close that ends the loop.  What
  was written stays written when the turn fails.\<close>

definition server_turn ::
    "crypto \<Rightarrow> (nat \<Rightarrow> u64) \<Rightarrow> source \<Rightarrow> sink \<Rightarrow> server_session \<Rightarrow>
     (server_error, bool) result \<times> source \<times> sink \<times> server_session" where
  "server_turn c rnd r w s =
     (case read_frame r of
        (Inr (Some frame), r) \<Rightarrow>
          (case server_record c frame rnd s of
             Inl e \<Rightarrow> (Inl e, r, w, s)
           | Inr (None, s) \<Rightarrow> (Inr True, r, w, s)
           | Inr (Some resealed, s) \<Rightarrow>
               (case write_frame w resealed of
                  (Inl e, w) \<Rightarrow> (Inl (Err (WriteRecord e)), r, w, s)
                | (Inr _, w) \<Rightarrow> (Inr True, r, w, s)))
      | (Inr None, r) \<Rightarrow> (Inr False, r, w, s)
      | (Inl e, r) \<Rightarrow> (Inl (Err (RecordLoop e)), r, w, s))"

lemma server_turn_shorter: "server_turn c rnd r w s = (Inr True, r', w', s') \<Longrightarrow> length r' < length r"
  by (auto simp: server_turn_def dest!: read_frame_shorter split: prod.splits sum.splits option.splits)

text \<open>The loop; \<open>rnds\<close> holds the padding draws of each turn.\<close>

function server_loop ::
    "crypto \<Rightarrow> (nat \<Rightarrow> nat \<Rightarrow> u64) \<Rightarrow> source \<Rightarrow> sink \<Rightarrow> server_session \<Rightarrow>
     (server_error, server_session) result \<times> sink" where
  "server_loop c rnds r w s =
     (case server_turn c (rnds 0) r w s of
        (Inr True, r', w', s') \<Rightarrow> server_loop c (\<lambda>k. rnds (Suc k)) r' w' s'
      | (Inr False, r', w', s') \<Rightarrow> (Inr s', w')
      | (Inl e, r', w', s') \<Rightarrow> (Inl e, w'))"
  by pat_completeness auto
termination
  by (relation "measure (\<lambda>(_, _, r, _, _). length r)") (auto dest: server_turn_shorter [OF sym])

declare server_loop.simps [simp del]

record server_observation =
  so_sni :: bytes
  session_authenticated :: bool
  records_mirrored :: u64
  vless_request :: "vless_observed option"

text \<open>\<open>run_server\<close> from the accepted connection on.\<close>

definition run_server ::
    "crypto \<Rightarrow> bytes \<Rightarrow> bytes \<Rightarrow> bytes \<Rightarrow> bytes option \<Rightarrow> (nat \<Rightarrow> nat \<Rightarrow> u64) \<Rightarrow> source \<Rightarrow> sink \<Rightarrow>
     (server_error, server_observation) result \<times> sink" where
  "run_server c server_secret eph_secret signing expect_uuid rnds r w =
     (case read_frame r of
        (Inl e, _) \<Rightarrow> (Inl (Err (HelloRead e)), w)
      | (Inr None, _) \<Rightarrow> (Inl (Err ClosedBeforeHello), w)
      | (Inr (Some hello_frame), r) \<Rightarrow>
          (case server_accept c server_secret eph_secret signing expect_uuid hello_frame of
             Inl e \<Rightarrow> (Inl e, w)
           | Inr (sni, response, s) \<Rightarrow>
               (case write_frame w response of
                  (Inl e, w) \<Rightarrow> (Inl (Err (WriteResponse e)), w)
                | (Inr _, w) \<Rightarrow>
                    (case server_loop c rnds r w s of
                       (Inl e, w) \<Rightarrow> (Inl e, w)
                     | (Inr s, w) \<Rightarrow>
                         (Inr \<lparr>so_sni = sni, session_authenticated = True, records_mirrored = ss_seq_out s,
                               vless_request = ss_request s\<rparr>, w)))))"

text \<open>The client and the server hold the same session.\<close>

definition linked :: "handshake_state \<Rightarrow> server_session \<Rightarrow> bool" where
  "linked hs s \<longleftrightarrow> sealed_session_id hs = ss_sid s \<and>
     hs_record_keys hs = Some \<lparr>send_key = ss_recv_key s, recv_key = ss_send_key s\<rparr>"

text \<open>One payload through the tunnel and back: the client's wrap and seal, the server's record turn, and
  the client's open and unwrap.\<close>

type_synonym exchange_state = "vless_out \<times> u64 \<times> server_session"
type_synonym exchange_msg = "bytes \<times> (nat \<Rightarrow> u64) \<times> (nat \<Rightarrow> u64)"

definition exchange :: "crypto \<Rightarrow> handshake_state \<Rightarrow> exchange_state \<Rightarrow> exchange_msg \<Rightarrow> bytes \<times> exchange_state" where
  "exchange c hs w m =
     (case (w, m) of ((v, seq, s), payload, rnd, rnd') \<Rightarrow>
        (case wrap v payload rnd of (wrapped, v') \<Rightarrow>
           (case seal_record c hs seq wrapped of
              Inr ct \<Rightarrow>
                (case server_record c ct rnd' s of
                   Inr (Some f, s') \<Rightarrow> (f, v', seq + 1, s')
                 | _ \<Rightarrow> ([], v', seq + 1, s))
            | Inl _ \<Rightarrow> ([], v', seq + 1, s))))"

datatype deliver_error = NotOpened handshake_error | NotUnwrapped vless_error

definition deliver :: "crypto \<Rightarrow> handshake_state \<Rightarrow> vless_in \<times> u64 \<Rightarrow> bytes \<Rightarrow> (deliver_error, bytes) result \<times> vless_in \<times> u64" where
  "deliver c hs r f =
     (case r of (v, seq) \<Rightarrow>
        (case open_record c hs seq f of
           Inl e \<Rightarrow> (map_err NotOpened (Inl e), v, seq)
         | Inr pt \<Rightarrow> (case unwrap v pt of (x, v') \<Rightarrow> (map_err NotUnwrapped x, v', seq + 1))))"

definition header_pending :: "vless_out \<Rightarrow> server_session \<Rightarrow> bool" where
  "header_pending v s \<longleftrightarrow>
     (case vo_header v of
        None \<Rightarrow> ss_request s \<noteq> None
      | Some hdr \<Rightarrow> ss_request s = None \<and> length hdr < 2 ^ 12 \<and>
          (\<forall>p. request_header_len (hdr @ p) = Inr (length hdr)) \<and>
          (\<exists>req. parse_request_header hdr = Inr req \<and> Some (pr_uuid req) = ss_uuid s))"

definition exchange_synced :: "crypto \<Rightarrow> handshake_state \<Rightarrow> exchange_state \<Rightarrow> vless_in \<times> u64 \<Rightarrow> bool" where
  "exchange_synced c hs w r \<longleftrightarrow>
     (case (w, r) of ((v, seq, s), vi, seqi) \<Rightarrow>
        crypto_ok c \<and> linked hs s \<and> ss_seq_in s = seq \<and> ss_seq_out s = seqi \<and> header_pending v s \<and>
        (\<forall>u. vw_uuid (vo_writer v) = Some u \<longrightarrow> length u = 16) \<and>
        (\<exists>rd wr. ss_reader s = Some rd \<and> ss_writer s = Some wr \<and> (\<forall>u. vw_uuid wr = Some u \<longrightarrow> length u = 16) \<and>
           vision_synced (vo_writer v) rd \<and> reply_synced (ss_request s = None, wr) vi))"

definition exchange_ok :: "exchange_state \<Rightarrow> exchange_msg \<Rightarrow> bool" where
  "exchange_ok w m \<longleftrightarrow> length (fst m) < 2 ^ 18 \<and> ss_seq_in (snd (snd w)) \<noteq> -1 \<and> ss_seq_out (snd (snd w)) \<noteq> -1"

definition demo_server :: server_session where
  "demo_server = \<lparr>ss_sid = replicate 32 4, ss_recv_key = [1], ss_send_key = [2], ss_seq_in = 0, ss_seq_out = 0,
     ss_uuid = None, ss_reader = None, ss_writer = None, ss_request = None, ss_payload_bytes = 0\<rparr>"

section \<open>Agreement\<close>

lemma map_err_simps [simp]: "map_err f (Inr x) = Inr x" "map_err f (Inl (Err e)) = Inl (Err (f e))" "map_err f (Inl Panic) = Inl Panic"
  by (simp_all add: map_err_def)

lemma expected_short_id_pad: "pad_short_id [1, 2] = expected_short_id"
  using copy_into_zeros [of 0 "[]" 0 "[1, 2]" 8] by (simp add: pad_short_id_def expected_short_id_def)

lemma server_accepts:
  assumes "crypto_ok c" "params_ok c eph params" "server_public_key params = x25519_base c server_secret"
    "hp_short_id params = [1, 2]" "utf8_valid (hp_sni params)" "initiate c eph time params = Inr hs"
  shows "\<exists>ct ks. ks = derive_record_keys c (sealed_session_id hs) (x25519 c eph (x25519_base c eph_secret)) \<and>
    length ct = 34 \<and>
    aes256_decrypt c (recv_key ks) (derive_nonce c (sealed_session_id hs) 0 Server NONCE_PURPOSE_RESPONSE) ct [] \<noteq> None \<and>
    server_accept c server_secret eph_secret signing expect (wire_hello hs) =
      Inr (hp_sni params, temporary_certificate c (hs_auth_key hs) signing @ x25519_base c eph_secret @ ct,
        \<lparr>ss_sid = sealed_session_id hs, ss_recv_key = send_key ks, ss_send_key = recv_key ks, ss_seq_in = 0,
         ss_seq_out = 0, ss_uuid = expect, ss_reader = map_option vision_reader_new expect,
         ss_writer = map_option vision_writer_new expect, ss_request = None, ss_payload_bytes = 0\<rparr>)"
proof -
  have c: "digest_lengths c" "aead_exact c" "dh_commutes c"
    using assms(1) by (simp_all add: crypto_ok_def)
  let ?sh = "x25519 c eph (server_public_key params)"
  let ?r = "hello_random c ?sh"
  let ?hello = "session_hello c eph (hp_sni params) ?sh"
  obtain sid where sid: "length sid = 32"
    "seal_session_id c (auth_key c ?sh ?r) ?r (?hello (replicate 32 0)) CLIENT_VERSION time (hp_short_id params) = Inr sid"
    and hs: "hs = \<lparr>ephemeral = eph, ephemeral_public = x25519_base c eph, hs_auth_key = auth_key c ?sh ?r,
      wire_hello = ?hello sid, sealed_session_id = sid, hs_record_keys = None, completed = False\<rparr>"
    using initiate_spec [OF assms(1,2), of time] assms(6) by auto
  have patch: "copy_into 44 (replicate 32 0) (?hello sid) = ?hello (replicate 32 0)" "76 \<le> length (?hello sid)"
    using session_hello_patch [OF c(1) sid(1) refl] by simp_all
  have parse: "parse_client_hello (?hello sid) = Inr \<lparr>ch_sni = Some (hp_sni params), ch_random = ?r,
      ch_session_id = sid, ch_ephemeral_public = x25519_base c eph, tls13_negotiable = True\<rparr>"
    unfolding session_hello_def using assms(2,5) c sid(1)
    by (subst parse_hello_wire)
       (auto intro!: chrome_hello_ok simp: chrome_hello_result hello_random_def hkdf_expand_def sni_fits_def params_ok_def)
  have unseal: "unseal_session_id c (auth_key c ?sh ?r) ?r (?hello (replicate 32 0)) sid =
      Inr \<lparr>client_version = CLIENT_VERSION, unix_time = time, short_id = expected_short_id\<rparr>"
    using seal_unseal [OF c(2) sid(2)] assms(4) expected_short_id_pad by (simp add: CLIENT_VERSION_def)
  have dh: "x25519 c server_secret (x25519_base c eph) = ?sh" "x25519 c eph_secret (x25519_base c eph) = x25519 c eph (x25519_base c eph_secret)"
    using dh_agree [OF c(3)] assms(3) by simp_all
  define ks where "ks = derive_record_keys c sid (x25519 c eph (x25519_base c eph_secret))"
  obtain ct where ct: "aes256_encrypt c (recv_key ks) (derive_nonce c sid 0 Server NONCE_PURPOSE_RESPONSE) (ascii ''shadevpn-server-ok'') [] = Some ct"
    "length ct = length (ascii ''shadevpn-server-ok'') + 16"
    "aes256_decrypt c (recv_key ks) (derive_nonce c sid 0 Server NONCE_PURPOSE_RESPONSE) ct [] = Some (ascii ''shadevpn-server-ok'')"
    by (rule encrypt_some [OF c(2), of "ascii ''shadevpn-server-ok''" "recv_key ks"
          "derive_nonce c sid 0 Server NONCE_PURPOSE_RESPONSE" "[]"]) simp_all
  have keys: "send_key ks = take 32 (hkdf_expand c HKDF_SALT (session_identity c sid (x25519 c eph (x25519_base c eph_secret))) KEY_INFO 64)"
    "recv_key ks = drop 32 (hkdf_expand c HKDF_SALT (session_identity c sid (x25519 c eph (x25519_base c eph_secret))) KEY_INFO 64)"
    by (simp_all add: ks_def derive_record_keys_def Let_def)
  have "server_accept c server_secret eph_secret signing expect (?hello sid) =
      Inr (hp_sni params, temporary_certificate c (auth_key c ?sh ?r) signing @ x25519_base c eph_secret @ ct,
        \<lparr>ss_sid = sid, ss_recv_key = send_key ks, ss_send_key = recv_key ks, ss_seq_in = 0,
         ss_seq_out = 0, ss_uuid = expect, ss_reader = map_option vision_reader_new expect,
         ss_writer = map_option vision_writer_new expect, ss_request = None, ss_payload_bytes = 0\<rparr>)"
    using patch sid(1) ct(1) unfolding keys
    by (simp add: server_accept_def parse dh unseal Let_def SESSION_ID_OFFSET_def server_ephemeral_generate_def shared_secret_def)
  then show ?thesis
    using ct by (intro exI [of _ ct] exI [of _ ks]) (simp add: hs ks_def)
qed

lemma handshake_completes:
  assumes "crypto_ok c" "params_ok c eph params" "server_public_key params = x25519_base c server_secret"
    "hp_short_id params = [1, 2]" "utf8_valid (hp_sni params)" "initiate c eph time params = Inr hs"
    "x25519 c eph (x25519_base c eph_secret) \<noteq> replicate 32 0"
  shows "\<exists>resp s hs'. server_accept c server_secret eph_secret signing expect (wire_hello hs) = Inr (hp_sni params, resp, s) \<and>
    complete c hs resp = (Inr (), hs') \<and> completed hs' \<and> linked hs' s \<and> ss_seq_in s = 0 \<and> ss_seq_out s = 0 \<and>
    ss_uuid s = expect \<and> ss_reader s = map_option vision_reader_new expect \<and>
    ss_writer s = map_option vision_writer_new expect \<and> ss_request s = None \<and> ss_payload_bytes s = 0 \<and>
    length resp = length (temporary_certificate c (hs_auth_key hs) signing) + 66"
proof -
  have c: "digest_lengths c"
    using assms(1) by (simp add: crypto_ok_def)
  have hs: "ephemeral hs = eph" "hs_record_keys hs = None" "\<not> completed hs"
    using initiate_spec [OF assms(1,2), of time] assms(6) by auto
  obtain ct ks where ks: "ks = derive_record_keys c (sealed_session_id hs) (x25519 c eph (x25519_base c eph_secret))"
    and ct: "length ct = 34" "16 \<le> length ct"
      "aes256_decrypt c (recv_key ks) (derive_nonce c (sealed_session_id hs) 0 Server NONCE_PURPOSE_RESPONSE) ct [] \<noteq> None"
    and acc: "server_accept c server_secret eph_secret signing expect (wire_hello hs) =
      Inr (hp_sni params, temporary_certificate c (hs_auth_key hs) signing @ x25519_base c eph_secret @ ct,
        \<lparr>ss_sid = sealed_session_id hs, ss_recv_key = send_key ks, ss_send_key = recv_key ks, ss_seq_in = 0,
         ss_seq_out = 0, ss_uuid = expect, ss_reader = map_option vision_reader_new expect,
         ss_writer = map_option vision_writer_new expect, ss_request = None, ss_payload_bytes = 0\<rparr>)"
    using server_accepts [OF assms(1-6), of eph_secret signing expect] by auto
  let ?resp = "temporary_certificate c (hs_auth_key hs) signing @ x25519_base c eph_secret @ ct"
  have nz: "x25519 c (ephemeral hs) (x25519_base c eph_secret) \<noteq> replicate 32 0"
    using assms(7) hs by simp
  note resp = honest_response [OF assms(1) digest_length(2) [OF c] ct(2) nz, of signing]
  have "complete c hs ?resp = (Inr (), hs\<lparr>completed := True, hs_record_keys := Some ks\<rparr>)"
    unfolding complete_spec [OF c] using resp ct hs ks by simp
  with acc ct(1) show ?thesis
    by (cases ks) (auto simp: linked_def c)
qed

section \<open>Exchange\<close>

lemma pad_uuid: "(\<forall>u. vw_uuid w = Some u \<longrightarrow> length u = 16) \<Longrightarrow>
    (\<forall>u. vw_uuid (snd (pad w p lp fe rnd)) = Some u \<longrightarrow> length u = 16)"
  by (auto simp: pad_def Let_def split: if_splits)

lemma server_payload_step:
  assumes "header_pending v s"
  shows "\<exists>s'. server_payload (wrap_content v (p, rnd)) s = Inr ((if ss_request s = None then build_response_header else []) @ p, s') \<and>
    ss_request s' \<noteq> None \<and> ss_sid s' = ss_sid s \<and> ss_recv_key s' = ss_recv_key s \<and> ss_send_key s' = ss_send_key s \<and>
    ss_seq_in s' = ss_seq_in s \<and> ss_seq_out s' = ss_seq_out s \<and> ss_reader s' = ss_reader s \<and> ss_writer s' = ss_writer s \<and>
    ss_uuid s' = ss_uuid s"
proof (cases "vo_header v")
  case None
  with assms show ?thesis
    by (auto simp: header_pending_def server_payload_def wrap_content_def Let_def)
next
  case (Some hdr)
  then obtain req where "parse_request_header hdr = Inr req" "Some (pr_uuid req) = ss_uuid s" "ss_request s = None"
    "request_header_len (hdr @ p) = Inr (length hdr)"
    using assms by (auto simp: header_pending_def)
  with Some show ?thesis
    by (simp add: server_payload_def wrap_content_def slice_def Let_def)
qed

lemma server_reply_step:
  fixes rnd' :: "nat \<Rightarrow> u64"
  assumes "header_pending v s" "ss_reader s = Some rd" "ss_writer s = Some wr"
    "unpad rd wrapped = (Inr (wrap_content v (p, rnd)), rd')"
  defines "reply \<equiv> reply_call (ss_request s = None, wr) (p, False, True, rnd')"
  shows "\<exists>s'. server_reply wrapped rnd' s = Inr (fst reply, s') \<and>
    ss_request s' \<noteq> None \<and> ss_sid s' = ss_sid s \<and> ss_recv_key s' = ss_recv_key s \<and> ss_send_key s' = ss_send_key s \<and>
    ss_seq_in s' = ss_seq_in s \<and> ss_seq_out s' = ss_seq_out s \<and> ss_uuid s' = ss_uuid s \<and>
    ss_reader s' = Some rd' \<and> ss_writer s' = Some (snd (snd reply))"
proof -
  have "header_pending v (s\<lparr>ss_reader := Some rd'\<rparr>)"
    using assms(1) by (cases "vo_header v") (simp_all add: header_pending_def)
  from server_payload_step [OF this, of p rnd] obtain s1 where
    s1: "server_payload (wrap_content v (p, rnd)) (s\<lparr>ss_reader := Some rd'\<rparr>) =
      Inr ((if ss_request s = None then build_response_header else []) @ p, s1)"
    "ss_request s1 \<noteq> None" "ss_sid s1 = ss_sid s" "ss_recv_key s1 = ss_recv_key s" "ss_send_key s1 = ss_send_key s"
    "ss_seq_in s1 = ss_seq_in s" "ss_seq_out s1 = ss_seq_out s" "ss_reader s1 = Some rd'" "ss_uuid s1 = ss_uuid s"
    by auto
  obtain out wr' where pad: "pad wr ((if ss_request s = None then build_response_header else []) @ p) False True rnd' = (out, wr')"
    by fastforce
  have "reply = (out, False, wr')"
    using pad by (simp add: reply_def reply_call_def)
  with s1 pad assms(2-4) show ?thesis
    by (simp add: server_reply_def)
qed

lemma request_record:
  assumes "aead_exact c" "linked hs s" "header_pending v s" "\<forall>u. vw_uuid (vo_writer v) = Some u \<longrightarrow> length u = 16"
    "vision_synced (vo_writer v) rd" "length p < 2 ^ 18"
  shows "\<exists>wrapped v' rd' ct. wrap v p rnd = (wrapped, v') \<and> seal_record c hs seq wrapped = Inr ct \<and> ct \<noteq> [] \<and>
    aes256_decrypt c (ss_recv_key s) (derive_nonce c (ss_sid s) seq Client NONCE_PURPOSE_DATA) ct [] = Some wrapped \<and>
    unpad rd wrapped = (Inr (wrap_content v (p, rnd)), rd') \<and> vision_synced (vo_writer v') rd' \<and>
    vo_header v' = None \<and> (\<forall>u. vw_uuid (vo_writer v') = Some u \<longrightarrow> length u = 16)"
proof -
  obtain wrapped v' where wrap: "wrap v p rnd = (wrapped, v')" by fastforce
  obtain rd' where rd': "unpad rd wrapped = (Inr (wrap_content v (p, rnd)), rd')" "vision_synced (vo_writer v') rd'"
    using requests.step [OF assms(5), of "(p, rnd)"] wrap by (auto simp: wrap_call_def)
  have v': "vo_header v' = None" "\<forall>u. vw_uuid (vo_writer v') = Some u \<longrightarrow> length u = 16"
    using wrap wrap_conv [of v p rnd] pad_uuid [OF assms(4)] by auto
  have "length (wrap_content v (p, rnd)) < 2 ^ 19"
    using assms(3,6) by (auto simp: wrap_content_def header_pending_def split: option.splits)
  then have "length wrapped < 2 ^ 32"
    using wrap_conv(1) [of v p rnd] wrap assms(4)
      length_pad_le [of "vo_writer v" "wrap_content v (p, rnd)" "vo_header v \<noteq> None" "vo_header v \<noteq> None" rnd] by simp
  then obtain ct where "seal_record c hs seq wrapped = Inr ct" "length ct = length wrapped + 16"
    "aes256_decrypt c (ss_recv_key s) (derive_nonce c (ss_sid s) seq Client NONCE_PURPOSE_DATA) ct [] = Some wrapped"
    using seal_record_some [OF assms(1), of wrapped hs _ seq] assms(2) by (auto simp: linked_def)
  with wrap rd' v' show ?thesis
    by (intro exI [of _ wrapped] exI [of _ v'] exI [of _ rd'] exI [of _ ct]) auto
qed

lemma reply_record:
  fixes rnd' :: "nat \<Rightarrow> u64"
  assumes "aead_exact c" "linked hs s" "\<forall>u. vw_uuid wr = Some u \<longrightarrow> length u = 16" "reply_synced (first, wr) vi"
    "length p < 2 ^ 18" "seqi \<noteq> -1"
  defines "reply \<equiv> reply_call (first, wr) (p, False, True, rnd')"
  shows "\<exists>f vi'. aes256_encrypt c (ss_send_key s) (derive_nonce c (ss_sid s) seqi Server NONCE_PURPOSE_DATA) (fst reply) [] = Some f \<and>
    deliver c hs (vi, seqi) f = (Inr p, vi', seqi + 1) \<and> reply_synced (snd reply) vi' \<and> \<not> fst (snd reply) \<and>
    (\<forall>u. vw_uuid (snd (snd reply)) = Some u \<longrightarrow> length u = 16)"
proof -
  obtain vi' where vi': "unwrap vi (fst reply) = (Inr p, vi')" "reply_synced (snd reply) vi'"
    using replies.step [OF assms(4), of "(p, False, True, rnd')"] by (auto simp: reply_def)
  have wr': "\<not> fst (snd reply)" "\<forall>u. vw_uuid (snd (snd reply)) = Some u \<longrightarrow> length u = 16"
    using pad_uuid [OF assms(3), of "(if first then build_response_header else []) @ p" False True rnd']
    by (simp_all add: reply_def reply_call_def case_prod_beta)
  have "length (fst reply) < 2 ^ 32"
    using length_pad_le [of wr "(if first then build_response_header else []) @ p" False True rnd'] assms(3,5)
    by (auto simp: reply_def reply_call_def build_response_header_def split: prod.splits if_splits)
  then obtain f where f: "aes256_encrypt c (ss_send_key s) (derive_nonce c (ss_sid s) seqi Server NONCE_PURPOSE_DATA) (fst reply) [] = Some f"
    "aes256_decrypt c (ss_send_key s) (derive_nonce c (ss_sid s) seqi Server NONCE_PURPOSE_DATA) f [] = Some (fst reply)"
    using encrypt_some [OF assms(1)] by metis
  have "deliver c hs (vi, seqi) f = (Inr p, vi', seqi + 1)"
    using f(2) vi'(1) assms(2,6) by (simp add: deliver_def open_record_def hs_keys_def linked_def)
  with f(1) vi'(2) wr' show ?thesis
    by blast
qed

lemma exchange_step:
  assumes "exchange_synced c hs (v, seq, s) (vi, seqi)" "exchange_ok (v, seq, s) (p, rnd, rnd')"
  shows "\<exists>f v' s' vi'. exchange c hs (v, seq, s) (p, rnd, rnd') = (f, v', seq + 1, s') \<and>
    deliver c hs (vi, seqi) f = (Inr p, vi', seqi + 1) \<and>
    exchange_synced c hs (v', seq + 1, s') (vi', seqi + 1)"
proof -
  from assms(1) obtain rd wr where c: "crypto_ok c" "aead_exact c" and link: "linked hs s" and seqs: "ss_seq_in s = seq" "ss_seq_out s = seqi"
    and pend: "header_pending v s" and rw: "ss_reader s = Some rd" "ss_writer s = Some wr"
    and u: "\<forall>u. vw_uuid (vo_writer v) = Some u \<longrightarrow> length u = 16" "\<forall>u. vw_uuid wr = Some u \<longrightarrow> length u = 16"
    and sync: "vision_synced (vo_writer v) rd" "reply_synced (ss_request s = None, wr) vi"
    by (auto simp: exchange_synced_def crypto_ok_def)
  have ok: "length p < 2 ^ 18" "seq \<noteq> -1" "seqi \<noteq> -1"
    using assms(2) seqs by (simp_all add: exchange_ok_def)
  obtain wrapped v' rd' ct where wrap: "wrap v p rnd = (wrapped, v')" "seal_record c hs seq wrapped = Inr ct" "ct \<noteq> []"
    "aes256_decrypt c (ss_recv_key s) (derive_nonce c (ss_sid s) seq Client NONCE_PURPOSE_DATA) ct [] = Some wrapped"
    and rd': "unpad rd wrapped = (Inr (wrap_content v (p, rnd)), rd')" "vision_synced (vo_writer v') rd'"
    and v': "vo_header v' = None" "\<forall>u. vw_uuid (vo_writer v') = Some u \<longrightarrow> length u = 16"
    using request_record [OF c(2) link pend u(1) sync(1) ok(1)] by metis
  define reply where "reply = reply_call (ss_request s = None, wr) (p, False, True, rnd')"
  have "header_pending v (s\<lparr>ss_seq_in := seq + 1\<rparr>)"
    using pend by (cases "vo_header v") (simp_all add: header_pending_def)
  from server_reply_step [OF this _ _ rd'(1), of wr rnd'] rw obtain s1 where
    s1: "server_reply wrapped rnd' (s\<lparr>ss_seq_in := seq + 1\<rparr>) = Inr (fst reply, s1)" "ss_request s1 \<noteq> None" "ss_sid s1 = ss_sid s"
    "ss_recv_key s1 = ss_recv_key s" "ss_send_key s1 = ss_send_key s" "ss_seq_in s1 = seq + 1" "ss_seq_out s1 = seqi"
    "ss_reader s1 = Some rd'" "ss_writer s1 = Some (snd (snd reply))"
    using seqs by (auto simp: reply_def)
  obtain f vi' where f: "aes256_encrypt c (ss_send_key s) (derive_nonce c (ss_sid s) seqi Server NONCE_PURPOSE_DATA) (fst reply) [] = Some f"
    "deliver c hs (vi, seqi) f = (Inr p, vi', seqi + 1)" "reply_synced (snd reply) vi'"
    and wr': "\<not> fst (snd reply)" "\<forall>u. vw_uuid (snd (snd reply)) = Some u \<longrightarrow> length u = 16"
    using reply_record [OF c(2) link u(2) sync(2) ok(1,3), of rnd'] by (auto simp: reply_def)
  let ?s' = "s1\<lparr>ss_seq_out := seqi + 1\<rparr>"
  have "exchange c hs (v, seq, s) (p, rnd, rnd') = (f, v', seq + 1, ?s')"
    using wrap s1 f(1) seqs ok by (simp add: exchange_def server_record_def u64_inc_def)
  moreover have "exchange_synced c hs (v', seq + 1, ?s') (vi', seqi + 1)"
    using c link s1 rd'(2) f(3) wr' v'
    by (cases reply) (auto simp: exchange_synced_def linked_def header_pending_def)
  ultimately show ?thesis
    using f(2) by blast
qed

interpretation tunnel: paired_stream "exchange c hs" "deliver c hs" "\<lambda>_. fst" "exchange_synced c hs" exchange_ok
proof
  fix w r m
  assume "exchange_synced c hs w r" "exchange_ok w m"
  then show "\<exists>r'. deliver c hs r (fst (exchange c hs w m)) = (Inr (fst m), r') \<and>
      exchange_synced c hs (snd (exchange c hs w m)) r'"
    by (cases w; cases r; cases m) (metis exchange_step fst_conv snd_conv)
qed

lemma exchange_all_ok:
  "exchange_synced c hs (v, seq, s) (vi, seqi) \<Longrightarrow> \<forall>m \<in> set ms. length (fst m) < 2 ^ 18 \<Longrightarrow>
     unat seq + length ms < 2 ^ 64 \<Longrightarrow> unat seqi + length ms < 2 ^ 64 \<Longrightarrow>
     all_ok (exchange c hs) exchange_ok (v, seq, s) ms"
proof (induction ms arbitrary: v seq s vi seqi)
  case (Cons m ms)
  obtain p rnd rnd' where m: "m = (p, rnd, rnd')" by (cases m)
  have seqs: "ss_seq_in s = seq" "ss_seq_out s = seqi"
    using Cons.prems(1) by (auto simp: exchange_synced_def)
  have room: "seq \<noteq> -1" "unat (seq + 1) + length ms < 2 ^ 64" "seqi \<noteq> -1" "unat (seqi + 1) + length ms < 2 ^ 64"
    using u64_room [of seq "length ms"] u64_room [of seqi "length ms"] Cons.prems(3,4) by simp_all
  then have ok: "exchange_ok (v, seq, s) m"
    using Cons.prems(2) seqs by (simp add: exchange_ok_def)
  from exchange_step [OF Cons.prems(1), of p rnd rnd'] ok m obtain f v' s' vi' where
    "exchange c hs (v, seq, s) m = (f, v', seq + 1, s')" "exchange_synced c hs (v', seq + 1, s') (vi', seqi + 1)"
    by auto
  with Cons.IH [OF this(2)] Cons.prems(2) room ok show ?case
    by simp
qed simp

lemma fresh_header:
  assumes "vless_out_new uuid flow command address port = Inr out" "length uuid = 16"
    "\<forall>name. flow = Some name \<longrightarrow> length name < 256 \<and> utf8_valid name" "address_ok address"
    "ss_uuid s = Some uuid" "ss_request s = None"
  shows "header_pending out s" "vo_writer out = vision_writer_new uuid"
proof -
  from assms(1) obtain hdr where hdr: "build_request_header uuid flow command address port = Inr hdr"
    and out: "out = \<lparr>vo_header = Some hdr, vo_writer = vision_writer_new uuid\<rparr>"
    by (auto simp: vless_out_new_def rbind_eq_Inr)
  have "length hdr < 2 ^ 12" "request_header_len (hdr @ p) = Inr (length hdr)" for p
    using built_header_short [OF hdr assms(2)] built_header_len [OF hdr assms(2)] assms(3,4) by fastforce+
  moreover have "parse_request_header (hdr @ []) = Inr \<lparr>pr_uuid = uuid, pr_flow = flow_seen flow, pr_command = command,
      pr_address = (if command = CMD_MUX then Domain mux_cool else address),
      pr_port = (if command = CMD_MUX then 0 else port)\<rparr>"
    using parse_built_header [OF hdr assms(2)] assms(3,4) by blast
  ultimately show "header_pending out s" "vo_writer out = vision_writer_new uuid"
    using assms(5,6) by (simp_all add: header_pending_def out)
qed

lemma fresh_exchange:
  assumes "crypto_ok c" "linked hs s" "ss_seq_in s = 0" "ss_seq_out s = 0" "ss_uuid s = Some uuid"
    "ss_reader s = Some (vision_reader_new uuid)" "ss_writer s = Some (vision_writer_new uuid)" "ss_request s = None"
    "vless_out_new uuid flow command address port = Inr out" "length uuid = 16"
    "\<forall>name. flow = Some name \<longrightarrow> length name < 256 \<and> utf8_valid name" "address_ok address"
  shows "exchange_synced c hs (out, 0, s) (vless_in_new uuid, 0)"
  using assms fresh_header [OF assms(9-12,5,8)] synced_new [OF assms(10)]
  by (simp add: exchange_synced_def reply_synced_def vless_in_new_def) (simp add: vision_writer_new_def)

end
