(* ===== verification/Duplex.thy ===== *)
theory Duplex
  imports TestServer
begin

text \<open>
  The two directions of a connection between the pump and the honest server, each as a sender, a
  receiver and what they agree on.  \<open>up_send\<close> is what the outbound thread does with a packet (wrap and
  seal), \<open>server_hear\<close> the receiving half of \<open>server_record\<close>; \<open>down_send\<close> is its answering half,
  \<open>down_recv\<close> what the inbound thread does with a frame (open and unwrap).  Both pairs interpret
  \<open>paired_stream\<close>, in the raw mode (no VLESS) and with VLESS; a turn of the server moves a packet from the
  queue of the one to the queue of the other (\<open>turn_step\<close>).
\<close>

section \<open>The two directions\<close>

type_synonym up_state = "vless_out option \<times> u64"
type_synonym down_state = "bool \<times> vision_writer option \<times> u64"
type_synonym packet_msg = "bytes \<times> (nat \<Rightarrow> u64)"

definition up_wrap :: "vless_out option \<Rightarrow> packet_msg \<Rightarrow> bytes \<times> vless_out option" where
  "up_wrap v m = (case v of None \<Rightarrow> (fst m, None)
     | Some v \<Rightarrow> (case wrap v (fst m) (snd m) of (wrapped, v') \<Rightarrow> (wrapped, Some v')))"

definition up_send :: "crypto \<Rightarrow> handshake_state \<Rightarrow> up_state \<Rightarrow> packet_msg \<Rightarrow> bytes \<times> up_state" where
  "up_send c hs w m =
     (case w of (v, seq) \<Rightarrow> (case up_wrap v m of (wrapped, v') \<Rightarrow>
        ((case seal_record c hs seq wrapped of Inr ct \<Rightarrow> ct | Inl _ \<Rightarrow> []), v', seq + 1)))"

definition server_open :: "crypto \<Rightarrow> bytes \<Rightarrow> server_session \<Rightarrow> (server_error, bytes \<times> server_session) result" where
  "server_open c frame s =
     rbind (ok_or RecordNotOpened (aes256_decrypt c (ss_recv_key s)
              (derive_nonce c (ss_sid s) (ss_seq_in s) Client NONCE_PURPOSE_DATA) frame [])) (\<lambda>opened.
     rbind (u64_inc (ss_seq_in s)) (\<lambda>seq_in.
       case (ss_reader s, ss_writer s) of
         (Some rd, Some wr) \<Rightarrow>
           (case unpad rd opened of
              (Inl e, rd) \<Rightarrow> map_err VisionUnpad (Inl e)
            | (Inr unpadded, rd) \<Rightarrow> server_payload unpadded (s\<lparr>ss_seq_in := seq_in, ss_reader := Some rd\<rparr>))
       | _ \<Rightarrow> Inr (opened, s\<lparr>ss_seq_in := seq_in\<rparr>)))"

text \<open>The packet without the response header that will precede the first answer.\<close>

definition answers_first :: "server_session \<Rightarrow> bool" where
  "answers_first s \<longleftrightarrow> ss_request s = None \<and> ss_reader s \<noteq> None \<and> ss_writer s \<noteq> None"

definition server_hear :: "crypto \<Rightarrow> server_session \<Rightarrow> bytes \<Rightarrow> (server_error, bytes) result \<times> server_session" where
  "server_hear c s frame =
     (case server_open c frame s of
        Inl e \<Rightarrow> (Inl e, s)
      | Inr (p, s') \<Rightarrow> (Inr (if answers_first s then drop (length build_response_header) p else p), s'))"

definition down_pad :: "bool \<times> vision_writer option \<Rightarrow> packet_msg \<Rightarrow> bytes \<times> bool \<times> vision_writer option" where
  "down_pad d m =
     (case d of (first, None) \<Rightarrow> (fst m, first, None)
      | (first, Some wr) \<Rightarrow>
          (case reply_call (first, wr) (fst m, False, True, snd m) of (out, first', wr') \<Rightarrow> (out, first', Some wr')))"

definition down_send :: "crypto \<Rightarrow> bytes \<Rightarrow> bytes \<Rightarrow> down_state \<Rightarrow> packet_msg \<Rightarrow> bytes \<times> down_state" where
  "down_send c sid key d m =
     (case d of (first, wr, seq) \<Rightarrow> (case down_pad (first, wr) m of (out, first', wr') \<Rightarrow>
        ((case aes256_encrypt c key (derive_nonce c sid seq Server NONCE_PURPOSE_DATA) out [] of
            Some ct \<Rightarrow> ct | None \<Rightarrow> []), first', wr', seq + 1)))"

definition down_recv ::
    "crypto \<Rightarrow> handshake_state \<Rightarrow> vless_in option \<times> u64 \<Rightarrow> bytes \<Rightarrow>
     (deliver_error, bytes) result \<times> vless_in option \<times> u64" where
  "down_recv c hs r f =
     (case r of (v, seq) \<Rightarrow>
        (case open_record c hs seq f of
           Inl e \<Rightarrow> (map_err NotOpened (Inl e), v, seq)
         | Inr pt \<Rightarrow>
             (case v of
                None \<Rightarrow> (Inr pt, None, seq + 1)
              | Some v \<Rightarrow> (case unwrap v pt of (x, v') \<Rightarrow> (map_err NotUnwrapped x, Some v', seq + 1)))))"

text \<open>What the ends agree on, and which messages fit: packets up to 60000 bytes always make a frame.\<close>

definition up_synced :: "crypto \<Rightarrow> handshake_state \<Rightarrow> up_state \<Rightarrow> server_session \<Rightarrow> bool" where
  "up_synced c hs w s \<longleftrightarrow>
     (case w of (v, seq) \<Rightarrow> crypto_ok c \<and> linked hs s \<and> ss_seq_in s = seq \<and>
        (case v of
           None \<Rightarrow> ss_reader s = None \<and> ss_writer s = None
         | Some v \<Rightarrow> header_pending v s \<and> (\<forall>u. vw_uuid (vo_writer v) = Some u \<longrightarrow> length u = 16) \<and>
             (\<exists>rd. ss_reader s = Some rd \<and> vision_synced (vo_writer v) rd) \<and> ss_writer s \<noteq> None))"

definition up_ok :: "up_state \<Rightarrow> packet_msg \<Rightarrow> bool" where
  "up_ok w m \<longleftrightarrow> length (fst m) \<le> 60000 \<and> snd w \<noteq> -1"

definition down_synced :: "crypto \<Rightarrow> handshake_state \<Rightarrow> bytes \<Rightarrow> bytes \<Rightarrow> down_state \<Rightarrow> vless_in option \<times> u64 \<Rightarrow> bool" where
  "down_synced c hs sid key d r \<longleftrightarrow>
     (case (d, r) of ((first, wr, seq), vi, seq') \<Rightarrow>
        crypto_ok c \<and> sealed_session_id hs = sid \<and> (\<exists>k. hs_record_keys hs = Some \<lparr>send_key = k, recv_key = key\<rparr>) \<and>
        seq' = seq \<and>
        (case (wr, vi) of
           (None, None) \<Rightarrow> True
         | (Some wr, Some vi) \<Rightarrow> reply_synced (first, wr) vi \<and> (\<forall>u. vw_uuid wr = Some u \<longrightarrow> length u = 16)
         | _ \<Rightarrow> False))"

definition down_ok :: "down_state \<Rightarrow> packet_msg \<Rightarrow> bool" where
  "down_ok d m \<longleftrightarrow> length (fst m) \<le> 60000"

definition down_of :: "server_session \<Rightarrow> down_state" where
  "down_of s = (answers_first s, ss_writer s, ss_seq_out s)"

definition frame_ok :: "bytes \<Rightarrow> bool" where
  "frame_ok f \<longleftrightarrow> f \<noteq> [] \<and> length f \<le> MAX_FRAME_LEN"

section \<open>The way up\<close>

lemma header_pending_frame:
  "header_pending v s \<Longrightarrow> ss_request s' = ss_request s \<Longrightarrow> ss_uuid s' = ss_uuid s \<Longrightarrow> header_pending v s'"
  by (cases "vo_header v") (simp_all add: header_pending_def)

lemma wrap_length:
  assumes "header_pending v s" "\<forall>u. vw_uuid (vo_writer v) = Some u \<longrightarrow> length u = 16" "length p \<le> 60000"
  shows "length (fst (wrap v p rnd)) \<le> 65056"
proof -
  have "length (wrap_content v (p, rnd)) < 64096"
    using assms(1,3) by (auto simp: wrap_content_def header_pending_def split: option.splits)
  then have "length (wrap_content v (p, rnd)) div MAX_FRAME_BODY \<le> 64095 div MAX_FRAME_BODY"
    by (intro div_le_mono) simp
  then show ?thesis
    using length_pad_frames [of "vo_writer v" "wrap_content v (p, rnd)" "vo_header v \<noteq> None" "vo_header v \<noteq> None" rnd] assms(2)
    by (simp add: wrap_conv max_frame_body)
qed

lemma up_step_raw:
  assumes "up_synced c hs (None, seq) s" "length p \<le> 60000" "seq \<noteq> -1"
  shows "\<exists>ct s'. up_send c hs (None, seq) (p, rnd) = (ct, None, seq + 1) \<and> seal_record c hs seq p = Inr ct \<and>
    frame_ok ct \<and> server_hear c s ct = (Inr p, s') \<and> up_synced c hs (None, seq + 1) s' \<and>
    s' = s\<lparr>ss_seq_in := seq + 1\<rparr>"
proof -
  have c: "crypto_ok c" "aead_exact c" "linked hs s" "ss_seq_in s = seq" "ss_reader s = None" "ss_writer s = None"
    using assms(1) by (auto simp: up_synced_def crypto_ok_def)
  obtain ct where ct: "seal_record c hs seq p = Inr ct" "length ct = length p + 16"
    "aes256_decrypt c (ss_recv_key s) (derive_nonce c (ss_sid s) seq Client NONCE_PURPOSE_DATA) ct [] = Some p"
    using seal_record_some [OF c(2), of p hs _ seq] c(3) assms(2) by (auto simp: linked_def)
  then have "server_hear c s ct = (Inr p, s\<lparr>ss_seq_in := seq + 1\<rparr>)"
    using c assms(3) by (simp add: server_hear_def server_open_def u64_inc_def answers_first_def)
  then show ?thesis
    using c ct assms(2)
    by (auto simp: up_send_def up_wrap_def up_synced_def frame_ok_def MAX_FRAME_LEN_def linked_def)
qed

lemma up_step_vless:
  assumes "up_synced c hs (Some v, seq) s" "length p \<le> 60000" "seq \<noteq> -1"
  shows "\<exists>ct v' s'. up_send c hs (Some v, seq) (p, rnd) = (ct, Some v', seq + 1) \<and>
    seal_record c hs seq (fst (wrap v p rnd)) = Inr ct \<and> v' = snd (wrap v p rnd) \<and> frame_ok ct \<and>
    server_open c ct s = Inr ((if ss_request s = None then build_response_header else []) @ p, s') \<and>
    up_synced c hs (Some v', seq + 1) s' \<and> ss_request s' \<noteq> None \<and> ss_writer s' = ss_writer s \<and>
    ss_seq_out s' = ss_seq_out s \<and>
    (\<exists>n rd'. server_payload (wrap_content v (p, rnd)) (s\<lparr>ss_seq_in := n, ss_reader := Some rd'\<rparr>) =
       Inr ((if ss_request s = None then build_response_header else []) @ p, s'))"
proof -
  obtain rd where c: "crypto_ok c" "aead_exact c" "linked hs s" "ss_seq_in s = seq" "ss_reader s = Some rd" "ss_writer s \<noteq> None"
    and v: "header_pending v s" "\<forall>u. vw_uuid (vo_writer v) = Some u \<longrightarrow> length u = 16" "vision_synced (vo_writer v) rd"
    using assms(1) by (auto simp: up_synced_def crypto_ok_def)
  have "length p < 2 ^ 18" using assms(2) by simp
  then obtain wrapped v' rd' ct where w: "wrap v p rnd = (wrapped, v')" "seal_record c hs seq wrapped = Inr ct" "ct \<noteq> []"
    "aes256_decrypt c (ss_recv_key s) (derive_nonce c (ss_sid s) seq Client NONCE_PURPOSE_DATA) ct [] = Some wrapped"
    "unpad rd wrapped = (Inr (wrap_content v (p, rnd)), rd')" "vision_synced (vo_writer v') rd'"
    "vo_header v' = None" "\<forall>u. vw_uuid (vo_writer v') = Some u \<longrightarrow> length u = 16"
    using request_record [OF c(2,3) v] by metis
  have short: "length wrapped \<le> 65056"
    using wrap_length [OF v(1,2) assms(2), of rnd] w(1) by simp
  obtain ct' where "seal_record c hs seq wrapped = Inr ct'" "length ct' = length wrapped + 16"
    using seal_record_some [OF c(2), of wrapped hs _ seq] c(3) short by (auto simp: linked_def)
  with w(2,3) short have f: "frame_ok ct"
    by (simp add: frame_ok_def MAX_FRAME_LEN_def)
  let ?s = "s\<lparr>ss_seq_in := seq + 1, ss_reader := Some rd'\<rparr>"
  have "header_pending v ?s"
    by (rule header_pending_frame [OF v(1)]) simp_all
  from server_payload_step [OF this, of p rnd] obtain s' where s':
    "server_payload (wrap_content v (p, rnd)) ?s = Inr ((if ss_request s = None then build_response_header else []) @ p, s')"
    "ss_request s' \<noteq> None" "ss_sid s' = ss_sid s" "ss_recv_key s' = ss_recv_key s" "ss_send_key s' = ss_send_key s"
    "ss_seq_in s' = seq + 1" "ss_seq_out s' = ss_seq_out s" "ss_reader s' = Some rd'" "ss_writer s' = ss_writer s"
    by auto
  have "server_open c ct s = Inr ((if ss_request s = None then build_response_header else []) @ p, s')"
    using c w s'(1) assms(3) by (auto simp: server_open_def u64_inc_def)
  then show ?thesis
    using c w s' f
    by (intro exI [of _ ct] exI [of _ v'] exI [of _ s'])
      (auto intro!: exI [of _ "seq + 1"] exI [of _ rd'] simp: up_send_def up_wrap_def up_synced_def linked_def header_pending_def)
qed

lemma up_step:
  assumes "up_synced c hs w s" "up_ok w m"
  shows "\<exists>s'. server_hear c s (fst (up_send c hs w m)) = (Inr (fst m), s') \<and>
    up_synced c hs (snd (up_send c hs w m)) s'"
proof -
  obtain v seq p rnd where w: "w = (v, seq)" and m: "m = (p, rnd)"
    by (cases w; cases m)
  have ok: "length p \<le> 60000" "seq \<noteq> -1"
    using assms(2) by (simp_all add: up_ok_def w m)
  show ?thesis
  proof (cases v)
    case None
    with up_step_raw [OF _ ok, of c hs s rnd] assms(1) show ?thesis
      by (auto simp: w m)
  next
    case (Some x)
    then have x: "up_synced c hs (Some x, seq) s" "ss_reader s \<noteq> None" "ss_writer s \<noteq> None"
      using assms(1) by (auto simp: w up_synced_def)
    from up_step_vless [OF x(1) ok, of rnd] show ?thesis
      using Some x(2,3) by (auto simp: w m server_hear_def answers_first_def)
  qed
qed

lemma up_seals:
  assumes "up_synced c hs w s" "up_ok w m"
  shows "seal_record c hs (snd w) (fst (up_wrap (fst w) m)) = Inr (fst (up_send c hs w m))"
    "frame_ok (fst (up_send c hs w m))" "snd (up_send c hs w m) = (snd (up_wrap (fst w) m), snd w + 1)"
proof -
  obtain v seq p rnd where w: "w = (v, seq)" and m: "m = (p, rnd)"
    by (cases w; cases m)
  have ok: "length p \<le> 60000" "seq \<noteq> -1"
    using assms(2) by (simp_all add: up_ok_def w m)
  have "\<exists>ct. up_send c hs w m = (ct, snd (up_wrap v m), seq + 1) \<and> seal_record c hs seq (fst (up_wrap v m)) = Inr ct \<and> frame_ok ct"
  proof (cases v)
    case None
    with up_step_raw [OF _ ok, of c hs s rnd] assms(1) show ?thesis
      by (auto simp: w m up_wrap_def)
  next
    case (Some x)
    with up_step_vless [OF _ ok, of c hs x s rnd] assms(1) show ?thesis
      by (auto simp: w m up_wrap_def case_prod_beta)
  qed
  then show "seal_record c hs (snd w) (fst (up_wrap (fst w) m)) = Inr (fst (up_send c hs w m))"
    "frame_ok (fst (up_send c hs w m))" "snd (up_send c hs w m) = (snd (up_wrap (fst w) m), snd w + 1)"
    by (auto simp: w)
qed

interpretation uplink: paired_stream "up_send c hs" "server_hear c" "\<lambda>_. fst" "up_synced c hs" up_ok
  by unfold_locales (rule up_step)

section \<open>The way down\<close>

lemma down_pad_length:
  assumes "\<forall>w u. wr = Some w \<longrightarrow> vw_uuid w = Some u \<longrightarrow> length u = 16" "length p \<le> 60000"
  shows "length (fst (down_pad (first, wr) (p, rnd))) \<le> 65056"
proof (cases wr)
  case None
  with assms(2) show ?thesis by (simp add: down_pad_def)
next
  case (Some w)
  let ?x = "(if first then build_response_header else []) @ p"
  have "length ?x div MAX_FRAME_BODY \<le> 60004 div MAX_FRAME_BODY"
    using assms(2) by (intro div_le_mono) (simp add: build_response_header_def)
  then show ?thesis
    using length_pad_frames [of w ?x False True rnd] assms(1) Some
    by (auto simp: down_pad_def reply_call_def max_frame_body case_prod_beta split: if_splits)
qed

lemma down_step:
  assumes "down_synced c hs sid key d r" "down_ok d m"
  shows "\<exists>r'. down_recv c hs r (fst (down_send c sid key d m)) = (Inr (fst m), r') \<and>
    down_synced c hs sid key (snd (down_send c sid key d m)) r'"
    "\<exists>ct. aes256_encrypt c key (derive_nonce c sid (snd (snd d)) Server NONCE_PURPOSE_DATA)
      (fst (down_pad (fst d, fst (snd d)) m)) [] = Some ct \<and> fst (down_send c sid key d m) = ct \<and> frame_ok ct"
proof -
  obtain first wr seq vi p rnd where d: "d = (first, wr, seq)" and r: "r = (vi, seq)" and m: "m = (p, rnd)"
    using assms(1) by (cases d; cases r; cases m) (auto simp: down_synced_def)
  obtain k where c: "crypto_ok c" "aead_exact c" "sealed_session_id hs = sid" "hs_record_keys hs = Some \<lparr>send_key = k, recv_key = key\<rparr>"
    using assms(1) by (auto simp: down_synced_def crypto_ok_def d r)
  have wr: "\<forall>w u. wr = Some w \<longrightarrow> vw_uuid w = Some u \<longrightarrow> length u = 16"
    using assms(1) by (auto simp: down_synced_def d r split: option.splits)
  have p: "length p \<le> 60000"
    using assms(2) by (simp add: down_ok_def m)
  obtain out first' wr' where out: "down_pad (first, wr) (p, rnd) = (out, first', wr')"
    by (cases "down_pad (first, wr) (p, rnd)")
  have short: "length out \<le> 65056"
    using down_pad_length [OF wr p, of first rnd] out by simp
  obtain ct where ct: "aes256_encrypt c key (derive_nonce c sid seq Server NONCE_PURPOSE_DATA) out [] = Some ct"
    "length ct = length out + 16" "aes256_decrypt c key (derive_nonce c sid seq Server NONCE_PURPOSE_DATA) ct [] = Some out"
    by (rule encrypt_some [OF c(2), of out key "derive_nonce c sid seq Server NONCE_PURPOSE_DATA" "[]"])
       (use short in simp_all)
  have send: "down_send c sid key d m = (ct, first', wr', seq + 1)"
    using out ct(1) by (simp add: down_send_def d m)
  have opened: "open_record c hs seq ct = Inr out"
    using ct(3) c by (simp add: open_record_def hs_keys_def)
  show "\<exists>ct. aes256_encrypt c key (derive_nonce c sid (snd (snd d)) Server NONCE_PURPOSE_DATA)
      (fst (down_pad (fst d, fst (snd d)) m)) [] = Some ct \<and> fst (down_send c sid key d m) = ct \<and> frame_ok ct"
    unfolding send using ct(1,2) short out by (auto simp: d m frame_ok_def MAX_FRAME_LEN_def)
  show "\<exists>r'. down_recv c hs r (fst (down_send c sid key d m)) = (Inr (fst m), r') \<and>
    down_synced c hs sid key (snd (down_send c sid key d m)) r'"
  proof (cases wr)
    case None
    then have "vi = None" "out = p" "first' = first" "wr' = None"
      using assms(1) out by (auto simp: down_synced_def d r down_pad_def split: option.splits)
    then show ?thesis
      using opened c unfolding send r by (simp add: down_recv_def m down_synced_def)
  next
    case (Some w)
    then obtain v where v: "vi = Some v" "reply_synced (first, w) v" "\<forall>u. vw_uuid w = Some u \<longrightarrow> length u = 16"
      using assms(1) by (auto simp: down_synced_def d r split: option.splits)
    obtain w' where w': "reply_call (first, w) (p, False, True, rnd) = (out, first', w')" "wr' = Some w'"
      using out Some by (auto simp: down_pad_def split: prod.splits)
    obtain v' where v': "unwrap v out = (Inr p, v')" "reply_synced (first', w') v'"
      using replies.step [OF v(2), of "(p, False, True, rnd)"] w'(1) by auto
    have "\<forall>u. vw_uuid w' = Some u \<longrightarrow> length u = 16"
      using pad_uuid [OF v(3), of "(if first then build_response_header else []) @ p" False True rnd] w'(1)
      by (auto simp: reply_call_def split: prod.splits)
    with opened c v(1) v' w'(2) show ?thesis
      unfolding send r by (simp add: down_recv_def m down_synced_def)
  qed
qed

interpretation downlink: paired_stream "down_send c sid key" "down_recv c hs" "\<lambda>_. fst" "down_synced c hs sid key" down_ok
  by unfold_locales (rule down_step(1))

section \<open>A turn of the server\<close>

lemma server_payload_frame:
  "server_payload u s = Inr (p, s') \<Longrightarrow>
     ss_writer s' = ss_writer s \<and> ss_seq_out s' = ss_seq_out s \<and> ss_sid s' = ss_sid s \<and> ss_send_key s' = ss_send_key s \<and>
     ss_reader s' = ss_reader s \<and> ss_request s' \<noteq> None \<and> (ss_request s = None \<longrightarrow> (\<exists>x. p = build_response_header @ x))"
  by (auto simp: server_payload_def Let_def rbind_eq_Inr split: option.splits if_splits)

lemma server_open_cases:
  assumes "server_open c f s = Inr (p, s')" "ss_reader s = None \<longleftrightarrow> ss_writer s = None"
  obtains (raw) n where "ss_writer s = None" "ss_reader s = None" "s' = s\<lparr>ss_seq_in := n\<rparr>"
    | (vless) n wr rd rd' u where "ss_writer s = Some wr" "ss_reader s = Some rd"
        "server_payload u (s\<lparr>ss_seq_in := n, ss_reader := Some rd'\<rparr>) = Inr (p, s')"
proof -
  obtain opened n where o: "aes256_decrypt c (ss_recv_key s) (derive_nonce c (ss_sid s) (ss_seq_in s) Client NONCE_PURPOSE_DATA) f [] = Some opened"
    "u64_inc (ss_seq_in s) = (Inr n :: (server_error, u64) result)"
    using assms(1) by (auto simp: server_open_def rbind_eq_Inr)
  show thesis
  proof (cases "ss_writer s")
    case None
    with assms o show thesis
      by (intro raw [of n]) (auto simp: server_open_def)
  next
    case (Some wr)
    then obtain rd where rd: "ss_reader s = Some rd"
      using assms(2) by auto
    then obtain y rd' where u: "unpad rd opened = (y, rd')"
      by fastforce
    then obtain z where "y = Inr z"
      using assms(1) o Some rd by (cases y) (auto simp: server_open_def map_err_def split: fault.splits)
    with assms(1) o Some rd u show thesis
      by (intro vless) (auto simp: server_open_def)
  qed
qed

lemma server_open_frame:
  assumes "server_open c f s = Inr (p, s')" "ss_reader s = None \<longleftrightarrow> ss_writer s = None"
  shows "ss_writer s' = ss_writer s" "ss_seq_out s' = ss_seq_out s" "ss_sid s' = ss_sid s" "ss_send_key s' = ss_send_key s"
    "\<not> answers_first s'" "answers_first s \<Longrightarrow> \<exists>x. p = build_response_header @ x"
  using assms
  by (cases rule: server_open_cases [OF assms]; auto simp: answers_first_def dest!: server_payload_frame)+

lemma server_record_open:
  assumes "server_open c f s = Inr (p, s')" "f \<noteq> []" "ss_reader s = None \<longleftrightarrow> ss_writer s = None"
  shows "server_record c f rnd s =
    rbind (case ss_writer s of
        None \<Rightarrow> Inr (p, s')
      | Some wr \<Rightarrow> (case pad wr p False True rnd of (out, wr') \<Rightarrow> Inr (out, s'\<lparr>ss_writer := Some wr'\<rparr>))) (\<lambda>(reply, s).
    rbind (ok_or ResealFailed (aes256_encrypt c (ss_send_key s)
                (derive_nonce c (ss_sid s) (ss_seq_out s) Server NONCE_PURPOSE_DATA) reply [])) (\<lambda>resealed.
    rbind (u64_inc (ss_seq_out s)) (\<lambda>seq_out.
      Inr (Some resealed, s\<lparr>ss_seq_out := seq_out\<rparr>))))"
proof -
  obtain opened seq where o: "aes256_decrypt c (ss_recv_key s) (derive_nonce c (ss_sid s) (ss_seq_in s) Client NONCE_PURPOSE_DATA) f [] = Some opened"
    "u64_inc (ss_seq_in s) = (Inr seq :: (server_error, u64) result)"
    using assms(1) by (auto simp: server_open_def rbind_eq_Inr)
  show ?thesis
  proof (cases "ss_writer s")
    case None
    with assms o show ?thesis
      by (auto simp: server_record_def server_open_def server_reply_def)
  next
    case (Some wr)
    then obtain rd where rd: "ss_reader s = Some rd"
      using assms(3) by auto
    obtain u rd' where u: "unpad rd opened = (Inr u, rd')"
      "server_payload u (s\<lparr>ss_seq_in := seq, ss_reader := Some rd'\<rparr>) = Inr (p, s')"
      using assms(1) o Some rd
      by (cases "unpad rd opened"; cases "fst (unpad rd opened)") (auto simp: server_open_def map_err_def split: fault.splits)
    with o Some rd assms(2) server_payload_frame [OF u(2)] show ?thesis
      by (simp add: server_record_def server_reply_def)
  qed
qed

abbreviation going_up where
  "going_up c hs \<equiv> in_transit (up_send c hs) (\<lambda>_. fst) (up_synced c hs) up_ok"

abbreviation going_down where
  "going_down c hs s \<equiv> in_transit (down_send c (ss_sid s) (ss_send_key s)) (\<lambda>_. fst)
     (down_synced c hs (ss_sid s) (ss_send_key s)) down_ok"

lemma up_synced_modes: "up_synced c hs w s \<Longrightarrow> ss_reader s = None \<longleftrightarrow> ss_writer s = None"
  by (auto simp: up_synced_def split: option.splits)

lemma up_synced_answer:
  "up_synced c hs w s \<Longrightarrow> (wr = None \<longleftrightarrow> ss_writer s = None) \<Longrightarrow> up_synced c hs w (s\<lparr>ss_writer := wr, ss_seq_out := n\<rparr>)"
  by (cases w; cases "fst w")
     (auto simp: up_synced_def linked_def intro: header_pending_frame)

lemma going_up_modes: "going_up c hs w fs xs s \<Longrightarrow> ss_reader s = None \<longleftrightarrow> ss_writer s = None"
  unfolding in_transit_def by (metis up_synced_modes)

lemma turn_step:
  assumes "going_up c hs w (f # ups) xs s" "going_down c hs s (down_of s) downs ys r" "frame_ok f"
    "\<forall>x \<in> set xs. length x \<le> 60000" "ss_seq_out s \<noteq> -1"
  shows "\<exists>x xs' g s'. xs = x # xs' \<and> server_record c f rnd s = Inr (Some g, s') \<and> frame_ok g \<and>
    going_up c hs w ups xs' s' \<and> going_down c hs s' (down_of s') (downs @ [g]) (ys @ [x]) r \<and>
    ss_seq_out s' = ss_seq_out s + 1"
proof -
  obtain x xs' s1 where x: "xs = x # xs'" "server_hear c s f = (Inr x, s1)" "going_up c hs w ups xs' s1"
    using uplink.receive [OF assms(1)] by blast
  note modes = going_up_modes [OF assms(1)]
  obtain p where p: "server_open c f s = Inr (p, s1)" "x = (if answers_first s then drop (length build_response_header) p else p)"
    using x(2) by (auto simp: server_hear_def split: sum.splits prod.splits)
  note fr = server_open_frame [OF p(1) modes]
  have px: "p = (if answers_first s then build_response_header else []) @ x"
    using fr(6) p(2) by auto
  have short: "down_ok (down_of s) (x, rnd)"
    using assms(4) x(1) by (simp add: down_ok_def)
  obtain r0 where "down_synced c hs (ss_sid s) (ss_send_key s) (down_of s) r0"
    using downlink.catch_up [OF assms(2)] by blast
  from down_step(2) [OF this short] obtain g where
    g: "aes256_encrypt c (ss_send_key s) (derive_nonce c (ss_sid s) (ss_seq_out s) Server NONCE_PURPOSE_DATA)
        (fst (down_pad (answers_first s, ss_writer s) (x, rnd))) [] = Some g"
      "fst (down_send c (ss_sid s) (ss_send_key s) (down_of s) (x, rnd)) = g" "frame_ok g"
    by (auto simp: down_of_def)
  define wr where "wr = snd (snd (down_pad (answers_first s, ss_writer s) (x, rnd)))"
  let ?s = "s1\<lparr>ss_writer := wr, ss_seq_out := ss_seq_out s + 1\<rparr>"
  have same: "wr = None \<longleftrightarrow> ss_writer s1 = None"
    using fr(1) by (auto simp: wr_def down_pad_def split: option.splits prod.splits)
  have rec: "server_record c f rnd s = Inr (Some g, ?s)"
  proof (cases "ss_writer s")
    case None
    with modes have "p = x" "wr = None"
      using px by (simp_all add: answers_first_def wr_def down_pad_def)
    with None g(1) fr(1-4) assms(3,5) modes show ?thesis
      by (simp add: server_record_open [OF p(1)] frame_ok_def u64_inc_def down_pad_def)
  next
    case (Some w1)
    obtain out w2 where "pad w1 p False True rnd = (out, w2)"
      by fastforce
    with Some g(1) fr(1-4) assms(3,5) modes px show ?thesis
      by (simp add: server_record_open [OF p(1)] frame_ok_def u64_inc_def down_pad_def reply_call_def wr_def)
  qed
  have "snd (down_send c (ss_sid s) (ss_send_key s) (down_of s) (x, rnd)) = down_of ?s"
    using fr(1,5) same
    by (auto simp: down_send_def down_of_def wr_def answers_first_def down_pad_def reply_call_def case_prod_beta split: option.splits)
  then have "going_down c hs ?s (down_of ?s) (downs @ [g]) (ys @ [x]) r"
    using in_transit_send [OF assms(2) short] g(2) fr(3,4) by simp
  moreover have "going_up c hs w ups xs' ?s"
    by (rule in_transit_weaken [OF x(3)]) (rule up_synced_answer [OF _ same])
  ultimately show ?thesis
    using x(1) rec g(3) by (intro exI [of _ x] exI [of _ xs'] exI [of _ g] exI [of _ ?s]) simp
qed

lemma server_record_request:
  assumes "server_record c f rnd s = Inr (Some g, s')" "server_open c f s = Inr (p, s1)" "f \<noteq> []"
    "ss_reader s = None \<longleftrightarrow> ss_writer s = None"
  shows "ss_request s' = ss_request s1" "ss_payload_bytes s' = ss_payload_bytes s1"
  using assms(1) unfolding server_record_open [OF assms(2-4)]
  by (auto simp: rbind_eq_Inr split: option.splits prod.splits)

end
