(* ===== verification/ServerRun.thy ===== *)
theory ServerRun
  imports Duplex
begin

text \<open>
  The record loop of the honest server over a whole connection: what \<open>server_loop\<close> answers to the records
  of a client, and what the server has observed at the end.
\<close>

section \<open>What a turn observes\<close>

definition observed :: "parsed_request \<Rightarrow> nat \<Rightarrow> vless_observed" where
  "observed req n = \<lparr>vo_uuid = pr_uuid req, vo_flow = pr_flow req, vo_command = pr_command req,
     vo_address = pr_address req, vo_port = pr_port req, vo_payload_bytes = n\<rparr>"

definition counted :: "server_session \<Rightarrow> bool" where
  "counted s \<longleftrightarrow> (case ss_request s of None \<Rightarrow> ss_payload_bytes s = 0 | Some v \<Rightarrow> vo_payload_bytes v = ss_payload_bytes s)"

text \<open>The observation after payloads of \<open>n\<close> bytes from a client in state \<open>w\<close>: nothing in raw mode; with VLESS
  the request of the header that is still to come, or has come.\<close>

definition observation :: "up_state \<Rightarrow> server_session \<Rightarrow> nat \<Rightarrow> vless_observed option" where
  "observation w s n =
     (case fst w of
        None \<Rightarrow> ss_request s
      | Some v \<Rightarrow>
          (case ss_request s of
             Some q \<Rightarrow> Some (q\<lparr>vo_payload_bytes := vo_payload_bytes q + n\<rparr>)
           | None \<Rightarrow>
               (case vo_header v of
                  None \<Rightarrow> None
                | Some hdr \<Rightarrow> (case parse_request_header hdr of Inr req \<Rightarrow> Some (observed req n) | Inl _ \<Rightarrow> None))))"

lemma payload_observes:
  assumes "server_payload (wrap_content v (p, rnd)) s = Inr (x, s')" "header_pending v s" "counted s"
  shows "ss_request s' = observation (Some v, seq) s (length p)" "counted s'"
proof -
  have "ss_request s' = observation (Some v, seq) s (length p) \<and> counted s'"
  proof (cases "vo_header v")
    case None
    then obtain q where "ss_request s = Some q"
      using assms(2) by (auto simp: header_pending_def)
    with None assms show ?thesis
      by (auto simp: observation_def counted_def server_payload_def wrap_content_def Let_def)
  next
    case (Some hdr)
    then obtain req where "parse_request_header hdr = Inr req" "ss_request s = None" "request_header_len (hdr @ p) = Inr (length hdr)"
      using assms(2) by (auto simp: header_pending_def)
    with Some assms show ?thesis
      by (auto simp: observation_def counted_def observed_def server_payload_def wrap_content_def slice_def Let_def
          split: if_splits)
  qed
  then show "ss_request s' = observation (Some v, seq) s (length p)" "counted s'"
    by simp_all
qed

lemma counted_frame: "ss_request s' = ss_request s \<Longrightarrow> ss_payload_bytes s' = ss_payload_bytes s \<Longrightarrow> counted s' = counted s"
  by (simp add: counted_def split: option.split)

lemma observation_frame: "ss_request s' = ss_request s \<Longrightarrow> observation w s' n = observation w s n"
  by (simp add: observation_def split: option.split)

lemma open_observes:
  assumes "up_synced c hs w s" "up_ok w m" "counted s"
  shows "\<exists>p s1. server_open c (fst (up_send c hs w m)) s = Inr (p, s1) \<and> ss_request s1 = observation w s (length (fst m)) \<and> counted s1"
proof -
  obtain v seq p rnd where w: "w = (v, seq)" and m: "m = (p, rnd)"
    by (cases w; cases m)
  have ok: "length p \<le> 60000" "seq \<noteq> -1"
    using assms(2) by (simp_all add: up_ok_def w m)
  show ?thesis
  proof (cases v)
    case None
    then have raw: "up_synced c hs (None, seq) s" "ss_reader s = None \<longleftrightarrow> ss_writer s = None" "ss_reader s = None"
      using assms(1) by (auto simp: w up_synced_def)
    obtain ct s1 where ct: "fst (up_send c hs w m) = ct" "server_hear c s ct = (Inr p, s1)" "s1 = s\<lparr>ss_seq_in := seq + 1\<rparr>"
      using up_step_raw [OF raw(1) ok, of rnd] None by (auto simp: w m)
    then have "server_open c ct s = Inr (p, s1)"
      using raw(2,3) by (auto simp: server_hear_def answers_first_def split: sum.splits)
    moreover have "counted s1"
      using assms(3) counted_frame [of s1 s] ct(3) by simp
    ultimately show ?thesis
      using ct None by (auto simp: w observation_def)
  next
    case (Some x)
    then have x: "up_synced c hs (Some x, seq) s" "header_pending x s"
      using assms(1) by (auto simp: w up_synced_def)
    obtain ct s1 y n rd' where ct: "fst (up_send c hs w m) = ct" "server_open c ct s = Inr (y, s1)"
      "server_payload (wrap_content x (p, rnd)) (s\<lparr>ss_seq_in := n, ss_reader := Some rd'\<rparr>) = Inr (y, s1)"
      using up_step_vless [OF x(1) ok, of rnd] Some by (auto simp: w m)
    let ?s = "s\<lparr>ss_seq_in := n, ss_reader := Some rd'\<rparr>"
    have "header_pending x ?s" "counted ?s"
      using header_pending_frame [OF x(2), of ?s] assms(3) counted_frame [of ?s s] by simp_all
    from payload_observes(1) [OF ct(3) this, of seq] payload_observes(2) [OF ct(3) this] ct(1,2) Some show ?thesis
      by (auto simp: w m observation_def)
  qed
qed

text \<open>Payload by payload, the observation is that of their total length.\<close>

lemma observation_step:
  assumes "up_synced c hs w s" "ss_request s' = observation w s n"
  shows "observation (snd (up_send c hs w m)) s' k = observation w s (n + k)"
proof (cases "fst w")
  case None
  with assms(2) show ?thesis
    by (cases w) (simp add: observation_def up_send_def up_wrap_def)
next
  case (Some v)
  then obtain y where y: "fst (snd (up_send c hs w m)) = Some y"
    by (cases w) (simp add: up_send_def up_wrap_def case_prod_beta)
  have "header_pending v s"
    using assms(1) Some by (cases w) (simp add: up_synced_def)
  with Some y assms(2) show ?thesis
    by (cases "vo_header v") (auto simp: observation_def header_pending_def observed_def)
qed

section \<open>The loop\<close>

lemma server_turn_closed: "server_turn c rnd [] w s = (Inr False, [], w, s)"
  by (simp add: server_turn_def read_frame_empty)

lemma loop_step:
  assumes "server_turn c (rnds 0) r w s = (Inr True, r', w', s')"
  shows "server_loop c rnds r w s = server_loop c (\<lambda>k. rnds (Suc k)) r' w' s'"
  using assms by (subst server_loop.simps) simp

lemma loop_answers:
  assumes "up_synced c hs w s" "all_ok (up_send c hs) up_ok w ms" "going_down c hs s (down_of s) downs ys r"
    "unat (ss_seq_out s) + length ms < 2 ^ 64" "reliable z" "counted s"
  shows "\<exists>s' gs. server_loop c rnds (map Byte (frames_wire (send_all (up_send c hs) w ms))) z s =
      (Inr s', z\<lparr>sent := sent z @ frames_wire gs\<rparr>) \<and>
    going_down c hs s' (down_of s') (downs @ gs) (ys @ map fst ms) r \<and>
    ss_seq_out s' = ss_seq_out s + word_of_nat (length ms) \<and> length gs = length ms \<and>
    (ms = [] \<longrightarrow> s' = s) \<and> (ms \<noteq> [] \<longrightarrow> ss_request s' = observation w s (length (concat (map fst ms))))"
  using assms
proof (induction ms arbitrary: w s downs ys z rnds)
  case Nil
  have "server_loop c rnds [] z s = (Inr s, z)"
    by (subst server_loop.simps) (simp add: server_turn_closed)
  with Nil.prems(3) show ?case
    by (intro exI [of _ s] exI [of _ "[]"]) (simp add: frames_wire_def)
next
  case (Cons m ms)
  let ?f = "fst (up_send c hs w m)" and ?w = "snd (up_send c hs w m)"
  have ok: "up_ok w m" "all_ok (up_send c hs) up_ok ?w ms"
    using Cons.prems(2) by simp_all
  have room: "ss_seq_out s \<noteq> -1" "unat (ss_seq_out s + 1) + length ms < 2 ^ 64"
    using u64_room [of "ss_seq_out s" "length ms"] Cons.prems(4) by simp_all
  note f = up_seals(2) [OF Cons.prems(1) ok(1)]
  have up: "going_up c hs ?w [?f] [fst m] s"
    using in_transit_send [OF in_transit_empty [where synced = "up_synced c hs" and w = w and r = s, OF Cons.prems(1)], of up_ok m] ok(1)
    by simp
  have short: "\<forall>x \<in> set [fst m]. length x \<le> 60000"
    using ok(1) by (simp add: up_ok_def)
  obtain x g s1 where g: "fst m = x" "server_record c ?f (rnds 0) s = Inr (Some g, s1)" "frame_ok g"
    "going_up c hs ?w [] [] s1" "going_down c hs s1 (down_of s1) (downs @ [g]) (ys @ [x]) r" "ss_seq_out s1 = ss_seq_out s + 1"
    using turn_step [OF up Cons.prems(3) f short room(1), of "rnds 0"] by auto
  have sync: "up_synced c hs ?w s1"
    using in_transit_quiet [OF g(4)] by simp
  obtain p s2 where opn: "server_open c ?f s = Inr (p, s2)" "ss_request s2 = observation w s (length (fst m))" "counted s2"
    using open_observes [OF Cons.prems(1) ok(1) Cons.prems(6)] by blast
  have "?f \<noteq> []"
    using f by (simp add: frame_ok_def)
  note req = server_record_request [OF g(2) opn(1) this up_synced_modes [OF Cons.prems(1)]]
  have obs: "ss_request s1 = observation w s (length (fst m))" "counted s1"
    using opn req counted_frame [OF req] by simp_all
  let ?z = "z\<lparr>sent := sent z @ frame_wire g\<rparr>"
  have turn: "server_turn c (rnds 0) (map Byte (frames_wire (send_all (up_send c hs) w (m # ms)))) z s =
      (Inr True, map Byte (frames_wire (send_all (up_send c hs) ?w ms)), ?z, s1)"
    using f g(2,3) read_frame_wire [of ?f "map Byte (frames_wire (send_all (up_send c hs) ?w ms))"]
      write_frame_reliable [OF Cons.prems(5), of g]
    by (simp add: server_turn_def frame_ok_def frames_wire_def case_prod_beta)
  obtain s' gs where ih: "server_loop c (\<lambda>k. rnds (Suc k)) (map Byte (frames_wire (send_all (up_send c hs) ?w ms))) ?z s1 =
      (Inr s', ?z\<lparr>sent := sent ?z @ frames_wire gs\<rparr>)"
    "going_down c hs s' (down_of s') ((downs @ [g]) @ gs) ((ys @ [x]) @ map fst ms) r"
    "ss_seq_out s' = ss_seq_out s1 + word_of_nat (length ms)" "length gs = length ms"
    "ms = [] \<longrightarrow> s' = s1" "ms \<noteq> [] \<longrightarrow> ss_request s' = observation ?w s1 (length (concat (map fst ms)))"
    using Cons.IH [OF sync ok(2) g(5) _ _ obs(2), of ?z "\<lambda>k. rnds (Suc k)"] Cons.prems(5) room(2) g(6) by auto
  have "ss_request s' = observation w s (length (concat (map fst (m # ms))))"
  proof (cases "ms = []")
    case True
    with ih(5) obs(1) show ?thesis by simp
  next
    case False
    with ih(6) observation_step [OF Cons.prems(1) obs(1)] show ?thesis by simp
  qed
  moreover have "server_loop c rnds (map Byte (frames_wire (send_all (up_send c hs) w (m # ms)))) z s =
      (Inr s', z\<lparr>sent := sent z @ frames_wire (g # gs)\<rparr>)"
    using loop_step [where rnds = rnds, OF turn] ih(1) by (simp add: frames_wire_def)
  ultimately show ?case
    using ih(2-4) g(1,6) by (intro exI [of _ s'] exI [of _ "g # gs"]) simp
qed

end
