(* ===== verification/Pump.thy ===== *)
theory Pump
  imports Transport Vision Handshake
begin

text \<open>
  \<open>native/src/pump.rs\<close>: the two threads between the TUN device and the tunnel socket.

  The state of one pump is the record \<open>pump\<close>: the fields of \<open>TunnelInner\<close>, the two threads'
  local variables and liveness, the two directions of the socket and, as ghost fields, what was
  written to the TUN and which (sequence, packet) pairs were sealed.  One loop iteration of a
  thread is one function (\<open>outbound\<close>, \<open>inbound\<close>) of the state and of what the operating system
  answers (a \<open>tun_event\<close>; whether a write to the TUN succeeds; the socket's byte events in
  \<open>in_sock\<close>).  The threads interleave in any order with \<open>stop\<close>: \<open>pump_step\<close>.  Iterations are
  atomic steps, which loses nothing for the sequence counters (each is used by one thread) and
  for the statistics (mutex-protected increments); \<open>alive\<close>, \<open>halt\<close> and \<open>stop\<close> are accessed at
  most once per iteration.  The shut-down of the socket makes every later write fail and every
  later read see end of file.  Statistics counters are natural numbers.
\<close>

definition READ_BUF :: nat where [proto_defs]: "READ_BUF = 1500"

record pump_stats =
  packets_in :: nat
  packets_out :: nat
  bytes_in :: nat
  bytes_out :: nat
  delivered_packets :: nat
  delivered_bytes :: nat
  seal_errors :: nat
  open_errors :: nat
  dropped_packets :: nat

record vless_params =
  vp_uuid :: bytes
  vp_flow :: "bytes option"
  vp_command :: byte
  vp_address :: address
  vp_port :: u16

record pump_config =
  block_ipv6 :: bool
  pc_vless :: "vless_params option"

definition ip_version :: "bytes \<Rightarrow> byte" where
  "ip_version buf = (case buf of [] \<Rightarrow> 0 | b # _ \<Rightarrow> drop_bit 4 b)"

record pump =
  running :: bool
  stop_flag :: bool
  alive :: nat
  stats :: pump_stats
  seq_out :: u64
  seq_in :: u64
  halt :: bool
  config :: pump_config
  vless_o :: "vless_out option"
  vless_i :: "vless_in option"
  out_sock :: sink
  in_sock :: source
  out_live :: bool
  in_live :: bool
  tun_written :: "bytes list"
  sealed_log :: "(u64 \<times> bytes) list"

definition default_stats :: pump_stats where
  "default_stats = \<lparr>packets_in = 0, packets_out = 0, bytes_in = 0, bytes_out = 0, delivered_packets = 0,
     delivered_bytes = 0, seal_errors = 0, open_errors = 0, dropped_packets = 0\<rparr>"

definition closed_sink :: sink where
  "closed_sink = \<lparr>sent = [], room = Some 0, wr_error = BrokenPipe, flush_error = None\<rparr>"

definition pump_new :: pump where
  "pump_new = \<lparr>running = False, stop_flag = False, alive = 0, stats = default_stats, seq_out = 0, seq_in = 0,
     halt = False, config = \<lparr>block_ipv6 = False, pc_vless = None\<rparr>, vless_o = None, vless_i = None,
     out_sock = closed_sink, in_sock = [], out_live = False, in_live = False, tun_written = [], sealed_log = []\<rparr>"

definition bump :: "(pump_stats \<Rightarrow> pump_stats) \<Rightarrow> pump \<Rightarrow> pump" where
  "bump f p = p\<lparr>stats := f (stats p)\<rparr>"

text \<open>\<open>halt_socket\<close> shuts both directions down: no later write succeeds and no later read returns bytes.  (Bytes the
  kernel has already received could still be read; the model drops them.)\<close>

definition halt_socket :: "pump \<Rightarrow> pump" where
  "halt_socket p =
     (if halt p then p\<lparr>halt := False, out_sock := (out_sock p)\<lparr>room := Some 0\<rparr>, in_sock := []\<rparr> else p)"

definition thread_finished :: "pump \<Rightarrow> pump" where
  "thread_finished p =
     (if alive p = 1 then halt_socket (p\<lparr>alive := 0, running := False\<rparr>) else p\<lparr>alive := alive p - 1\<rparr>)"

definition finish_out :: "pump \<Rightarrow> pump" where
  "finish_out p = thread_finished (p\<lparr>out_live := False\<rparr>)"

definition finish_in :: "pump \<Rightarrow> pump" where
  "finish_in p = thread_finished (p\<lparr>in_live := False\<rparr>)"

section \<open>Starting and stopping\<close>

definition new_vless_out :: "pump_config \<Rightarrow> vless_out option" where
  "new_vless_out cfg = (case pc_vless cfg of None \<Rightarrow> None
     | Some v \<Rightarrow> (case vless_out_new (vp_uuid v) (vp_flow v) (vp_command v) (vp_address v) (vp_port v) of
          Inr out \<Rightarrow> Some out | Inl _ \<Rightarrow> None))"

text \<open>\<open>start\<close>; the two booleans say whether the two \<open>try_clone\<close> calls succeed.\<close>

datatype start_error = AlreadyRunning | OutCloneFailed

definition start ::
    "bool \<Rightarrow> bool \<Rightarrow> sink \<Rightarrow> source \<Rightarrow> pump_config \<Rightarrow> u64 \<Rightarrow> u64 \<Rightarrow> pump \<Rightarrow> (start_error + unit) \<times> pump" where
  "start clone_ok halt_ok w r cfg next_out_seq next_in_seq p =
     (if running p then (Inl AlreadyRunning, p\<lparr>running := True\<rparr>)
      else let p = p\<lparr>running := True, stop_flag := False, seq_out := next_out_seq, seq_in := next_in_seq\<rparr> in
        if \<not> clone_ok then (Inl OutCloneFailed, p)
        else (Inr (), p\<lparr>halt := halt_ok, alive := 2, config := cfg, vless_o := new_vless_out cfg,
                vless_i := map_option (\<lambda>v. vless_in_new (vp_uuid v)) (pc_vless cfg),
                out_sock := w, in_sock := r, out_live := True, in_live := True, tun_written := [], sealed_log := []\<rparr>))"

definition stop :: "pump \<Rightarrow> pump" where
  "stop p = halt_socket (p\<lparr>stop_flag := True\<rparr>)"

section \<open>The outbound thread\<close>

datatype tun_event = NotReady | TunData bytes "nat \<Rightarrow> u64" | TunFail io_kind

definition wrap_packet :: "bytes \<Rightarrow> (nat \<Rightarrow> u64) \<Rightarrow> pump \<Rightarrow> bytes \<times> pump" where
  "wrap_packet pkt rnd p =
     (case vless_o p of
        Some v \<Rightarrow> (case wrap v pkt rnd of (wrapped, v') \<Rightarrow> (wrapped, p\<lparr>vless_o := Some v'\<rparr>))
      | None \<Rightarrow> (pkt, p))"

definition send_packet :: "crypto \<Rightarrow> handshake_state \<Rightarrow> bytes \<Rightarrow> (nat \<Rightarrow> u64) \<Rightarrow> pump \<Rightarrow> pump" where
  "send_packet c hs pkt rnd p =
     (let seq = seq_out p;
          p = p\<lparr>seq_out := seq_out p + 1\<rparr>
      in case wrap_packet pkt rnd p of (wrapped, p) \<Rightarrow>
        (case seal_record c hs seq wrapped of
           Inr sealed \<Rightarrow>
             let p = p\<lparr>sealed_log := sealed_log p @ [(seq, pkt)]\<rparr> in
             (case write_frame (out_sock p) sealed of
                (Inr _, w) \<Rightarrow>
                  bump (\<lambda>s. s\<lparr>packets_out := packets_out s + 1, bytes_out := bytes_out s + length sealed\<rparr>)
                    (p\<lparr>out_sock := w\<rparr>)
              | (Inl _, w) \<Rightarrow> finish_out (halt_socket (p\<lparr>out_sock := w, seq_out := seq_out p - 1\<rparr>)))
         | Inl _ \<Rightarrow> bump (\<lambda>s. s\<lparr>seal_errors := seal_errors s + 1\<rparr>) (p\<lparr>seq_out := seq_out p - 1\<rparr>)))"

definition outbound :: "crypto \<Rightarrow> handshake_state \<Rightarrow> tun_event \<Rightarrow> pump \<Rightarrow> pump" where
  "outbound c hs ev p =
     (if stop_flag p then finish_out p
      else case ev of
        NotReady \<Rightarrow> p
      | TunFail k \<Rightarrow> if k = Interrupted then p else finish_out p
      | TunData bs rnd \<Rightarrow>
          let pkt = take READ_BUF bs in
          if pkt = [] then finish_out p
          else let p = bump (\<lambda>s. s\<lparr>packets_in := packets_in s + 1, bytes_in := bytes_in s + length pkt\<rparr>) p in
            if block_ipv6 (config p) \<and> ip_version pkt = 6
            then bump (\<lambda>s. s\<lparr>dropped_packets := dropped_packets s + 1\<rparr>) p
            else send_packet c hs pkt rnd p)"

section \<open>The inbound thread\<close>

definition open_packet :: "crypto \<Rightarrow> handshake_state \<Rightarrow> u64 \<Rightarrow> bytes \<Rightarrow> pump \<Rightarrow> bytes option \<times> pump" where
  "open_packet c hs seq frame p =
     (case open_record c hs seq frame of
        Inl _ \<Rightarrow> (None, p)
      | Inr pt \<Rightarrow>
          (case vless_i p of
             Some v \<Rightarrow>
               (case unwrap v pt of
                  (Inl _, v') \<Rightarrow> (None, p\<lparr>vless_i := Some v'\<rparr>)
                | (Inr content, v') \<Rightarrow> (Some content, p\<lparr>vless_i := Some v'\<rparr>))
           | None \<Rightarrow> (Some pt, p)))"

definition recv_packet :: "crypto \<Rightarrow> handshake_state \<Rightarrow> bytes \<Rightarrow> bool \<Rightarrow> pump \<Rightarrow> pump" where
  "recv_packet c hs frame tun_ok p =
     (let seq = seq_in p;
          p = p\<lparr>seq_in := seq_in p + 1\<rparr>
      in case open_packet c hs seq frame p of
        (Some packet, p) \<Rightarrow>
          if packet = [] \<or> tun_ok
          then bump (\<lambda>s. s\<lparr>delivered_packets := delivered_packets s + 1,
                           delivered_bytes := delivered_bytes s + length packet\<rparr>)
                 (p\<lparr>tun_written := tun_written p @ (if packet = [] then [] else [packet])\<rparr>)
          else finish_in (halt_socket (p\<lparr>seq_in := seq_in p - 1\<rparr>))
      | (None, p) \<Rightarrow> bump (\<lambda>s. s\<lparr>open_errors := open_errors s + 1\<rparr>) (p\<lparr>seq_in := seq_in p - 1\<rparr>))"

definition inbound :: "crypto \<Rightarrow> handshake_state \<Rightarrow> bool \<Rightarrow> pump \<Rightarrow> pump" where
  "inbound c hs tun_ok p =
     (if stop_flag p then finish_in p
      else case read_frame (in_sock p) of
        (Inr (Some frame), r) \<Rightarrow>
          if frame = [] then p\<lparr>in_sock := r\<rparr> else recv_packet c hs frame tun_ok (p\<lparr>in_sock := r\<rparr>)
      | (Inr None, r) \<Rightarrow> finish_in (p\<lparr>in_sock := r\<rparr>)
      | (Inl _, r) \<Rightarrow> finish_in (p\<lparr>in_sock := r\<rparr>))"

section \<open>Interleavings\<close>

inductive pump_step :: "crypto \<Rightarrow> handshake_state \<Rightarrow> pump \<Rightarrow> pump \<Rightarrow> bool" for c hs where
  step_out: "out_live p \<Longrightarrow> pump_step c hs p (outbound c hs ev p)"
| step_in: "in_live p \<Longrightarrow> pump_step c hs p (inbound c hs tun_ok p)"
| step_stop: "pump_step c hs p (stop p)"

inductive_cases pump_stepE: "pump_step c hs p p'"

abbreviation pump_run :: "crypto \<Rightarrow> handshake_state \<Rightarrow> pump \<Rightarrow> pump \<Rightarrow> bool" where
  "pump_run c hs \<equiv> (pump_step c hs)\<^sup>*\<^sup>*"

text \<open>Liveness bookkeeping, numbering of the sealed records, and accounting of TUN packets.\<close>

definition threads_ok :: "pump \<Rightarrow> bool" where
  "threads_ok p \<longleftrightarrow> alive p = of_bool (out_live p) + of_bool (in_live p) \<and>
     (running p \<longleftrightarrow> 0 < alive p) \<and> (alive p = 0 \<longrightarrow> \<not> halt p)"

definition numbered :: "u64 \<Rightarrow> pump \<Rightarrow> bool" where
  "numbered base p \<longleftrightarrow>
     map fst (sealed_log p) = map (\<lambda>i. base + word_of_nat i) [0..<length (sealed_log p)] \<and>
     (out_live p \<longrightarrow> seq_out p = base + word_of_nat (length (sealed_log p)))"

definition shielded :: "pump \<Rightarrow> bool" where
  "shielded p \<longleftrightarrow> (block_ipv6 (config p) \<longrightarrow> (\<forall>x \<in> set (sealed_log p). ip_version (snd x) \<noteq> 6))"

definition unaccounted :: "pump \<Rightarrow> int" where
  "unaccounted p = int (packets_in (stats p)) - int (dropped_packets (stats p)) - int (seal_errors (stats p)) -
     int (length (sealed_log p))"

definition demo_config :: pump_config where
  "demo_config = \<lparr>block_ipv6 = True, pc_vless = None\<rparr>"

definition demo_keyed :: handshake_state where
  "demo_keyed = demo_state\<lparr>hs_record_keys := Some \<lparr>send_key = [1], recv_key = [2]\<rparr>, completed := True\<rparr>"

section \<open>What the helpers leave alone\<close>

lemma halt_socket_simps [simp]:
  "running (halt_socket p) = running p" "alive (halt_socket p) = alive p" "stats (halt_socket p) = stats p"
  "seq_out (halt_socket p) = seq_out p" "seq_in (halt_socket p) = seq_in p" "config (halt_socket p) = config p"
  "out_live (halt_socket p) = out_live p" "in_live (halt_socket p) = in_live p" "\<not> halt (halt_socket p)"
  "sealed_log (halt_socket p) = sealed_log p" "tun_written (halt_socket p) = tun_written p"
  "stop_flag (halt_socket p) = stop_flag p"
  by (simp_all add: halt_socket_def)

lemma thread_finished_simps [simp]:
  "stats (thread_finished p) = stats p" "seq_out (thread_finished p) = seq_out p" "seq_in (thread_finished p) = seq_in p"
  "config (thread_finished p) = config p" "out_live (thread_finished p) = out_live p" "in_live (thread_finished p) = in_live p"
  "sealed_log (thread_finished p) = sealed_log p" "tun_written (thread_finished p) = tun_written p"
  "alive (thread_finished p) = alive p - 1" "running (thread_finished p) = (running p \<and> alive p \<noteq> 1)"
  "halt (thread_finished p) = (halt p \<and> alive p \<noteq> 1)" "stop_flag (thread_finished p) = stop_flag p"
  by (auto simp: thread_finished_def)

lemma finish_simps [simp]:
  "stats (finish_out p) = stats p" "seq_out (finish_out p) = seq_out p" "config (finish_out p) = config p"
  "sealed_log (finish_out p) = sealed_log p" "tun_written (finish_out p) = tun_written p" "\<not> out_live (finish_out p)"
  "in_live (finish_out p) = in_live p" "alive (finish_out p) = alive p - 1"
  "running (finish_out p) = (running p \<and> alive p \<noteq> 1)" "halt (finish_out p) = (halt p \<and> alive p \<noteq> 1)"
  "stats (finish_in p) = stats p" "seq_out (finish_in p) = seq_out p" "config (finish_in p) = config p"
  "sealed_log (finish_in p) = sealed_log p" "tun_written (finish_in p) = tun_written p" "\<not> in_live (finish_in p)"
  "out_live (finish_in p) = out_live p" "alive (finish_in p) = alive p - 1"
  "running (finish_in p) = (running p \<and> alive p \<noteq> 1)" "halt (finish_in p) = (halt p \<and> alive p \<noteq> 1)"
  "stop_flag (finish_out p) = stop_flag p" "stop_flag (finish_in p) = stop_flag p" "seq_in (finish_in p) = seq_in p"
  "seq_in (finish_out p) = seq_in p"
  by (simp_all add: finish_out_def finish_in_def)

lemma bump_simps [simp]:
  "stats (bump f p) = f (stats p)" "running (bump f p) = running p" "alive (bump f p) = alive p"
  "seq_out (bump f p) = seq_out p" "seq_in (bump f p) = seq_in p" "config (bump f p) = config p"
  "out_live (bump f p) = out_live p" "in_live (bump f p) = in_live p" "halt (bump f p) = halt p"
  "sealed_log (bump f p) = sealed_log p" "tun_written (bump f p) = tun_written p" "stop_flag (bump f p) = stop_flag p"
  "out_sock (bump f p) = out_sock p" "in_sock (bump f p) = in_sock p" "vless_o (bump f p) = vless_o p"
  "vless_i (bump f p) = vless_i p"
  by (simp_all add: bump_def)

section \<open>The shapes of an iteration\<close>

text \<open>The effect of an iteration, one shape per branch: a thread does nothing but bookkeeping, ends,
  or handles a packet; \<open>x\<close> is the new inner-protocol state.\<close>

lemma vless_unchanged: "\<exists>x. p = p\<lparr>vless_o := x\<rparr>" "\<exists>x. p = p\<lparr>vless_i := x\<rparr>"
  by (rule exI [of _ "vless_o p"], simp) (rule exI [of _ "vless_i p"], simp)

lemma wrap_packet_shape: "\<exists>w x. wrap_packet pkt rnd p = (w, p\<lparr>vless_o := x\<rparr>)"
  by (cases "vless_o p") (auto simp: wrap_packet_def vless_unchanged split: prod.split)

lemma open_packet_shape: "\<exists>y x. open_packet c hs seq frame p = (y, p\<lparr>vless_i := x\<rparr>)"
  unfolding open_packet_def by (auto simp: vless_unchanged split: sum.split option.split prod.split)

lemma send_packet_shapes:
  obtains (failed) x where "send_packet c hs pkt rnd p =
      bump (\<lambda>s. s\<lparr>seal_errors := seal_errors s + 1\<rparr>) (p\<lparr>vless_o := x\<rparr>)"
    | (sent) x n w where "send_packet c hs pkt rnd p =
      bump (\<lambda>s. s\<lparr>packets_out := packets_out s + 1, bytes_out := bytes_out s + n\<rparr>)
        (p\<lparr>seq_out := seq_out p + 1, vless_o := x, sealed_log := sealed_log p @ [(seq_out p, pkt)], out_sock := w\<rparr>)"
    | (broken) x w where "send_packet c hs pkt rnd p =
      finish_out (halt_socket (p\<lparr>vless_o := x, sealed_log := sealed_log p @ [(seq_out p, pkt)], out_sock := w\<rparr>))"
proof -
  let ?p = "p\<lparr>seq_out := seq_out p + 1\<rparr>"
  obtain w x where wrap: "wrap_packet pkt rnd ?p = (w, ?p\<lparr>vless_o := x\<rparr>)"
    using wrap_packet_shape by blast
  show thesis
  proof (cases "seal_record c hs (seq_out p) w")
    case (Inl e)
    with wrap show thesis
      by (intro failed [of x]) (simp add: send_packet_def Let_def)
  next
    case (Inr sealed)
    obtain res w' where "write_frame (out_sock p) sealed = (res, w')"
      by fastforce
    with wrap Inr show thesis
      by (cases res) (auto simp: send_packet_def Let_def intro: sent broken)
  qed
qed

lemma outbound_shapes:
  obtains (same) "outbound c hs ev p = p"
    | (ended) "outbound c hs ev p = finish_out p"
    | (dropped) pkt where "block_ipv6 (config p)" "ip_version pkt = 6" "outbound c hs ev p =
      bump (\<lambda>s. s\<lparr>dropped_packets := dropped_packets s + 1\<rparr>)
        (bump (\<lambda>s. s\<lparr>packets_in := packets_in s + 1, bytes_in := bytes_in s + length pkt\<rparr>) p)"
    | (packet) pkt rnd where "\<not> (block_ipv6 (config p) \<and> ip_version pkt = 6)" "outbound c hs ev p =
      send_packet c hs pkt rnd (bump (\<lambda>s. s\<lparr>packets_in := packets_in s + 1, bytes_in := bytes_in s + length pkt\<rparr>) p)"
      "pkt \<noteq> []" "length pkt \<le> READ_BUF"
proof (cases "stop_flag p")
  case True
  then show thesis
    by (intro ended) (simp add: outbound_def)
next
  case False
  then show thesis
  proof (cases ev)
    case (TunData bs rnd)
    define pkt where "pkt = take READ_BUF bs"
    have "outbound c hs ev p = (if pkt = [] then finish_out p
       else let p = bump (\<lambda>s. s\<lparr>packets_in := packets_in s + 1, bytes_in := bytes_in s + length pkt\<rparr>) p in
         if block_ipv6 (config p) \<and> ip_version pkt = 6
         then bump (\<lambda>s. s\<lparr>dropped_packets := dropped_packets s + 1\<rparr>) p else send_packet c hs pkt rnd p)"
      unfolding pkt_def using False TunData by (simp add: outbound_def Let_def)
    moreover have "length pkt \<le> READ_BUF"
      by (simp add: pkt_def)
    ultimately show thesis
      using ended dropped [of pkt] packet [of pkt rnd]
      by (cases "pkt = []"; cases "block_ipv6 (config p) \<and> ip_version pkt = 6") (simp_all add: Let_def)
  next
    case NotReady
    with False show thesis
      by (intro same) (simp add: outbound_def)
  next
    case (TunFail k)
    with False show thesis
      by (cases "k = Interrupted") (auto simp: outbound_def intro: same ended)
  qed
qed

lemma recv_packet_shapes:
  obtains (delivered) x pkt where "recv_packet c hs frame ok p =
      bump (\<lambda>s. s\<lparr>delivered_packets := delivered_packets s + 1, delivered_bytes := delivered_bytes s + length pkt\<rparr>)
        (p\<lparr>seq_in := seq_in p + 1, vless_i := x, tun_written := tun_written p @ (if pkt = [] then [] else [pkt])\<rparr>)"
    | (tun_gone) x where "recv_packet c hs frame ok p = finish_in (halt_socket (p\<lparr>vless_i := x\<rparr>))"
    | (rejected) x where "recv_packet c hs frame ok p =
      bump (\<lambda>s. s\<lparr>open_errors := open_errors s + 1\<rparr>) (p\<lparr>vless_i := x\<rparr>)"
proof -
  obtain y x where o: "open_packet c hs (seq_in p) frame (p\<lparr>seq_in := seq_in p + 1\<rparr>) = (y, p\<lparr>seq_in := seq_in p + 1, vless_i := x\<rparr>)"
    using open_packet_shape by blast
  show thesis
  proof (cases y)
    case None
    with o show thesis
      by (intro rejected) (simp add: recv_packet_def Let_def)
  next
    case (Some pkt)
    with o show thesis
      by (cases "pkt = [] \<or> ok")
         (rule delivered [where pkt = pkt and x = x], simp add: recv_packet_def Let_def,
          rule tun_gone [where x = x], simp add: recv_packet_def Let_def)
  qed
qed

lemma inbound_shapes:
  obtains (empty) r where "inbound c hs ok p = p\<lparr>in_sock := r\<rparr>"
    | (ended) r where "inbound c hs ok p = finish_in (p\<lparr>in_sock := r\<rparr>)"
    | (delivered) r x pkt where "inbound c hs ok p =
      bump (\<lambda>s. s\<lparr>delivered_packets := delivered_packets s + 1, delivered_bytes := delivered_bytes s + length pkt\<rparr>)
        (p\<lparr>in_sock := r, seq_in := seq_in p + 1, vless_i := x,
           tun_written := tun_written p @ (if pkt = [] then [] else [pkt])\<rparr>)"
    | (tun_gone) r x where "inbound c hs ok p = finish_in (halt_socket (p\<lparr>in_sock := r, vless_i := x\<rparr>))"
    | (rejected) r x where "inbound c hs ok p =
      bump (\<lambda>s. s\<lparr>open_errors := open_errors s + 1\<rparr>) (p\<lparr>in_sock := r, vless_i := x\<rparr>)"
proof -
  obtain res r where read: "read_frame (in_sock p) = (res, r)" by fastforce
  consider (stopped) "stop_flag p" | (frame) frame where "\<not> stop_flag p" "res = Inr (Some frame)" "frame \<noteq> []"
    | (quiet) "\<not> stop_flag p" "res = Inr (Some [])" | (eof) "\<not> stop_flag p" "res = Inr None" | (failed) e where "\<not> stop_flag p" "res = Inl e"
    by (cases res) auto
  then show thesis
  proof cases
    case stopped
    then show thesis
      by (intro ended [of "in_sock p"]) (simp add: inbound_def)
  next
    case (frame frame)
    with read have "inbound c hs ok p = recv_packet c hs frame ok (p\<lparr>in_sock := r\<rparr>)"
      by (simp add: inbound_def)
    then show thesis
      by (cases rule: recv_packet_shapes [of c hs frame ok "p\<lparr>in_sock := r\<rparr>"])
         (auto intro: delivered [where r = r] tun_gone [where r = r] rejected [where r = r])
  qed (use read in \<open>auto simp: inbound_def intro: empty [where r = r] ended [where r = r]\<close>)
qed

section \<open>Invariants\<close>

lemma threads_ok_out: "threads_ok p \<Longrightarrow> out_live p \<Longrightarrow> threads_ok (outbound c hs ev p)"
proof (cases rule: outbound_shapes [of c hs ev p])
  case (packet pkt rnd)
  assume "threads_ok p" "out_live p"
  with packet(2) show ?thesis
    by (cases rule: send_packet_shapes [of c hs pkt rnd "bump (\<lambda>s. s\<lparr>packets_in := packets_in s + 1, bytes_in := bytes_in s + length pkt\<rparr>) p"])
       (auto simp: threads_ok_def)
qed (auto simp: threads_ok_def)

lemma threads_ok_in: "threads_ok p \<Longrightarrow> in_live p \<Longrightarrow> threads_ok (inbound c hs ok p)"
  by (cases rule: inbound_shapes [of c hs ok p]) (auto simp: threads_ok_def)

lemma threads_ok_step: "pump_step c hs p p' \<Longrightarrow> threads_ok p \<Longrightarrow> threads_ok p'"
  by (erule pump_stepE) (auto simp: threads_ok_out threads_ok_in, auto simp: stop_def threads_ok_def)

text \<open>Inbound iterations and \<open>stop\<close> do not touch what the outbound thread owns.\<close>

lemma inbound_frame [simp]:
  "sealed_log (inbound c hs ok p) = sealed_log p" "seq_out (inbound c hs ok p) = seq_out p"
  "out_live (inbound c hs ok p) = out_live p" "config (inbound c hs ok p) = config p"
  "packets_in (stats (inbound c hs ok p)) = packets_in (stats p)"
  "dropped_packets (stats (inbound c hs ok p)) = dropped_packets (stats p)"
  "seal_errors (stats (inbound c hs ok p)) = seal_errors (stats p)"
  by (cases rule: inbound_shapes [of c hs ok p]; simp)+

lemma stop_frame [simp]:
  "sealed_log (stop p) = sealed_log p" "seq_out (stop p) = seq_out p" "out_live (stop p) = out_live p"
  "config (stop p) = config p" "stats (stop p) = stats p" "in_live (stop p) = in_live p" "stop_flag (stop p)"
  "alive (stop p) = alive p" "running (stop p) = running p"
  by (simp_all add: stop_def)

text \<open>An outbound iteration seals at most one record, under the current sequence number; afterwards
  the counter has moved on, or the thread has ended.\<close>

lemma outbound_cases:
  obtains (none) "sealed_log (outbound c hs ev p) = sealed_log p"
      "out_live (outbound c hs ev p) \<longrightarrow> seq_out (outbound c hs ev p) = seq_out p"
    | (sealed) pkt where "sealed_log (outbound c hs ev p) = sealed_log p @ [(seq_out p, pkt)]"
      "out_live (outbound c hs ev p) \<longrightarrow> seq_out (outbound c hs ev p) = seq_out p + 1"
      "\<not> (block_ipv6 (config p) \<and> ip_version pkt = 6)"
proof (cases rule: outbound_shapes [of c hs ev p])
  case (packet pkt rnd)
  let ?p = "bump (\<lambda>s. s\<lparr>packets_in := packets_in s + 1, bytes_in := bytes_in s + length pkt\<rparr>) p"
  show thesis
    using packet by (cases rule: send_packet_shapes [of c hs pkt rnd ?p]) (auto intro: none sealed [of pkt])
qed (auto intro: none)

lemma config_outbound [simp]: "config (outbound c hs ev p) = config p"
proof (cases rule: outbound_shapes [of c hs ev p])
  case (packet pkt rnd)
  let ?p = "bump (\<lambda>s. s\<lparr>packets_in := packets_in s + 1, bytes_in := bytes_in s + length pkt\<rparr>) p"
  show ?thesis
    using packet by (cases rule: send_packet_shapes [of c hs pkt rnd ?p]) auto
qed auto

lemma unaccounted_out: "unaccounted (outbound c hs ev p) = unaccounted p"
proof (cases rule: outbound_shapes [of c hs ev p])
  case (packet pkt rnd)
  let ?p = "bump (\<lambda>s. s\<lparr>packets_in := packets_in s + 1, bytes_in := bytes_in s + length pkt\<rparr>) p"
  show ?thesis
    using packet by (cases rule: send_packet_shapes [of c hs pkt rnd ?p]) (auto simp: unaccounted_def)
qed (auto simp: unaccounted_def)

lemma numbered_step:
  assumes "pump_step c hs p p'" "numbered base p"
  shows "numbered base p'"
  using assms(1)
proof (cases rule: pump_step.cases)
  case (step_out ev)
  show ?thesis
  proof (cases rule: outbound_cases [of c hs ev p])
    case none
    with step_out assms(2) show ?thesis by (auto simp: numbered_def)
  next
    case (sealed pkt)
    with step_out assms(2) show ?thesis by (simp add: numbered_def)
  qed
qed (use assms(2) in \<open>auto simp: numbered_def\<close>)

lemma shielded_step:
  assumes "pump_step c hs p p'" "shielded p"
  shows "shielded p'"
  using assms(1)
proof (cases rule: pump_step.cases)
  case (step_out ev)
  then show ?thesis
    using assms(2) by (cases rule: outbound_cases [of c hs ev p]) (auto simp: shielded_def)
qed (use assms(2) in \<open>auto simp: shielded_def\<close>)

lemma unaccounted_step: "pump_step c hs p p' \<Longrightarrow> unaccounted p' = unaccounted p"
  by (erule pump_stepE) (auto simp: unaccounted_out, auto simp: unaccounted_def)

lemma config_step: "pump_step c hs p p' \<Longrightarrow> config p' = config p"
  by (erule pump_stepE) auto

lemma pump_run_inv:
  assumes "pump_run c hs p p'"
  shows "threads_ok p \<Longrightarrow> threads_ok p'" "numbered base p \<Longrightarrow> numbered base p'" "shielded p \<Longrightarrow> shielded p'"
    "unaccounted p' = unaccounted p" "config p' = config p"
  using assms by (induction rule: rtranclp_induct)
    (auto simp: threads_ok_step numbered_step shielded_step unaccounted_step config_step)

lemma started:
  assumes "start True halt_ok w r cfg nout nin p = (Inr (), p0)"
  shows "threads_ok p0" "numbered nout p0" "shielded p0" "config p0 = cfg" "unaccounted p0 = unaccounted (p\<lparr>sealed_log := []\<rparr>)"
  using assms by (auto simp: start_def Let_def threads_ok_def numbered_def shielded_def unaccounted_def split: if_splits)

lemma started_log: "start a h w r cfg nout nin p = (Inr (), p0) \<Longrightarrow> sealed_log p0 = []"
  by (auto simp: start_def Let_def split: if_splits)

lemma numbered_distinct:
  assumes "numbered base p" "length (sealed_log p) \<le> 2 ^ 64"
  shows "distinct (map fst (sealed_log p))"
proof -
  have "inj_on (\<lambda>i. base + word_of_nat i :: u64) {0..<length (sealed_log p)}"
  proof (rule inj_onI)
    fix i j assume "i \<in> {0..<length (sealed_log p)}" "j \<in> {0..<length (sealed_log p)}"
      "base + word_of_nat i = base + (word_of_nat j :: u64)"
    then have "unat (word_of_nat i :: u64) = unat (word_of_nat j :: u64)" "i < 2 ^ 64" "j < 2 ^ 64"
      using assms(2) by auto
    then show "i = j"
      by (simp add: unat_of_nat)
  qed
  then show ?thesis
    using assms(1) by (simp add: numbered_def distinct_map)
qed

lemma demo_seal: "\<exists>ct. seal_record demo_crypto demo_keyed seq [0x45] = Inr ct \<and> length ct = 17"
  by (simp add: seal_record_def hs_keys_def demo_keyed_def demo_crypto_def demo_encrypt_def demo_tag_def)

lemma demo_outbound:
  assumes "out_live p" "\<not> stop_flag p" "sealed_log p = []" "vless_o p = None" "block_ipv6 (config p)"
  shows "sealed_log (outbound demo_crypto demo_keyed (TunData [0x45] no_draw) p) = [(seq_out p, [0x45])]"
    "out_sock p = demo_sink \<Longrightarrow>
    room (out_sock (outbound demo_crypto demo_keyed (TunData [0x45] no_draw) p)) = None \<and>
    flush_error (out_sock (outbound demo_crypto demo_keyed (TunData [0x45] no_draw) p)) = None"
proof -
  obtain ct where ct: "seal_record demo_crypto demo_keyed (seq_out p) [0x45] = Inr ct" "length ct = 17"
    using demo_seal by blast
  then show "sealed_log (outbound demo_crypto demo_keyed (TunData [0x45] no_draw) p) = [(seq_out p, [0x45])]"
    using assms
    by (auto simp: outbound_def send_packet_def wrap_packet_def Let_def ip_version_def READ_BUF_def
        split: prod.splits sum.splits)
  have "write_frame demo_sink ct = (Inr (), demo_sink\<lparr>sent := frame_wire ct\<rparr>)"
    using ct(2) by (simp add: write_frame_def write_all_def flush_def demo_sink_def MAX_FRAME_LEN_def frame_wire_def)
  then show "out_sock p = demo_sink \<Longrightarrow>
    room (out_sock (outbound demo_crypto demo_keyed (TunData [0x45] no_draw) p)) = None \<and>
    flush_error (out_sock (outbound demo_crypto demo_keyed (TunData [0x45] no_draw) p)) = None"
    using assms ct
    by (simp add: outbound_def send_packet_def wrap_packet_def Let_def ip_version_def READ_BUF_def bump_def)
       (simp add: demo_sink_def)
qed

section \<open>Properties\<close>

text \<open>C8. No nonce is used twice: however the two threads and \<open>stop\<close> interleave, the records a
  started pump seals are numbered consecutively from the sequence number the session hands in, so
  their sequence numbers are pairwise distinct (up to 2 to the 64 records), failed seals and failed
  writes included.\<close>

theorem pump_sequence_numbers:
  assumes "start True halt_ok w r cfg next_out next_in p = (Inr (), p0)" "pump_run c hs p0 p1"
    "length (sealed_log p1) \<le> 2 ^ 64"
  shows "map fst (sealed_log p1) = map (\<lambda>i. next_out + word_of_nat i) [0..<length (sealed_log p1)] \<and>
    distinct (map fst (sealed_log p1))"
  using pump_run_inv(2) [OF assms(2) started(2) [OF assms(1)]] numbered_distinct [OF _ assms(3)]
  by (auto simp: numbered_def)

theorem pump_sequence_numbers_witness:
  "\<exists>p0 p1. start True True demo_sink [] demo_config 5 0 pump_new = (Inr (), p0) \<and>
    pump_run demo_crypto demo_keyed p0 p1 \<and> map fst (sealed_log p1) = [5] \<and> distinct (map fst (sealed_log p1))"
proof -
  obtain p0 where p0: "start True True demo_sink [] demo_config 5 0 pump_new = (Inr (), p0)"
    by (simp add: start_def pump_new_def Let_def)
  define p1 where "p1 = outbound demo_crypto demo_keyed (TunData [0x45] no_draw) p0"
  have ev: "out_live p0" "\<not> stop_flag p0" "sealed_log p0 = []" "seq_out p0 = 5" "config p0 = demo_config" "vless_o p0 = None"
    using p0 by (auto simp: start_def pump_new_def Let_def demo_config_def new_vless_out_def)
  have run: "pump_run demo_crypto demo_keyed p0 p1"
    unfolding p1_def using ev(1) by (blast intro: step_out r_into_rtranclp)
  have log: "sealed_log p1 = [(5, [0x45])]"
    unfolding p1_def using demo_outbound(1) [OF ev(1-3)] ev by (simp add: demo_config_def)
  from pump_sequence_numbers [OF p0 run] log p0 run show ?thesis
    by (intro exI [of _ p0] exI [of _ p1]) simp
qed

text \<open>C13. The leak shield: with \<open>block_ipv6\<close>, no packet with IP version 6 is ever sealed, in any
  interleaving; and every packet read from the TUN is dropped by the shield, counted as a
  seal error, or sealed.\<close>

theorem pump_leak_shield:
  assumes "start True halt_ok w r cfg next_out next_in p = (Inr (), p0)" "pump_run c hs p0 p1"
  shows "(block_ipv6 cfg \<longrightarrow> (\<forall>x \<in> set (sealed_log p1). ip_version (snd x) \<noteq> 6)) \<and>
    unaccounted p1 = unaccounted (p\<lparr>sealed_log := []\<rparr>)"
  using pump_run_inv(3,4,5) [OF assms(2)] started [OF assms(1)] by (simp add: shielded_def)

theorem pump_leak_shield_witness:
  "\<exists>p0 p1. start True True demo_sink [] demo_config 5 0 pump_new = (Inr (), p0) \<and>
    pump_run demo_crypto demo_keyed p0 p1 \<and> dropped_packets (stats p1) = 1 \<and> sealed_log p1 = [] \<and>
    unaccounted p1 = unaccounted (pump_new\<lparr>sealed_log := []\<rparr>)"
proof -
  obtain p0 where p0: "start True True demo_sink [] demo_config 5 0 pump_new = (Inr (), p0)"
    by (simp add: start_def pump_new_def Let_def)
  define p1 where "p1 = outbound demo_crypto demo_keyed (TunData [0x60] no_draw) p0"
  have ev: "out_live p0" "\<not> stop_flag p0" "sealed_log p0 = []" "config p0 = demo_config" "dropped_packets (stats p0) = 0"
    using p0 by (auto simp: start_def pump_new_def Let_def default_stats_def)
  have run: "pump_run demo_crypto demo_keyed p0 p1"
    unfolding p1_def using ev(1) by (blast intro: step_out r_into_rtranclp)
  have "dropped_packets (stats p1) = 1" "sealed_log p1 = []"
    unfolding p1_def using ev by (auto simp: outbound_def demo_config_def ip_version_def READ_BUF_def Let_def)
  with pump_leak_shield [OF p0 run] p0 run show ?thesis
    by (intro exI [of _ p0] exI [of _ p1]) simp
qed

lemma stopped_threads:
  assumes "stop_flag p"
  shows "outbound c hs ev p = finish_out p" "inbound c hs tun_ok p = finish_in p"
  using assms by (simp_all add: outbound_def inbound_def)

lemma stop_flag_run: "pump_run c hs p p' \<Longrightarrow> stop_flag p \<Longrightarrow> stop_flag p'"
proof (induction rule: rtranclp_induct)
  case (step p' p'')
  then show ?case
    by (auto elim!: pump_stepE simp: stopped_threads finish_out_def finish_in_def thread_finished_def stop_def halt_socket_def)
qed simp

text \<open>C36. Liveness bookkeeping: \<open>running\<close> is true exactly while a thread lives, and when both
  have ended the socket has been shut down.  After \<open>stop\<close>, at any later point of any interleaving and whichever
  threads still live, the next iteration of each of them is its last: it seals or delivers nothing, it leaves
  the other thread alone, and \<open>running\<close> stays true only if that one lives.\<close>

theorem pump_liveness:
  assumes "start True halt_ok w r cfg next_out next_in p = (Inr (), p0)" "pump_run c hs p0 p1"
  shows "(running p1 \<longleftrightarrow> out_live p1 \<or> in_live p1) \<and> (\<not> running p1 \<longrightarrow> \<not> halt p1) \<and>
    (\<forall>p2 ev tun_ok. pump_run c hs (stop p1) p2 \<longrightarrow>
      (out_live p2 \<longrightarrow> \<not> out_live (outbound c hs ev p2) \<and> in_live (outbound c hs ev p2) = in_live p2 \<and>
        running (outbound c hs ev p2) = in_live p2 \<and> sealed_log (outbound c hs ev p2) = sealed_log p2) \<and>
      (in_live p2 \<longrightarrow> \<not> in_live (inbound c hs tun_ok p2) \<and> out_live (inbound c hs tun_ok p2) = out_live p2 \<and>
        running (inbound c hs tun_ok p2) = out_live p2 \<and> tun_written (inbound c hs tun_ok p2) = tun_written p2))"
proof -
  have ok: "threads_ok q" if "pump_run c hs p0 q" for q
    using pump_run_inv(1) [OF that] started(1) [OF assms(1)] by simp
  have "threads_ok p2 \<and> stop_flag p2" if "pump_run c hs (stop p1) p2" for p2
  proof -
    have "pump_run c hs p0 p2"
      using assms(2) pump_step.step_stop that by (meson rtranclp.rtrancl_into_rtrancl rtranclp_trans)
    then show ?thesis
      using ok stop_flag_run [OF that] by (simp add: stop_def halt_socket_def)
  qed
  with ok [OF assms(2)] show ?thesis
    by (auto simp: stopped_threads threads_ok_def finish_out_def finish_in_def thread_finished_def halt_socket_def)
qed

theorem pump_liveness_witness:
  "\<exists>p0. start True True demo_sink [] demo_config 5 0 pump_new = (Inr (), p0) \<and> running p0 \<and>
    (\<exists>p2. pump_run demo_crypto demo_keyed (stop p0) p2 \<and> out_live p2 \<and> running p2 \<and>
      \<not> in_live (inbound demo_crypto demo_keyed True p2) \<and> running (inbound demo_crypto demo_keyed True p2))"
proof -
  obtain p0 where p0: "start True True demo_sink [] demo_config 5 0 pump_new = (Inr (), p0)"
    by (simp add: start_def pump_new_def Let_def)
  then have live: "out_live (stop p0)" "in_live (stop p0)" "running (stop p0)" "running p0"
    by (auto simp: start_def pump_new_def Let_def stop_def halt_socket_def)
  with pump_liveness [OF p0 rtranclp.rtrancl_refl, of demo_crypto demo_keyed] p0 show ?thesis
    by (intro exI [of _ p0]) (auto intro!: exI [of _ "stop p0"])
qed

text \<open>A half that dies alone leaves the other one running on an open socket: when the peer closes,
  or a read of the socket fails (the 10 second read timeout of the connection among the causes), the
  inbound half ends, but the socket is not shut down and the outbound half keeps sending.\<close>

theorem pump_half_dies_alone:
  assumes "threads_ok p" "out_live p" "in_live p" "\<not> stop_flag p"
    "in_sock p = [] \<or> (\<exists>k rest. in_sock p = Fail k # rest \<and> k \<noteq> Interrupted)"
  shows "\<not> in_live (inbound c hs tun_ok p) \<and> out_live (inbound c hs tun_ok p) \<and> running (inbound c hs tun_ok p) \<and>
    halt (inbound c hs tun_ok p) = halt p \<and> out_sock (inbound c hs tun_ok p) = out_sock p"
proof -
  have "inbound c hs tun_ok p = finish_in (p\<lparr>in_sock := snd (read_frame (in_sock p))\<rparr>)"
    using assms(4,5) by (auto simp: inbound_def read_frame_def numeral_eq_Suc)
  then show ?thesis
    using assms by (simp add: threads_ok_def) (simp add: finish_in_def thread_finished_def)
qed

theorem pump_half_dies_alone_witness:
  "\<exists>p0. start True True demo_sink [Fail TimedOut] demo_config 5 0 pump_new = (Inr (), p0) \<and>
    \<not> in_live (inbound demo_crypto demo_keyed True p0) \<and> running (inbound demo_crypto demo_keyed True p0) \<and>
    halt (inbound demo_crypto demo_keyed True p0)"
proof -
  obtain p0 where p0: "start True True demo_sink [Fail TimedOut] demo_config 5 0 pump_new = (Inr (), p0)"
    by (simp add: start_def pump_new_def Let_def)
  then have "threads_ok p0" "out_live p0" "in_live p0" "\<not> stop_flag p0" "in_sock p0 = [Fail TimedOut]" "halt p0"
    by (auto simp: start_def pump_new_def Let_def threads_ok_def)
  with pump_half_dies_alone [of p0 demo_crypto demo_keyed True] p0 show ?thesis
    by auto
qed

text \<open>A record that cannot be opened or unwrapped is skipped: nothing reaches the TUN, the
  sequence number it was tried with is tried again for the next record, and both threads go on.\<close>

theorem pump_rejected_record:
  assumes "in_live p" "\<not> stop_flag p" "in_sock p = map Byte (frame_wire frame) @ rest" "frame \<noteq> []"
    "length frame \<le> MAX_FRAME_LEN" "fst (open_packet c hs (seq_in p) frame p) = None"
  shows "in_live (inbound c hs tun_ok p) \<and> seq_in (inbound c hs tun_ok p) = seq_in p \<and>
    tun_written (inbound c hs tun_ok p) = tun_written p \<and> in_sock (inbound c hs tun_ok p) = rest \<and>
    open_errors (stats (inbound c hs tun_ok p)) = open_errors (stats p) + 1"
proof -
  have "fst (open_packet c hs (seq_in p) frame (p\<lparr>in_sock := rest, seq_in := seq_in p + 1\<rparr>)) = None"
    using assms(6) by (auto simp: open_packet_def split: sum.splits option.splits prod.splits)
  then show ?thesis
    using assms(1-5)
    by (auto simp: inbound_def read_frame_wire recv_packet_def Let_def open_packet_def
        split: prod.splits sum.splits option.splits)
qed

theorem pump_rejected_record_witness:
  "\<exists>p0. start True True demo_sink (map Byte (frame_wire [1])) demo_config 5 0 pump_new = (Inr (), p0) \<and>
    seq_in (inbound demo_crypto demo_keyed True p0) = 0 \<and> in_live (inbound demo_crypto demo_keyed True p0)"
proof -
  obtain p0 where p0: "start True True demo_sink (map Byte (frame_wire [1])) demo_config 5 0 pump_new = (Inr (), p0)"
    by (simp add: start_def pump_new_def Let_def)
  then have "in_live p0" "\<not> stop_flag p0" "in_sock p0 = map Byte (frame_wire [1]) @ []" "seq_in p0 = 0"
    by (auto simp: start_def pump_new_def Let_def)
  moreover have "fst (open_packet demo_crypto demo_keyed (seq_in p0) [1] p0) = None"
    by (simp add: open_packet_def open_record_def hs_keys_def demo_keyed_def demo_crypto_def demo_decrypt_def Let_def)
  ultimately show ?thesis
    using pump_rejected_record [of p0 "[1]" "[]" demo_crypto demo_keyed True] p0 by (simp add: MAX_FRAME_LEN_def)
qed

end
