(* ===== verification/Tunnel.thy ===== *)
theory Tunnel
  imports Duplex Pump "HOL-Library.Sublist"
begin

text \<open>
  The pump and the honest server at the two ends of one connection.  \<open>tunnel_step\<close> interleaves the
  pump's threads, \<open>stop\<close> and the turns of the server's loop in any order; \<open>tunnel_inv\<close> says where the
  packets are, and holds in every reachable state.
\<close>

section \<open>The pump's half\<close>

lemma wrap_packet_up: "wrap_packet pkt rnd p = (fst (up_wrap (vless_o p) (pkt, rnd)), p\<lparr>vless_o := snd (up_wrap (vless_o p) (pkt, rnd))\<rparr>)"
proof (cases "vless_o p")
  case None
  then have "p\<lparr>vless_o := None\<rparr> = p"
    by (metis (full_types) pump.surjective pump.update_convs(9) None)
  with None show ?thesis
    by (simp add: wrap_packet_def up_wrap_def)
qed (simp add: wrap_packet_def up_wrap_def case_prod_beta)

text \<open>A packet on a healthy connection, and on one that has been shut down.\<close>

lemma send_packet_sent:
  assumes "up_synced c hs (vless_o p, seq_out p) s" "up_ok (vless_o p, seq_out p) (pkt, rnd)" "reliable (out_sock p)"
  shows "\<exists>f. send_packet c hs pkt rnd p = bump f
      (p\<lparr>seq_out := seq_out p + 1, vless_o := fst (snd (up_send c hs (vless_o p, seq_out p) (pkt, rnd))),
         sealed_log := sealed_log p @ [(seq_out p, pkt)],
         out_sock := (out_sock p)\<lparr>sent := sent (out_sock p) @ frame_wire (fst (up_send c hs (vless_o p, seq_out p) (pkt, rnd)))\<rparr>\<rparr>) \<and>
    (\<forall>x. seal_errors (f x) = seal_errors x \<and> open_errors (f x) = open_errors x)"
proof -
  let ?ct = "fst (up_send c hs (vless_o p, seq_out p) (pkt, rnd))"
  note u = up_seals [OF assms(1,2), simplified]
  have w: "write_frame (out_sock p) ?ct = (Inr (), (out_sock p)\<lparr>sent := sent (out_sock p) @ frame_wire ?ct\<rparr>)"
    using u(2) assms(3) by (intro write_frame_reliable) (simp_all add: frame_ok_def)
  show ?thesis
    by (intro exI [of _ "\<lambda>s. s\<lparr>packets_out := packets_out s + 1, bytes_out := bytes_out s + length ?ct\<rparr>"])
       (simp add: send_packet_def wrap_packet_up u w Let_def)
qed

lemma send_packet_shut:
  assumes "up_synced c hs (vless_o p, seq_out p) s" "up_ok (vless_o p, seq_out p) (pkt, rnd)" "room (out_sock p) = Some 0"
  shows "\<exists>x w. send_packet c hs pkt rnd p =
      finish_out (halt_socket (p\<lparr>vless_o := x, sealed_log := sealed_log p @ [(seq_out p, pkt)], out_sock := w\<rparr>)) \<and>
    room w = Some 0"
proof -
  let ?ct = "fst (up_send c hs (vless_o p, seq_out p) (pkt, rnd))"
  note u = up_seals [OF assms(1,2), simplified]
  have "\<exists>e w. write_frame (out_sock p) ?ct = (Inl e, w) \<and> room w = Some 0"
    using assms(3) u(2) by (simp add: frame_ok_def write_frame_def write_all_def MAX_FRAME_LEN_def)
  then obtain e w where w: "write_frame (out_sock p) ?ct = (Inl e, w)" "room w = Some 0"
    by blast
  show ?thesis
    by (intro exI [of _ "snd (up_wrap (vless_o p) (pkt, rnd))"] exI [of _ w])
       (simp add: send_packet_def wrap_packet_up u w Let_def)
qed

lemma open_packet_down:
  assumes "down_recv c hs (vless_i p, seq) f = (Inr x, v', seq')"
  shows "open_packet c hs seq f (p\<lparr>seq_in := n\<rparr>) = (Some x, p\<lparr>seq_in := n, vless_i := v'\<rparr>)" "seq' = seq + 1"
proof -
  have same: "vless_i p = None \<Longrightarrow> p\<lparr>vless_i := None, seq_in := n\<rparr> = p\<lparr>seq_in := n\<rparr>"
    by (metis (full_types) pump.surjective pump.update_convs(10))
  show "open_packet c hs seq f (p\<lparr>seq_in := n\<rparr>) = (Some x, p\<lparr>seq_in := n, vless_i := v'\<rparr>)" "seq' = seq + 1"
    using assms same
    by (auto simp: down_recv_def open_packet_def map_err_def split: sum.splits option.splits prod.splits fault.splits)
qed

lemma inbound_received:
  assumes "\<not> stop_flag p" "in_sock p = map Byte (frame_wire f @ rest)" "frame_ok f"
    "down_recv c hs (vless_i p, seq_in p) f = (Inr x, v', seq')" "x \<noteq> []"
  shows "inbound c hs True p =
      bump (\<lambda>s. s\<lparr>delivered_packets := delivered_packets s + 1, delivered_bytes := delivered_bytes s + length x\<rparr>)
        (p\<lparr>in_sock := map Byte rest, seq_in := seq', vless_i := v', tun_written := tun_written p @ [x]\<rparr>)"
    "inbound c hs False p = finish_in (halt_socket (p\<lparr>in_sock := map Byte rest, vless_i := v'\<rparr>))"
proof -
  have "length f \<le> MAX_FRAME_LEN" "f \<noteq> []"
    using assms(3) by (simp_all add: frame_ok_def)
  then have i: "inbound c hs ok p = recv_packet c hs f ok (p\<lparr>in_sock := map Byte rest\<rparr>)" for ok
    using assms(1,2) read_frame_wire [of f "map Byte rest"] by (simp add: inbound_def)
  have "down_recv c hs (vless_i (p\<lparr>in_sock := map Byte rest\<rparr>), seq_in p) f = (Inr x, v', seq')"
    using assms(4) by simp
  note o' = open_packet_down [OF this]
  have o: "open_packet c hs (seq_in p) f (p\<lparr>in_sock := map Byte rest, seq_in := seq_in p + 1\<rparr>) =
      (Some x, p\<lparr>in_sock := map Byte rest, seq_in := seq_in p + 1, vless_i := v'\<rparr>)" "seq' = seq_in p + 1"
    using o'(1) [of "seq_in p + 1"] o'(2) by simp_all
  show "inbound c hs True p =
      bump (\<lambda>s. s\<lparr>delivered_packets := delivered_packets s + 1, delivered_bytes := delivered_bytes s + length x\<rparr>)
        (p\<lparr>in_sock := map Byte rest, seq_in := seq', vless_i := v', tun_written := tun_written p @ [x]\<rparr>)"
    "inbound c hs False p = finish_in (halt_socket (p\<lparr>in_sock := map Byte rest, vless_i := v'\<rparr>))"
    using assms(5) by (simp_all add: i recv_packet_def o Let_def)
qed

section \<open>Interleavings of both ends\<close>

text \<open>The connection while it is up: the server reads what the pump's socket has taken and it has not read
  yet, and what it writes is appended to the pump's \<open>in_sock\<close>.  A thread that would block in a read does
  not step: the pump reads when there are bytes or the socket has been shut down, the server when there
  are bytes.\<close>

record tunnel =
  t_pump :: pump
  t_server :: server_session
  t_sink :: sink
  t_read :: nat
  t_failed :: bool

definition to_server :: "tunnel \<Rightarrow> bytes" where
  "to_server t = drop (t_read t) (sent (out_sock (t_pump t)))"

definition server_step :: "crypto \<Rightarrow> (nat \<Rightarrow> u64) \<Rightarrow> tunnel \<Rightarrow> tunnel" where
  "server_step c rnd t =
     (case server_turn c rnd (map Byte (to_server t)) (t_sink t) (t_server t) of
        (x, r, w, s) \<Rightarrow>
          t\<lparr>t_pump := (t_pump t)\<lparr>in_sock := in_sock (t_pump t) @ map Byte (drop (length (sent (t_sink t))) (sent w))\<rparr>,
            t_server := s, t_sink := w, t_read := length (sent (out_sock (t_pump t))) - length r,
            t_failed := t_failed t \<or> x \<noteq> Inr True\<rparr>)"

inductive tunnel_step :: "crypto \<Rightarrow> handshake_state \<Rightarrow> tunnel \<Rightarrow> tunnel \<Rightarrow> bool" for c hs where
  client_out: "out_live (t_pump t) \<Longrightarrow> tunnel_step c hs t (t\<lparr>t_pump := outbound c hs ev (t_pump t)\<rparr>)"
| client_in: "in_live (t_pump t) \<Longrightarrow>
    in_sock (t_pump t) \<noteq> [] \<or> room (out_sock (t_pump t)) \<noteq> None \<or> stop_flag (t_pump t) \<Longrightarrow>
    tunnel_step c hs t (t\<lparr>t_pump := inbound c hs tun_ok (t_pump t)\<rparr>)"
| client_stop: "tunnel_step c hs t (t\<lparr>t_pump := stop (t_pump t)\<rparr>)"
| server: "room (out_sock (t_pump t)) = None \<Longrightarrow> to_server t \<noteq> [] \<Longrightarrow> \<not> t_failed t \<Longrightarrow>
    tunnel_step c hs t (server_step c rnd t)"

inductive_cases tunnel_stepE: "tunnel_step c hs t t'"

abbreviation tunnel_run :: "crypto \<Rightarrow> handshake_state \<Rightarrow> tunnel \<Rightarrow> tunnel \<Rightarrow> bool" where
  "tunnel_run c hs \<equiv> (tunnel_step c hs)\<^sup>*\<^sup>*"

abbreviation packets :: "tunnel \<Rightarrow> bytes list" where
  "packets t \<equiv> map snd (sealed_log (t_pump t))"

abbreviation delivered :: "tunnel \<Rightarrow> bytes list" where
  "delivered t \<equiv> tun_written (t_pump t)"

text \<open>All packets are with the server, or on their way to it (\<open>xs\<close> in the frames \<open>ups\<close>), on their way back
  (\<open>ys\<close> in \<open>downs\<close>), or have arrived (\<open>seen\<close>).  A dead inbound thread keeps nothing else from happening.\<close>

definition in_flight ::
    "crypto \<Rightarrow> handshake_state \<Rightarrow> u64 \<Rightarrow> tunnel \<Rightarrow> bytes list \<Rightarrow> bytes list \<Rightarrow> bytes list \<Rightarrow> bytes list \<Rightarrow> bytes list \<Rightarrow> bool" where
  "in_flight c hs next_in t ups xs downs ys seen \<longleftrightarrow>
     reliable (out_sock (t_pump t)) \<and> reliable (t_sink t) \<and>
     going_up c hs (vless_o (t_pump t), seq_out (t_pump t)) ups xs (t_server t) \<and>
     (\<exists>r. going_down c hs (t_server t) (down_of (t_server t)) downs ys r \<and>
        (in_live (t_pump t) \<longrightarrow> r = (vless_i (t_pump t), seq_in (t_pump t)))) \<and>
     (\<forall>f \<in> set ups \<union> set downs. frame_ok f) \<and>
     to_server t = frames_wire ups \<and> t_read t \<le> length (sent (out_sock (t_pump t))) \<and>
     packets t = seen @ ys @ xs \<and>
     ss_seq_out (t_server t) = next_in + word_of_nat (length seen + length ys) \<and>
     (in_live (t_pump t) \<longrightarrow> delivered t = seen \<and> in_sock (t_pump t) = map Byte (frames_wire downs))"

definition shut_down :: "crypto \<Rightarrow> handshake_state \<Rightarrow> tunnel \<Rightarrow> bool" where
  "shut_down c hs t \<longleftrightarrow> room (out_sock (t_pump t)) = Some 0 \<and> in_sock (t_pump t) = [] \<and>
     (out_live (t_pump t) \<longrightarrow> (\<exists>s. up_synced c hs (vless_o (t_pump t), seq_out (t_pump t)) s))"

definition tunnel_inv :: "crypto \<Rightarrow> handshake_state \<Rightarrow> u64 \<Rightarrow> u64 \<Rightarrow> nat \<Rightarrow> nat \<Rightarrow> tunnel \<Rightarrow> bool" where
  "tunnel_inv c hs next_out next_in se oe t \<longleftrightarrow>
     \<not> t_failed t \<and> prefix (delivered t) (packets t) \<and> (\<forall>x \<in> set (packets t). x \<noteq> [] \<and> length x \<le> 60000) \<and>
     seal_errors (stats (t_pump t)) = se \<and> open_errors (stats (t_pump t)) = oe \<and>
     (out_live (t_pump t) \<longrightarrow> seq_out (t_pump t) = next_out + word_of_nat (length (packets t))) \<and>
     ((\<exists>ups xs downs ys seen. prefix (delivered t) seen \<and> in_flight c hs next_in t ups xs downs ys seen) \<or> shut_down c hs t)"

text \<open>What bookkeeping does to a pump: nothing, or the socket is shut down.\<close>

definition bookkeeping :: "pump \<Rightarrow> pump \<Rightarrow> bool" where
  "bookkeeping p p' \<longleftrightarrow> vless_o p' = vless_o p \<and> seq_out p' = seq_out p \<and> vless_i p' = vless_i p \<and> seq_in p' = seq_in p \<and>
     sealed_log p' = sealed_log p \<and> tun_written p' = tun_written p \<and>
     seal_errors (stats p') = seal_errors (stats p) \<and> open_errors (stats p') = open_errors (stats p) \<and>
     (in_live p' \<longrightarrow> in_live p) \<and> (out_live p' \<longrightarrow> out_live p) \<and>
     (out_sock p' = out_sock p \<and> in_sock p' = in_sock p \<or>
        room (out_sock p') = Some 0 \<and> in_sock p' = [])"

lemma bookkeeping_intros [simp, intro]:
  "bookkeeping p p" "bookkeeping p (finish_out p)" "bookkeeping p (finish_in p)" "bookkeeping p (stop p)"
  "(\<And>s. seal_errors (f s) = seal_errors s \<and> open_errors (f s) = open_errors s) \<Longrightarrow> bookkeeping p (bump f p)"
  by (auto simp: bookkeeping_def finish_out_def finish_in_def stop_def thread_finished_def halt_socket_def bump_def)

lemma bookkeeping_trans: "bookkeeping p q \<Longrightarrow> bookkeeping q r \<Longrightarrow> bookkeeping p r"
  by (auto simp: bookkeeping_def)

lemma in_flight_synced: "in_flight c hs n t ups xs downs ys seen \<Longrightarrow> \<exists>s. up_synced c hs (vless_o (t_pump t), seq_out (t_pump t)) s"
  by (auto simp: in_flight_def dest: uplink.catch_up)

lemma inv_synced: "tunnel_inv c hs n m se oe t \<Longrightarrow> out_live (t_pump t) \<Longrightarrow> \<exists>s. up_synced c hs (vless_o (t_pump t), seq_out (t_pump t)) s"
  unfolding tunnel_inv_def shut_down_def by (elim conjE disjE exE) (rule in_flight_synced, assumption, simp)

lemma shut_inv:
  assumes "room (out_sock p) = Some 0" "in_sock p = []" "out_live p \<longrightarrow> (\<exists>s. up_synced c hs (vless_o p, seq_out p) s)"
    "\<not> t_failed t" "prefix (tun_written p) (map snd (sealed_log p))"
    "\<forall>x \<in> set (map snd (sealed_log p)). x \<noteq> [] \<and> length x \<le> 60000"
    "seal_errors (stats p) = se" "open_errors (stats p) = oe"
    "out_live p \<longrightarrow> seq_out p = next_out + word_of_nat (length (sealed_log p))"
  shows "tunnel_inv c hs next_out next_in se oe (t\<lparr>t_pump := p\<rparr>)"
  using assms by (simp add: tunnel_inv_def shut_down_def)

lemma flight_inv:
  assumes "in_flight c hs next_in t ups xs downs ys seen" "prefix (delivered t) seen"
    "\<not> t_failed t" "\<forall>x \<in> set (packets t). x \<noteq> [] \<and> length x \<le> 60000"
    "seal_errors (stats (t_pump t)) = se" "open_errors (stats (t_pump t)) = oe"
    "out_live (t_pump t) \<longrightarrow> seq_out (t_pump t) = next_out + word_of_nat (length (packets t))"
  shows "tunnel_inv c hs next_out next_in se oe t"
proof -
  have "prefix (delivered t) (packets t)"
    using assms(1,2) by (auto simp: in_flight_def intro: prefix_prefix)
  then show ?thesis
    unfolding tunnel_inv_def using assms by blast
qed

lemma inv_bookkeeping:
  assumes "tunnel_inv c hs next_out next_in se oe t" "bookkeeping (t_pump t) p"
  shows "tunnel_inv c hs next_out next_in se oe (t\<lparr>t_pump := p\<rparr>)"
proof (cases "room (out_sock p) = Some 0 \<and> in_sock p = []")
  case True
  with assms(2) have "out_live p \<longrightarrow> (\<exists>s. up_synced c hs (vless_o p, seq_out p) s)"
    using inv_synced [OF assms(1)] by (auto simp: bookkeeping_def)
  with True assms show ?thesis
    by (intro shut_inv) (auto simp: tunnel_inv_def bookkeeping_def)
next
  case False
  with assms(2) have same: "out_sock p = out_sock (t_pump t)" "in_sock p = in_sock (t_pump t)"
    by (auto simp: bookkeeping_def)
  with False assms(1) obtain ups xs downs ys seen where
    "prefix (delivered t) seen" "in_flight c hs next_in t ups xs downs ys seen"
    by (auto simp: tunnel_inv_def shut_down_def)
  then have "prefix (delivered (t\<lparr>t_pump := p\<rparr>)) seen" "in_flight c hs next_in (t\<lparr>t_pump := p\<rparr>) ups xs downs ys seen"
    using assms(2) same by (auto simp: in_flight_def bookkeeping_def to_server_def)
  from this(2,1) assms show ?thesis
    by (intro flight_inv) (auto simp: tunnel_inv_def bookkeeping_def)
qed

section \<open>Every step keeps the invariant\<close>

lemma counter_room: "unat (n :: u64) + Suc k < 2 ^ 64 \<Longrightarrow> n + word_of_nat k \<noteq> -1"
proof
  assume a: "unat n + Suc k < 2 ^ 64" and "n + word_of_nat k = -1"
  then have "unat (n + word_of_nat k) = 2 ^ 64 - 1"
    by (simp add: unsigned_minus_1_eq_mask mask_eq_exp_minus_1)
  moreover have "unat (n + word_of_nat k) = unat n + k"
    using a by (simp add: unat_word_ariths unat_of_nat)
  ultimately show False
    using a by simp
qed

lemma inv_shut:
  assumes "shut_down c hs t" "tunnel_inv c hs next_out next_in se oe t" "out_live (t_pump t)"
    "unat next_out + Suc (length (packets t)) < 2 ^ 64" "pkt \<noteq> []" "length pkt \<le> 60000"
  shows "tunnel_inv c hs next_out next_in se oe (t\<lparr>t_pump := send_packet c hs pkt rnd (t_pump t)\<rparr>)"
proof -
  obtain s where s: "up_synced c hs (vless_o (t_pump t), seq_out (t_pump t)) s" "room (out_sock (t_pump t)) = Some 0" "in_sock (t_pump t) = []"
    using assms(1,3) by (auto simp: shut_down_def)
  have "up_ok (vless_o (t_pump t), seq_out (t_pump t)) (pkt, rnd)"
    using assms(2-4,6) counter_room [of next_out "length (packets t)"] by (auto simp: up_ok_def tunnel_inv_def)
  from send_packet_shut [OF s(1) this s(2)] obtain x w where "send_packet c hs pkt rnd (t_pump t) =
      finish_out (halt_socket ((t_pump t)\<lparr>vless_o := x, sealed_log := sealed_log (t_pump t) @ [(seq_out (t_pump t), pkt)], out_sock := w\<rparr>))"
    "room w = Some 0"
    by blast
  with s(3) assms(2,5,6) show ?thesis
    by (intro shut_inv) (auto simp: tunnel_inv_def finish_out_def thread_finished_def halt_socket_def)
qed

lemma inv_send:
  assumes "tunnel_inv c hs next_out next_in se oe t" "out_live (t_pump t)"
    "unat next_out + Suc (length (packets t)) < 2 ^ 64" "pkt \<noteq> []" "length pkt \<le> 60000"
  shows "tunnel_inv c hs next_out next_in se oe (t\<lparr>t_pump := send_packet c hs pkt rnd (t_pump t)\<rparr>)"
proof (cases "shut_down c hs t")
  case True
  with assms inv_shut show ?thesis by blast
next
  case False
  let ?p = "t_pump t"
  let ?w = "(vless_o ?p, seq_out ?p)"
  obtain ups xs downs ys seen where fl: "in_flight c hs next_in t ups xs downs ys seen" "prefix (delivered t) seen"
    using False assms(1) by (auto simp: tunnel_inv_def)
  have seq: "seq_out ?p = next_out + word_of_nat (length (packets t))"
    using assms(1,2) by (simp add: tunnel_inv_def)
  have ok: "up_ok ?w (pkt, rnd)"
    using assms(3,5) seq counter_room [of next_out "length (packets t)"] by (simp add: up_ok_def)
  obtain s where s: "up_synced c hs ?w s"
    using inv_synced [OF assms(1,2)] by blast
  have rel: "reliable (out_sock ?p)"
    using fl(1) by (simp add: in_flight_def)
  define ct where "ct = fst (up_send c hs ?w (pkt, rnd))"
  note u = up_seals [OF s ok, simplified, folded ct_def]
  obtain f where f: "send_packet c hs pkt rnd ?p = bump f
      (?p\<lparr>seq_out := seq_out ?p + 1, vless_o := fst (snd (up_send c hs ?w (pkt, rnd))),
         sealed_log := sealed_log ?p @ [(seq_out ?p, pkt)],
         out_sock := (out_sock ?p)\<lparr>sent := sent (out_sock ?p) @ frame_wire ct\<rparr>\<rparr>)"
    "\<forall>x. seal_errors (f x) = seal_errors x \<and> open_errors (f x) = open_errors x"
    using send_packet_sent [OF s ok rel] by (auto simp: ct_def)
  have up: "going_up c hs ?w ups xs (t_server t)"
    using fl(1) by (simp add: in_flight_def)
  have "going_up c hs (snd (up_send c hs ?w (pkt, rnd))) (ups @ [ct]) (xs @ [pkt]) (t_server t)"
    using in_transit_send [OF up, of "(pkt, rnd)"] ok by (simp add: ct_def)
  then have "going_up c hs (fst (snd (up_send c hs ?w (pkt, rnd))), seq_out ?p + 1) (ups @ [ct]) (xs @ [pkt]) (t_server t)"
    by (simp add: u(3))
  then have fl': "in_flight c hs next_in (t\<lparr>t_pump := send_packet c hs pkt rnd ?p\<rparr>) (ups @ [ct]) (xs @ [pkt]) downs ys seen"
    using fl(1) u(2) unfolding f(1) in_flight_def by (auto simp: to_server_def frames_wire_def)
  have "seq_out ?p + 1 = next_out + word_of_nat (Suc (length (packets t)))"
    using seq by simp
  with fl(2) assms(1,4,5) f show ?thesis
    by (intro flight_inv [OF fl']) (auto simp: tunnel_inv_def)
qed

lemma inv_out:
  assumes "tunnel_inv c hs next_out next_in se oe t" "out_live (t_pump t)"
    "unat next_out + Suc (length (packets t)) < 2 ^ 64"
  shows "tunnel_inv c hs next_out next_in se oe (t\<lparr>t_pump := outbound c hs ev (t_pump t)\<rparr>)"
proof (cases rule: outbound_shapes [of c hs ev "t_pump t"])
  case (packet pkt rnd)
  let ?p = "bump (\<lambda>s. s\<lparr>packets_in := packets_in s + 1, bytes_in := bytes_in s + length pkt\<rparr>) (t_pump t)"
  have "tunnel_inv c hs next_out next_in se oe (t\<lparr>t_pump := ?p\<rparr>)"
    by (rule inv_bookkeeping [OF assms(1)]) auto
  from inv_send [OF this, of pkt rnd] packet assms(2,3) show ?thesis
    by (simp add: READ_BUF_def)
next
  case (dropped pkt)
  show ?thesis
    unfolding dropped(3) by (intro inv_bookkeeping [OF assms(1)] bookkeeping_trans [OF bookkeeping_intros(5) bookkeeping_intros(5)]) auto
qed (use assms(1) in \<open>auto intro: inv_bookkeeping\<close>)

lemma inv_in_shut:
  assumes "tunnel_inv c hs next_out next_in se oe t" "in_sock (t_pump t) = []"
  shows "tunnel_inv c hs next_out next_in se oe (t\<lparr>t_pump := inbound c hs ok (t_pump t)\<rparr>)"
proof -
  have "(t_pump t)\<lparr>in_sock := []\<rparr> = t_pump t"
    using assms(2) by (metis (full_types) pump.surjective pump.update_convs(12))
  then have "finish_in ((t_pump t)\<lparr>in_sock := []\<rparr>) = finish_in (t_pump t)"
    by (simp only:)
  then have "inbound c hs ok (t_pump t) = finish_in (t_pump t)"
    using assms(2) by (simp add: inbound_def read_frame_empty)
  with assms(1) show ?thesis
    by (auto intro: inv_bookkeeping)
qed

text \<open>A frame that the inbound thread delivers moves from the queue \<open>downs\<close> to the TUN.\<close>

lemma flight_in:
  assumes "in_flight c hs next_in t ups xs (f # downs) ys seen" "in_live (t_pump t)" "\<not> stop_flag (t_pump t)"
    "\<forall>x \<in> set (packets t). x \<noteq> []"
  shows "\<exists>x ys' v' seq'. ys = x # ys' \<and>
    inbound c hs True (t_pump t) =
      bump (\<lambda>s. s\<lparr>delivered_packets := delivered_packets s + 1, delivered_bytes := delivered_bytes s + length x\<rparr>)
        ((t_pump t)\<lparr>in_sock := map Byte (frames_wire downs), seq_in := seq', vless_i := v', tun_written := tun_written (t_pump t) @ [x]\<rparr>) \<and>
    inbound c hs False (t_pump t) = finish_in (halt_socket ((t_pump t)\<lparr>in_sock := map Byte (frames_wire downs), vless_i := v'\<rparr>)) \<and>
    in_flight c hs next_in (t\<lparr>t_pump := inbound c hs True (t_pump t)\<rparr>) ups xs downs ys' (seen @ [x])"
proof -
  let ?p = "t_pump t"
  have fl: "delivered t = seen" "in_sock ?p = map Byte (frame_wire f @ frames_wire downs)" "frame_ok f"
    "packets t = seen @ ys @ xs"
    and down: "going_down c hs (t_server t) (down_of (t_server t)) (f # downs) ys (vless_i ?p, seq_in ?p)"
    using assms(1,2) by (auto simp: in_flight_def frames_wire_def)
  obtain x ys' v' seq' where x: "ys = x # ys'" "down_recv c hs (vless_i ?p, seq_in ?p) f = (Inr x, v', seq')"
    "going_down c hs (t_server t) (down_of (t_server t)) downs ys' (v', seq')"
    using downlink.receive [OF down] by auto
  have "x \<noteq> []"
    using assms(4) fl(4) x(1) by auto
  note inb = inbound_received [OF assms(3) fl(2,3) x(2) this]
  have "in_flight c hs next_in (t\<lparr>t_pump := inbound c hs True ?p\<rparr>) ups xs downs ys' (seen @ [x])"
    unfolding inb(1) using assms(1) x fl by (auto simp: in_flight_def to_server_def)
  with x(1) inb show ?thesis
    by blast
qed

lemma inv_in_frame:
  assumes "tunnel_inv c hs next_out next_in se oe t" "in_live (t_pump t)" "\<not> stop_flag (t_pump t)"
    "in_flight c hs next_in t ups xs (f # downs) ys seen"
  shows "tunnel_inv c hs next_out next_in se oe (t\<lparr>t_pump := inbound c hs ok (t_pump t)\<rparr>)"
proof -
  let ?p = "t_pump t"
  have seen: "delivered t = seen"
    using assms(2,4) by (simp add: in_flight_def)
  have "\<forall>x \<in> set (packets t). x \<noteq> []"
    using assms(1) by (simp add: tunnel_inv_def)
  from flight_in [OF assms(4,2,3) this] obtain x ys' v' seq' where fl: "ys = x # ys'"
    "inbound c hs True ?p = bump (\<lambda>s. s\<lparr>delivered_packets := delivered_packets s + 1, delivered_bytes := delivered_bytes s + length x\<rparr>)
        (?p\<lparr>in_sock := map Byte (frames_wire downs), seq_in := seq', vless_i := v', tun_written := tun_written ?p @ [x]\<rparr>)"
    "inbound c hs False ?p = finish_in (halt_socket (?p\<lparr>in_sock := map Byte (frames_wire downs), vless_i := v'\<rparr>))"
    "in_flight c hs next_in (t\<lparr>t_pump := inbound c hs True ?p\<rparr>) ups xs downs ys' (seen @ [x])"
    by blast
  show ?thesis
  proof (cases ok)
    case True
    have "tunnel_inv c hs next_out next_in se oe (t\<lparr>t_pump := inbound c hs True ?p\<rparr>)"
      using assms(1) seen fl(2) by (intro flight_inv [OF fl(4)]) (auto simp: tunnel_inv_def)
    with True show ?thesis
      by simp
  next
    case False
    define q where "q = finish_in (halt_socket (?p\<lparr>in_sock := map Byte (frames_wire downs), vless_i := v'\<rparr>))"
    have q: "\<not> in_live q" "out_live q = out_live ?p" "sealed_log q = sealed_log ?p" "tun_written q = tun_written ?p" "stats q = stats ?p"
      "seq_out q = seq_out ?p" "vless_o q = vless_o ?p" "(room (out_sock q) = Some 0 \<and> in_sock q = []) \<or> out_sock q = out_sock ?p"
      by (auto simp: q_def finish_in_def thread_finished_def halt_socket_def)
    have "tunnel_inv c hs next_out next_in se oe (t\<lparr>t_pump := q\<rparr>)"
    proof (cases "room (out_sock q) = Some 0 \<and> in_sock q = []")
      case True
      with q assms(1) inv_synced [OF assms(1)] show ?thesis
        by (intro shut_inv) (auto simp: tunnel_inv_def)
    next
      case False
      with q have fl': "in_flight c hs next_in (t\<lparr>t_pump := q\<rparr>) ups xs (f # downs) ys seen"
        using assms(4) by (auto simp: in_flight_def to_server_def)
      show ?thesis
        using q assms(1) seen by (intro flight_inv [OF fl']) (auto simp: tunnel_inv_def)
    qed
    with False fl(3) show ?thesis
      by (simp add: q_def)
  qed
qed

lemma inv_in:
  assumes "tunnel_inv c hs next_out next_in se oe t" "in_live (t_pump t)"
    "in_sock (t_pump t) \<noteq> [] \<or> room (out_sock (t_pump t)) \<noteq> None \<or> stop_flag (t_pump t)"
  shows "tunnel_inv c hs next_out next_in se oe (t\<lparr>t_pump := inbound c hs ok (t_pump t)\<rparr>)"
proof -
  consider "stop_flag (t_pump t)" | "in_sock (t_pump t) = []"
    | "\<not> stop_flag (t_pump t)" "in_sock (t_pump t) \<noteq> []" "\<not> shut_down c hs t"
    by (auto simp: shut_down_def)
  then show ?thesis
  proof cases
    case 1
    then have "inbound c hs ok (t_pump t) = finish_in (t_pump t)"
      by (simp add: inbound_def)
    with assms(1) show ?thesis
      by (auto intro: inv_bookkeeping)
  next
    case 2
    with assms(1) inv_in_shut show ?thesis by blast
  next
    case 3
    then obtain ups xs downs ys seen where fl: "in_flight c hs next_in t ups xs downs ys seen"
      using assms(1) by (auto simp: tunnel_inv_def)
    with 3 assms(2) obtain f fs where "downs = f # fs"
      by (cases downs) (auto simp: in_flight_def frames_wire_def)
    with fl inv_in_frame [OF assms(1,2) 3(1)] show ?thesis
      by blast
  qed
qed

text \<open>A turn of the server moves a packet from the queue \<open>ups\<close> to the queue \<open>downs\<close>.\<close>

lemma flight_server:
  assumes "in_flight c hs next_in t (f # ups) xs downs ys seen" "\<forall>x \<in> set (packets t). length x \<le> 60000"
    "unat next_in + length (packets t) < 2 ^ 64"
  shows "\<exists>x xs' g. xs = x # xs' \<and>
    t_pump (server_step c rnd t) = (t_pump t)\<lparr>in_sock := in_sock (t_pump t) @ map Byte (frame_wire g)\<rparr> \<and>
    t_failed (server_step c rnd t) = t_failed t \<and>
    in_flight c hs next_in (server_step c rnd t) ups xs' (downs @ [g]) (ys @ [x]) seen"
proof -
  obtain r where up: "going_up c hs (vless_o (t_pump t), seq_out (t_pump t)) (f # ups) xs (t_server t)"
    and down: "going_down c hs (t_server t) (down_of (t_server t)) downs ys r"
    and r: "in_live (t_pump t) \<longrightarrow> r = (vless_i (t_pump t), seq_in (t_pump t))"
    and f: "frame_ok f" "to_server t = frame_wire f @ frames_wire ups" and pk: "packets t = seen @ ys @ xs"
    and seq: "ss_seq_out (t_server t) = next_in + word_of_nat (length seen + length ys)" and rel: "reliable (t_sink t)"
    using assms(1) by (auto simp: in_flight_def frames_wire_def)
  have "xs \<noteq> []"
    using uplink.receive [OF up] by auto
  then have "unat next_in + Suc (length seen + length ys) < 2 ^ 64"
    using assms(3) arg_cong [OF pk, of length] by (cases xs) auto
  then have room: "ss_seq_out (t_server t) \<noteq> -1"
    unfolding seq by (rule counter_room)
  have short: "\<forall>x \<in> set xs. length x \<le> 60000"
    using assms(2) pk by auto
  obtain x xs' g s' where st: "xs = x # xs'" "server_record c f rnd (t_server t) = Inr (Some g, s')" "frame_ok g"
    "going_up c hs (vless_o (t_pump t), seq_out (t_pump t)) ups xs' s'"
    "going_down c hs s' (down_of s') (downs @ [g]) (ys @ [x]) r" "ss_seq_out s' = ss_seq_out (t_server t) + 1"
    using turn_step [OF up down f(1) short room] by blast
  let ?w = "(t_sink t)\<lparr>sent := sent (t_sink t) @ frame_wire g\<rparr>"
  have "server_turn c rnd (map Byte (to_server t)) (t_sink t) (t_server t) = (Inr True, map Byte (frames_wire ups), ?w, s')"
    using f read_frame_wire [of f "map Byte (frames_wire ups)"] st(2,3) write_frame_reliable [OF rel, of g]
    by (simp add: server_turn_def frame_ok_def)
  then have step: "server_step c rnd t = t\<lparr>t_pump := (t_pump t)\<lparr>in_sock := in_sock (t_pump t) @ map Byte (frame_wire g)\<rparr>,
      t_server := s', t_sink := ?w, t_read := length (sent (out_sock (t_pump t))) - length (frames_wire ups)\<rparr>"
    by (simp add: server_step_def)
  have "\<exists>pre. sent (out_sock (t_pump t)) = pre @ frames_wire ups"
    using f(2) append_take_drop_id [of "t_read t" "sent (out_sock (t_pump t))"] unfolding to_server_def
    by (metis append.assoc)
  then have "in_flight c hs next_in (server_step c rnd t) ups xs' (downs @ [g]) (ys @ [x]) seen"
    unfolding in_flight_def step
    by (intro conjI exI [of _ r])
       (use assms(1) st r pk seq f(1) in \<open>auto simp: in_flight_def to_server_def frames_wire_def\<close>)
  with st(1) step show ?thesis
    by auto
qed

lemma inv_server:
  assumes "tunnel_inv c hs next_out next_in se oe t" "room (out_sock (t_pump t)) = None" "to_server t \<noteq> []"
    "unat next_in + length (packets t) < 2 ^ 64"
  shows "tunnel_inv c hs next_out next_in se oe (server_step c rnd t)"
proof -
  obtain ups xs downs ys seen where fl: "in_flight c hs next_in t ups xs downs ys seen" "prefix (delivered t) seen"
    using assms(1,2) by (auto simp: tunnel_inv_def shut_down_def)
  then obtain f ups' where ups: "ups = f # ups'"
    using assms(3) by (cases ups) (auto simp: in_flight_def)
  have short: "\<forall>x \<in> set (packets t). length x \<le> 60000"
    using assms(1) by (simp add: tunnel_inv_def)
  obtain x xs' g where st:
    "t_pump (server_step c rnd t) = (t_pump t)\<lparr>in_sock := in_sock (t_pump t) @ map Byte (frame_wire g)\<rparr>"
    "t_failed (server_step c rnd t) = t_failed t"
    "in_flight c hs next_in (server_step c rnd t) ups' xs' (downs @ [g]) (ys @ [x]) seen"
    using flight_server [OF fl(1) [unfolded ups] short assms(4), of rnd] by blast
  show ?thesis
    using assms(1) fl(2) by (intro flight_inv [OF st(3)]) (auto simp: st(1,2) tunnel_inv_def)
qed

lemma packets_mono: "tunnel_step c hs t t' \<Longrightarrow> length (packets t) \<le> length (packets t')"
proof (erule tunnel_stepE)
  fix ev
  assume "t' = t\<lparr>t_pump := outbound c hs ev (t_pump t)\<rparr>"
  then show ?thesis
    by (cases rule: outbound_cases [of c hs ev "t_pump t"]) simp_all
qed (auto simp: server_step_def split: prod.splits)

lemma inv_step:
  assumes "tunnel_step c hs t t'" "tunnel_inv c hs next_out next_in se oe t"
    "unat next_out + Suc (length (packets t)) < 2 ^ 64" "unat next_in + Suc (length (packets t)) < 2 ^ 64"
  shows "tunnel_inv c hs next_out next_in se oe t'"
  using assms(1)
  by (cases rule: tunnel_stepE)
     (use assms(2-4) in \<open>auto intro: inv_out inv_in inv_server inv_bookkeeping\<close>)

lemma inv_run:
  assumes "tunnel_run c hs t t'" "tunnel_inv c hs next_out next_in se oe t"
    "unat next_out + Suc (length (packets t')) < 2 ^ 64" "unat next_in + Suc (length (packets t')) < 2 ^ 64"
  shows "tunnel_inv c hs next_out next_in se oe t'"
  using assms
proof (induction rule: rtranclp_induct)
  case (step y z)
  have "length (packets y) \<le> length (packets z)"
    by (rule packets_mono [OF step.hyps(2)])
  with step inv_step [OF step.hyps(2)] show ?case
    by simp
qed

lemma outbound_keeps:
  "\<not> stop_flag p \<Longrightarrow> in_live (outbound c hs ev p) = in_live p \<and> stop_flag (outbound c hs ev p) = stop_flag p"
proof (cases rule: outbound_shapes [of c hs ev p])
  case (packet pkt rnd)
  let ?p = "bump (\<lambda>s. s\<lparr>packets_in := packets_in s + 1, bytes_in := bytes_in s + length pkt\<rparr>) p"
  show ?thesis
    using packet by (cases rule: send_packet_shapes [of c hs pkt rnd ?p]) auto
qed auto

section \<open>The started tunnel\<close>

text \<open>A profile whose request header can be built, and a server session that expects what the pump sends.\<close>

definition vless_ok :: "vless_params \<Rightarrow> bool" where
  "vless_ok v \<longleftrightarrow> length (vp_uuid v) = 16 \<and> address_ok (vp_address v) \<and>
     (case vp_flow v of None \<Rightarrow> True | Some name \<Rightarrow> length name < 256 \<and> utf8_valid name) \<and>
     (case vless_out_new (vp_uuid v) (vp_flow v) (vp_command v) (vp_address v) (vp_port v) of
        Inr _ \<Rightarrow> True | Inl _ \<Rightarrow> False)"

definition peer_ready :: "crypto \<Rightarrow> handshake_state \<Rightarrow> pump_config \<Rightarrow> u64 \<Rightarrow> u64 \<Rightarrow> server_session \<Rightarrow> bool" where
  "peer_ready c hs cfg next_out next_in s \<longleftrightarrow>
     crypto_ok c \<and> linked hs s \<and> ss_seq_in s = next_out \<and> ss_seq_out s = next_in \<and>
     (case pc_vless cfg of
        None \<Rightarrow> ss_reader s = None \<and> ss_writer s = None
      | Some v \<Rightarrow> vless_ok v \<and> ss_uuid s = Some (vp_uuid v) \<and> ss_request s = None \<and>
          ss_reader s = Some (vision_reader_new (vp_uuid v)) \<and> ss_writer s = Some (vision_writer_new (vp_uuid v)))"

definition tunnel_new :: "pump \<Rightarrow> server_session \<Rightarrow> sink \<Rightarrow> tunnel" where
  "tunnel_new p s w = \<lparr>t_pump = p, t_server = s, t_sink = w, t_read = length (sent (out_sock p)), t_failed = False\<rparr>"

definition all_quiet :: "tunnel \<Rightarrow> bool" where
  "all_quiet t \<longleftrightarrow> room (out_sock (t_pump t)) = None \<and> in_live (t_pump t) \<and> to_server t = [] \<and> in_sock (t_pump t) = []"

lemma vless_started:
  assumes "vless_ok v" "pc_vless cfg = Some v" "ss_uuid s = Some (vp_uuid v)" "ss_request s = None"
  shows "\<exists>out. new_vless_out cfg = Some out \<and> header_pending out s \<and> vo_writer out = vision_writer_new (vp_uuid v)"
proof -
  obtain out where out: "vless_out_new (vp_uuid v) (vp_flow v) (vp_command v) (vp_address v) (vp_port v) = Inr out"
    using assms(1) by (auto simp: vless_ok_def split: sum.splits)
  have "\<forall>name. vp_flow v = Some name \<longrightarrow> length name < 256 \<and> utf8_valid name" "length (vp_uuid v) = 16" "address_ok (vp_address v)"
    using assms(1) by (auto simp: vless_ok_def)
  from fresh_header [OF out this(2,1,3) assms(3,4)] out assms(2) show ?thesis
    by (simp add: new_vless_out_def)
qed

lemma started_synced:
  assumes "start True halt_ok w [] cfg next_out next_in p = (Inr (), p0)" "peer_ready c hs cfg next_out next_in s"
  shows "up_synced c hs (vless_o p0, next_out) s"
    "down_synced c hs (ss_sid s) (ss_send_key s) (down_of s) (vless_i p0, next_in)"
    "vless_i p0 = map_option (\<lambda>v. vless_in_new (vp_uuid v)) (pc_vless cfg)"
proof -
  have p0: "vless_o p0 = new_vless_out cfg" "vless_i p0 = map_option (\<lambda>v. vless_in_new (vp_uuid v)) (pc_vless cfg)"
    using assms(1) by (auto simp: start_def Let_def split: if_splits)
  then show "vless_i p0 = map_option (\<lambda>v. vless_in_new (vp_uuid v)) (pc_vless cfg)"
    by simp
  have "up_synced c hs (vless_o p0, next_out) s \<and> down_synced c hs (ss_sid s) (ss_send_key s) (down_of s) (vless_i p0, next_in)"
  proof (cases "pc_vless cfg")
    case None
    then show ?thesis
      using assms(2) p0
      by (auto simp: peer_ready_def up_synced_def down_synced_def down_of_def answers_first_def new_vless_out_def linked_def)
  next
    case (Some v)
    then have v: "vless_ok v" "ss_uuid s = Some (vp_uuid v)" "ss_request s = None" "length (vp_uuid v) = 16"
      using assms(2) by (auto simp: peer_ready_def vless_ok_def)
    obtain out where "new_vless_out cfg = Some out" "header_pending out s" "vo_writer out = vision_writer_new (vp_uuid v)"
      using vless_started [OF v(1) Some v(2,3)] by blast
    with assms(2) p0 Some v synced_new [OF v(4)] show ?thesis
      by (simp add: peer_ready_def up_synced_def down_synced_def down_of_def answers_first_def linked_def reply_synced_def
          vless_in_new_def) (simp add: vision_writer_new_def)
  qed
  then show "up_synced c hs (vless_o p0, next_out) s"
    "down_synced c hs (ss_sid s) (ss_send_key s) (down_of s) (vless_i p0, next_in)"
    by simp_all
qed

lemma started_inv:
  assumes "start True halt_ok w [] cfg next_out next_in p = (Inr (), p0)" "peer_ready c hs cfg next_out next_in s"
    "reliable w" "reliable w'"
  shows "tunnel_inv c hs next_out next_in (seal_errors (stats p)) (open_errors (stats p)) (tunnel_new p0 s w')"
proof -
  have p0: "out_sock p0 = w" "in_sock p0 = []" "seq_out p0 = next_out" "seq_in p0 = next_in" "sealed_log p0 = []"
    "tun_written p0 = []" "stats p0 = stats p"
    using assms(1) by (auto simp: start_def Let_def split: if_splits)
  note sync = started_synced [OF assms(1,2)]
  have "in_flight c hs next_in (tunnel_new p0 s w') [] [] [] [] []"
    unfolding in_flight_def
    by (intro conjI exI [of _ "(vless_i p0, next_in)"])
       (use p0 assms(2-4) sync in \<open>auto simp: tunnel_new_def to_server_def frames_wire_def peer_ready_def intro: in_transit_empty\<close>)
  then show ?thesis
    using p0 by (intro flight_inv [where ups = "[]" and xs = "[]" and downs = "[]" and ys = "[]" and seen = "[]"]) (auto simp: tunnel_new_def)
qed

lemma quiet_delivered:
  assumes "in_flight c hs next_in t ups xs downs ys seen" "all_quiet t"
  shows "delivered t = packets t"
proof -
  have "ups = []" "downs = []" "delivered t = seen" "packets t = seen @ ys @ xs"
    using assms by (auto simp: in_flight_def all_quiet_def)
  moreover from this have "xs = []" "ys = []"
    using assms(1) by (auto simp: in_flight_def dest: in_transit_quiet)
  ultimately show ?thesis
    by simp
qed

text \<open>Letting the server, and then the inbound thread, work through their queues delivers everything.\<close>

lemma drain_server:
  assumes "in_flight c hs next_in t ups xs downs ys seen" "\<not> t_failed t" "\<forall>x \<in> set (packets t). x \<noteq> [] \<and> length x \<le> 60000"
    "unat next_in + length (packets t) < 2 ^ 64"
  shows "\<exists>t' downs' ys'. tunnel_run c hs t t' \<and> packets t' = packets t \<and> in_live (t_pump t') = in_live (t_pump t) \<and>
    stop_flag (t_pump t') = stop_flag (t_pump t) \<and> in_flight c hs next_in t' [] [] downs' ys' seen"
  using assms
proof (induction ups arbitrary: t xs downs ys)
  case Nil
  then have "xs = []"
    by (auto simp: in_flight_def dest: in_transit_quiet)
  with Nil show ?case
    by blast
next
  case (Cons f ups)
  have short: "\<forall>x \<in> set (packets t). length x \<le> 60000"
    using Cons.prems(3) by simp
  obtain x xs' g where st: "t_pump (server_step c no_draw t) = (t_pump t)\<lparr>in_sock := in_sock (t_pump t) @ map Byte (frame_wire g)\<rparr>"
    "t_failed (server_step c no_draw t) = t_failed t"
    "in_flight c hs next_in (server_step c no_draw t) ups xs' (downs @ [g]) (ys @ [x]) seen"
    using flight_server [OF Cons.prems(1) short Cons.prems(4), of no_draw] by blast
  have "tunnel_step c hs t (server_step c no_draw t)"
    using Cons.prems(1,2) by (intro server) (auto simp: in_flight_def reliable_def)
  moreover obtain t' downs' ys' where "tunnel_run c hs (server_step c no_draw t) t'" "packets t' = packets t"
    "in_live (t_pump t') = in_live (t_pump t)" "stop_flag (t_pump t') = stop_flag (t_pump t)"
    "in_flight c hs next_in t' [] [] downs' ys' seen"
    using Cons.IH [OF st(3)] Cons.prems(2-4) st(1,2) by auto
  ultimately show ?case
    by (blast intro: converse_rtranclp_into_rtranclp)
qed

lemma drain_client:
  assumes "in_flight c hs next_in t [] [] downs ys seen" "in_live (t_pump t)" "\<not> stop_flag (t_pump t)"
    "\<forall>x \<in> set (packets t). x \<noteq> []"
  shows "\<exists>t'. tunnel_run c hs t t' \<and> packets t' = packets t \<and> delivered t' = packets t"
  using assms
proof (induction downs arbitrary: t ys seen)
  case Nil
  then have "all_quiet t"
    by (auto simp: in_flight_def all_quiet_def reliable_def frames_wire_def)
  with quiet_delivered [OF Nil.prems(1)] show ?case
    by blast
next
  case (Cons f downs)
  let ?t = "t\<lparr>t_pump := inbound c hs True (t_pump t)\<rparr>"
  obtain x ys' v' seq' where st: "inbound c hs True (t_pump t) =
      bump (\<lambda>s. s\<lparr>delivered_packets := delivered_packets s + 1, delivered_bytes := delivered_bytes s + length x\<rparr>)
        ((t_pump t)\<lparr>in_sock := map Byte (frames_wire downs), seq_in := seq', vless_i := v', tun_written := tun_written (t_pump t) @ [x]\<rparr>)"
    "in_flight c hs next_in ?t [] [] downs ys' (seen @ [x])"
    using flight_in [OF Cons.prems] by blast
  have "in_sock (t_pump t) \<noteq> []"
    using Cons.prems(1,2) by (simp add: in_flight_def)
  then have step: "tunnel_step c hs t ?t"
    using Cons.prems(2) by (intro client_in) auto
  have "\<exists>t'. tunnel_run c hs ?t t' \<and> packets t' = packets ?t \<and> delivered t' = packets ?t"
    using Cons.prems(2-4) by (intro Cons.IH [OF st(2)]) (simp_all add: st(1))
  with step show ?case
    using st(1) by (auto intro: converse_rtranclp_into_rtranclp)
qed

section \<open>Properties\<close>

text \<open>C1. The tunnel is a FIFO queue: a pump and a server that agree on keys, counters and mode (raw or
  VLESS), in any interleaving of the pump's two threads, \<open>stop\<close>, TUN failures and the server's
  turns, never make the server fail, never fail to seal or to open a record, and what has been written
  to the TUN is always a prefix of the packets sealed, in their order; when nothing is under way it is
  all of them.\<close>

theorem pump_tunnel_in_order:
  assumes "start True halt_ok w [] cfg next_out next_in p = (Inr (), p0)" "peer_ready c hs cfg next_out next_in s"
    "reliable w" "reliable w'" "tunnel_run c hs (tunnel_new p0 s w') t"
    "unat next_out + Suc (length (packets t)) < 2 ^ 64" "unat next_in + Suc (length (packets t)) < 2 ^ 64"
  shows "\<not> t_failed t \<and> prefix (delivered t) (packets t) \<and>
    seal_errors (stats (t_pump t)) = seal_errors (stats p) \<and> open_errors (stats (t_pump t)) = open_errors (stats p) \<and>
    (all_quiet t \<longrightarrow> delivered t = packets t)"
proof -
  note inv = inv_run [OF assms(5) started_inv [OF assms(1-4)] assms(6,7)]
  have "delivered t = packets t" if "all_quiet t"
    using inv that quiet_delivered by (auto simp: tunnel_inv_def shut_down_def all_quiet_def)
  with inv show ?thesis
    by (simp add: tunnel_inv_def)
qed

text \<open>C3. Nothing gets lost: from every state of that system in which the connection is up, the inbound
  thread alive and no stop requested, the server and the inbound thread can go on until every packet
  sealed so far has been written to the TUN.\<close>

theorem pump_tunnel_drains:
  assumes "start True halt_ok w [] cfg next_out next_in p = (Inr (), p0)" "peer_ready c hs cfg next_out next_in s"
    "reliable w" "reliable w'" "tunnel_run c hs (tunnel_new p0 s w') t"
    "unat next_out + Suc (length (packets t)) < 2 ^ 64" "unat next_in + Suc (length (packets t)) < 2 ^ 64"
    "room (out_sock (t_pump t)) = None" "in_live (t_pump t)" "\<not> stop_flag (t_pump t)"
  shows "\<exists>t'. tunnel_run c hs t t' \<and> packets t' = packets t \<and> delivered t' = packets t"
proof -
  note inv = inv_run [OF assms(5) started_inv [OF assms(1-4)] assms(6,7)]
  then obtain ups xs downs ys seen where fl: "in_flight c hs next_in t ups xs downs ys seen"
    and pk: "\<not> t_failed t" "\<forall>x \<in> set (packets t). x \<noteq> [] \<and> length x \<le> 60000"
    using assms(8) by (auto simp: tunnel_inv_def shut_down_def)
  have "unat next_in + length (packets t) < 2 ^ 64"
    using assms(7) by simp
  from drain_server [OF fl pk this] obtain t1 downs' ys' where t1: "tunnel_run c hs t t1" "packets t1 = packets t"
    "in_live (t_pump t1)" "\<not> stop_flag (t_pump t1)" "in_flight c hs next_in t1 [] [] downs' ys' seen"
    using assms(9,10) by auto
  have "\<forall>x \<in> set (packets t1). x \<noteq> []"
    using t1(2) pk(2) by simp
  from drain_client [OF t1(5,3,4) this] t1(1,2) show ?thesis
    by (metis rtranclp_trans)
qed

lemma demo_tunnel:
  obtains p0 t where "start True True demo_sink [] demo_config 0 0 pump_new = (Inr (), p0)"
    "peer_ready demo_crypto demo_keyed demo_config 0 0 demo_server"
    "tunnel_run demo_crypto demo_keyed (tunnel_new p0 demo_server demo_sink) t" "packets t = [[0x45]]"
    "room (out_sock (t_pump t)) = None" "in_live (t_pump t)" "\<not> stop_flag (t_pump t)"
proof -
  obtain p0 where p0: "start True True demo_sink [] demo_config 0 0 pump_new = (Inr (), p0)"
    by (simp add: start_def pump_new_def Let_def)
  then have ev: "out_live p0" "\<not> stop_flag p0" "sealed_log p0 = []" "seq_out p0 = 0" "config p0 = demo_config" "vless_o p0 = None"
    "in_live p0" "out_sock p0 = demo_sink"
    by (auto simp: start_def pump_new_def Let_def demo_config_def new_vless_out_def)
  define t where "t = (tunnel_new p0 demo_server demo_sink)\<lparr>t_pump := outbound demo_crypto demo_keyed (TunData [0x45] no_draw) p0\<rparr>"
  have "block_ipv6 (config p0)"
    using ev(5) by (simp add: demo_config_def)
  note out = demo_outbound [OF ev(1-3,6) this]
  have "tunnel_step demo_crypto demo_keyed (tunnel_new p0 demo_server demo_sink) t"
    using client_out [of "tunnel_new p0 demo_server demo_sink" demo_crypto demo_keyed "TunData [0x45] no_draw"] ev(1)
    by (simp add: t_def tunnel_new_def)
  moreover have "peer_ready demo_crypto demo_keyed demo_config 0 0 demo_server"
    using demo_crypto_ok by (simp add: peer_ready_def demo_config_def demo_server_def demo_keyed_def linked_def demo_state_def)
  moreover have "packets t = [[0x45]]"
    using out(1) by (simp add: t_def)
  moreover have "room (out_sock (t_pump t)) = None"
    using out(2) ev(8) by (simp add: t_def)
  moreover have "in_live (t_pump t)" "\<not> stop_flag (t_pump t)"
    using outbound_keeps [OF ev(2)] ev by (simp_all add: t_def)
  ultimately show thesis
    by (intro that [OF p0]) (simp_all add: r_into_rtranclp)
qed

theorem pump_tunnel_in_order_witness:
  "\<exists>p0 t. tunnel_run demo_crypto demo_keyed (tunnel_new p0 demo_server demo_sink) t \<and> packets t = [[0x45]] \<and>
    \<not> t_failed t \<and> prefix (delivered t) [[0x45]] \<and> open_errors (stats (t_pump t)) = 0"
proof -
  obtain p0 t where t: "start True True demo_sink [] demo_config 0 0 pump_new = (Inr (), p0)"
    "peer_ready demo_crypto demo_keyed demo_config 0 0 demo_server"
    "tunnel_run demo_crypto demo_keyed (tunnel_new p0 demo_server demo_sink) t" "packets t = [[0x45]]"
    by (rule demo_tunnel)
  have "reliable demo_sink"
    by (simp add: reliable_def demo_sink_def)
  from pump_tunnel_in_order [OF t(1,2) this this t(3)] t(3,4) show ?thesis
    by (intro exI [of _ p0] exI [of _ t]) (simp add: pump_new_def default_stats_def)
qed

theorem pump_tunnel_drains_witness:
  "\<exists>p0 t. tunnel_run demo_crypto demo_keyed (tunnel_new p0 demo_server demo_sink) t \<and> delivered t = [[0x45]]"
proof -
  obtain p0 t where t: "start True True demo_sink [] demo_config 0 0 pump_new = (Inr (), p0)"
    "peer_ready demo_crypto demo_keyed demo_config 0 0 demo_server"
    "tunnel_run demo_crypto demo_keyed (tunnel_new p0 demo_server demo_sink) t" "packets t = [[0x45]]"
    "room (out_sock (t_pump t)) = None" "in_live (t_pump t)" "\<not> stop_flag (t_pump t)"
    by (rule demo_tunnel)
  have "reliable demo_sink"
    by (simp add: reliable_def demo_sink_def)
  from pump_tunnel_drains [OF t(1,2) this this t(3) _ _ t(5-7)] t(3,4) show ?thesis
    by simp (metis rtranclp_trans)
qed

end
