(* ===== verification/Device.thy ===== *)
theory Device
  imports Pump "HOL-Library.Sublist"
begin

text \<open>
  The pump on its file descriptors: the system-call wrappers of \<open>native/src/pump.rs\<close> and the iterations of
  the two threads on top of them.  The kernel's answers to \<open>read\<close> and \<open>write\<close> are lists; a call whose answers
  are used up has not returned, which is the value \<open>None\<close>.  What \<open>write\<close> has accepted is kept call by
  call, because a TUN device takes each call for a packet.
\<close>

section \<open>System calls\<close>

datatype poll_flag = POLLIN | POLLHUP | POLLERR | Other_event

datatype read_answer = Got bytes | ReadFailed io_kind

datatype write_answer = Whole | Partial nat | WriteFailed io_kind

record tun_device =
  reads :: "read_answer list"
  writes :: "write_answer list"
  taken :: "bytes list"

definition wait_readable :: "int \<Rightarrow> poll_flag set \<Rightarrow> bool" where
  "wait_readable ready revents \<longleftrightarrow> 0 < ready \<and> revents \<inter> {POLLIN, POLLHUP, POLLERR} \<noteq> {}"

fun read_fd :: "nat \<Rightarrow> read_answer list \<Rightarrow> (io_kind + bytes) option \<times> read_answer list" where
  "read_fd len [] = (None, [])"
| "read_fd len (Got bs # k) = (Some (Inr (take len bs)), k)"
| "read_fd len (ReadFailed e # k) = (if e \<noteq> Interrupted then (Some (Inl e), k) else read_fd len k)"

fun fd_write :: "bytes \<Rightarrow> write_answer list \<Rightarrow> (io_kind + nat) option \<times> write_answer list" where
  "fd_write buf [] = (None, [])"
| "fd_write buf (Whole # k) = (Some (Inr (length buf)), k)"
| "fd_write buf (Partial n # k) = (Some (Inr (min n (length buf))), k)"
| "fd_write buf (WriteFailed e # k) = (if e \<noteq> Interrupted then (Some (Inl e), k) else fd_write buf k)"

lemma fd_write_shorter: "fd_write buf k = (Some x, k') \<Longrightarrow> length k' < length k"
  by (induction buf k rule: fd_write.induct) (auto split: if_splits)

text \<open>\<open>Write::write_all\<close> of the standard library on the descriptor.\<close>

function fd_write_all :: "bytes \<Rightarrow> write_answer list \<Rightarrow> bytes list \<Rightarrow> (io_kind + unit) option \<times> write_answer list \<times> bytes list" where
  "fd_write_all buf k out =
     (if buf = [] then (Some (Inr ()), k, out)
      else case fd_write buf k of
        (None, k') \<Rightarrow> (None, k', out)
      | (Some (Inr n), k') \<Rightarrow>
          if n = 0 then (Some (Inl WriteZero), k', out) else fd_write_all (drop n buf) k' (out @ [take n buf])
      | (Some (Inl e), k') \<Rightarrow> if e = Interrupted then fd_write_all buf k' out else (Some (Inl e), k', out))"
  by pat_completeness auto
termination
  by (relation "measure (\<lambda>(_, k, _). length k)") (auto dest: fd_write_shorter [OF sym])

declare fd_write_all.simps [simp del]

section \<open>The threads on the device\<close>

text \<open>One iteration of the outbound loop: \<open>poll\<close> answers \<open>ready\<close> and \<open>revents\<close>.\<close>

definition dev_outbound ::
    "crypto \<Rightarrow> handshake_state \<Rightarrow> int \<Rightarrow> poll_flag set \<Rightarrow> (nat \<Rightarrow> u64) \<Rightarrow> pump \<Rightarrow> tun_device \<Rightarrow> (pump \<times> tun_device) option" where
  "dev_outbound c hs ready revents rnd p d =
     (if stop_flag p then Some (finish_out p, d)
      else if \<not> wait_readable ready revents then Some (p, d)
      else case read_fd READ_BUF (reads d) of
        (None, _) \<Rightarrow> None
      | (Some (Inr pkt), k) \<Rightarrow>
          let d = d\<lparr>reads := k\<rparr> in
          if pkt = [] then Some (finish_out p, d)
          else let p = bump (\<lambda>s. s\<lparr>packets_in := packets_in s + 1, bytes_in := bytes_in s + length pkt\<rparr>) p in
            if block_ipv6 (config p) \<and> ip_version pkt = 6
            then Some (bump (\<lambda>s. s\<lparr>dropped_packets := dropped_packets s + 1\<rparr>) p, d)
            else Some (send_packet c hs pkt rnd p, d)
      | (Some (Inl e), k) \<Rightarrow>
          if e = Interrupted then Some (p, d\<lparr>reads := k\<rparr>) else Some (finish_out p, d\<lparr>reads := k\<rparr>))"

definition dev_recv :: "crypto \<Rightarrow> handshake_state \<Rightarrow> bytes \<Rightarrow> pump \<Rightarrow> tun_device \<Rightarrow> (pump \<times> tun_device) option" where
  "dev_recv c hs frame p d =
     (let seq = seq_in p;
          p = p\<lparr>seq_in := seq_in p + 1\<rparr>
      in case open_packet c hs seq frame p of
        (Some packet, p) \<Rightarrow>
          (case fd_write_all packet (writes d) (taken d) of
             (None, _) \<Rightarrow> None
           | (Some (Inr _), k, out) \<Rightarrow>
               Some (bump (\<lambda>s. s\<lparr>delivered_packets := delivered_packets s + 1,
                                 delivered_bytes := delivered_bytes s + length packet\<rparr>)
                       (p\<lparr>tun_written := tun_written p @ (if packet = [] then [] else [packet])\<rparr>),
                     d\<lparr>writes := k, taken := out\<rparr>)
           | (Some (Inl _), k, out) \<Rightarrow>
               Some (finish_in (halt_socket (p\<lparr>seq_in := seq_in p - 1\<rparr>)), d\<lparr>writes := k, taken := out\<rparr>))
      | (None, p) \<Rightarrow> Some (bump (\<lambda>s. s\<lparr>open_errors := open_errors s + 1\<rparr>) (p\<lparr>seq_in := seq_in p - 1\<rparr>), d))"

definition dev_inbound :: "crypto \<Rightarrow> handshake_state \<Rightarrow> pump \<Rightarrow> tun_device \<Rightarrow> (pump \<times> tun_device) option" where
  "dev_inbound c hs p d =
     (if stop_flag p then Some (finish_in p, d)
      else case read_frame (in_sock p) of
        (Inr (Some frame), r) \<Rightarrow>
          if frame = [] then Some (p\<lparr>in_sock := r\<rparr>, d) else dev_recv c hs frame (p\<lparr>in_sock := r\<rparr>) d
      | (Inr None, r) \<Rightarrow> Some (finish_in (p\<lparr>in_sock := r\<rparr>), d)
      | (Inl _, r) \<Rightarrow> Some (finish_in (p\<lparr>in_sock := r\<rparr>), d))"

inductive dev_step :: "crypto \<Rightarrow> handshake_state \<Rightarrow> pump \<times> tun_device \<Rightarrow> pump \<times> tun_device \<Rightarrow> bool" for c hs where
  dev_out: "out_live p \<Longrightarrow> dev_outbound c hs ready revents rnd p d = Some x \<Longrightarrow> dev_step c hs (p, d) x"
| dev_in: "in_live p \<Longrightarrow> dev_inbound c hs p d = Some x \<Longrightarrow> dev_step c hs (p, d) x"
| dev_stop: "dev_step c hs (p, d) (stop p, d)"

inductive_cases dev_stepE: "dev_step c hs (p, d) x"

abbreviation dev_run :: "crypto \<Rightarrow> handshake_state \<Rightarrow> pump \<times> tun_device \<Rightarrow> pump \<times> tun_device \<Rightarrow> bool" where
  "dev_run c hs \<equiv> (dev_step c hs)\<^sup>*\<^sup>*"

text \<open>A device that takes each packet as a whole or not at all.\<close>

definition whole_packets :: "tun_device \<Rightarrow> bool" where
  "whole_packets d \<longleftrightarrow> (\<forall>n. Partial n \<notin> set (writes d))"

text \<open>The answers to the system calls without the interrupted ones.\<close>

definition calm_reads :: "read_answer list \<Rightarrow> read_answer list" where
  "calm_reads = filter (\<lambda>a. a \<noteq> ReadFailed Interrupted)"

definition calm_writes :: "write_answer list \<Rightarrow> write_answer list" where
  "calm_writes = filter (\<lambda>a. a \<noteq> WriteFailed Interrupted)"

definition calm :: "tun_device \<Rightarrow> tun_device" where
  "calm d = d\<lparr>reads := calm_reads (reads d), writes := calm_writes (writes d)\<rparr>"

definition demo_device :: tun_device where
  "demo_device = \<lparr>reads = [ReadFailed Interrupted, Got [0x45]], writes = [WriteFailed Interrupted, Whole], taken = []\<rparr>"

section \<open>The wrappers\<close>

lemma read_fd_cases: "read_fd len k = (Some x, k') \<Longrightarrow> x \<noteq> Inl Interrupted \<and> (\<forall>bs. x = Inr bs \<longrightarrow> length bs \<le> len)"
  by (induction len k rule: read_fd.induct) (auto split: if_splits)

lemma read_fd_returns: "fst (read_fd len k) = None \<longleftrightarrow> calm_reads k = []"
  by (induction len k rule: read_fd.induct) (auto simp: calm_reads_def)

lemma read_fd_calm: "read_fd len (calm_reads k) = (case read_fd len k of (x, k') \<Rightarrow> (x, calm_reads k'))"
  by (induction len k rule: read_fd.induct) (auto simp: calm_reads_def)

lemma fd_write_cases: "fd_write buf k = (Some x, k') \<Longrightarrow> x \<noteq> Inl Interrupted \<and> (\<forall>n. x = Inr n \<longrightarrow> n \<le> length buf)"
  by (induction buf k rule: fd_write.induct) (auto split: if_splits)

lemma fd_write_calm: "fd_write buf (calm_writes k) = (case fd_write buf k of (x, k') \<Rightarrow> (x, calm_writes k'))"
  by (induction buf k rule: fd_write.induct) (auto simp: calm_writes_def)

lemma fd_write_suffix: "fd_write buf k = (x, k') \<Longrightarrow> set k' \<subseteq> set k"
  by (induction buf k rule: fd_write.induct) (auto split: if_splits)

lemma fd_write_whole:
  "\<forall>n. Partial n \<notin> set k \<Longrightarrow> fd_write buf k = (Some (Inr n), k') \<Longrightarrow> n = length buf"
  by (induction buf k rule: fd_write.induct) (auto split: if_splits)

lemma fd_write_all_calm:
  "fd_write_all buf (calm_writes k) out = (case fd_write_all buf k out of (x, k', out') \<Rightarrow> (x, calm_writes k', out'))"
proof (induction buf k out rule: fd_write_all.induct)
  case (1 buf k out)
  show ?case
    using 1 by (subst (1 2) fd_write_all.simps) (auto simp: fd_write_calm dest: fd_write_cases split: prod.split option.split sum.split)
qed

lemma fd_write_all_whole:
  assumes "\<forall>n. Partial n \<notin> set k" "fd_write_all buf k out = (Some x, k', out')"
  shows "set k' \<subseteq> set k \<and> out' = (if x = Inr () \<and> buf \<noteq> [] then out @ [buf] else out)"
proof -
  obtain y k1 where y: "fd_write buf k = (y, k1)"
    by fastforce
  have "set k1 \<subseteq> set k" "y = Some (Inr n) \<Longrightarrow> n = length buf" "y \<noteq> Some (Inl Interrupted)" for n
    using fd_write_suffix [OF y] fd_write_whole [OF assms(1)] y by (auto dest: fd_write_cases)
  then show ?thesis
    using assms(2) y by (subst (asm) fd_write_all.simps)
      (auto simp: fd_write_all.simps [of "[]"] split: if_splits option.splits sum.splits)
qed

lemma fd_write_all_bytes:
  assumes "fd_write_all buf k out = (Some x, k', out')"
  shows "\<exists>part. concat out' = concat out @ part \<and> prefix part buf \<and> (x = Inr () \<longrightarrow> part = buf)"
  using assms
proof (induction buf k out rule: fd_write_all.induct)
  case (1 buf k out)
  obtain y k1 where y: "fd_write buf k = (y, k1)"
    by fastforce
  have y1: "y \<noteq> Some (Inl Interrupted)"
    using y by (auto dest: fd_write_cases)
  show ?case
  proof (cases "buf \<noteq> [] \<and> (\<exists>n. y = Some (Inr n) \<and> n \<noteq> 0)")
    case True
    then obtain n where n: "buf \<noteq> []" "y = Some (Inr n)" "n \<noteq> 0" by blast
    have "fd_write_all (drop n buf) k1 (out @ [take n buf]) = (Some x, k', out')"
      using "1.prems" n y by (simp add: fd_write_all.simps [of buf])
    from "1.IH"(2) [OF n(1) y [symmetric] n(2) refl n(3) this] obtain part
      where "concat out' = concat (out @ [take n buf]) @ part" "prefix part (drop n buf)" "x = Inr () \<longrightarrow> part = drop n buf"
      by blast
    then have "concat out' = concat out @ take n buf @ part" "prefix (take n buf @ part) (take n buf @ drop n buf)"
      "x = Inr () \<longrightarrow> take n buf @ part = take n buf @ drop n buf"
      by (simp_all only: same_prefix_prefix) simp_all
    then show ?thesis
      by (intro exI [of _ "take n buf @ part"]) simp
  next
    case False
    then show ?thesis
      using "1.prems" y y1 by (auto simp: fd_write_all.simps [of buf] split: if_splits option.splits sum.splits)
  qed
qed

section \<open>The iterations\<close>

lemma dev_outbound_event:
  assumes "dev_outbound c hs ready revents rnd p d = Some (p', d')"
  shows "(\<exists>ev. p' = outbound c hs ev p) \<and> writes d' = writes d \<and> taken d' = taken d"
proof (cases "stop_flag p \<or> \<not> wait_readable ready revents")
  case True
  with assms have "p' = outbound c hs NotReady p" "d' = d"
    by (auto simp: dev_outbound_def outbound_def split: if_splits)
  then show ?thesis
    by blast
next
  case False
  obtain x k where x: "read_fd READ_BUF (reads d) = (x, k)"
    by fastforce
  show ?thesis
  proof (cases x)
    case (Some y)
    note y = read_fd_cases [OF x [unfolded Some]]
    show ?thesis
    proof (cases y)
      case (Inl e)
      with Some x y False assms have "p' = outbound c hs (TunFail e) p" "writes d' = writes d \<and> taken d' = taken d"
        by (auto simp: dev_outbound_def outbound_def)
      then show ?thesis
        by blast
    next
      case (Inr pkt)
      with Some x y False assms have "p' = outbound c hs (TunData pkt rnd) p" "writes d' = writes d \<and> taken d' = taken d"
        by (auto simp: dev_outbound_def outbound_def Let_def split: if_splits)
      then show ?thesis
        by blast
    qed
  qed (use False x assms in \<open>simp add: dev_outbound_def\<close>)
qed

definition delivers :: "pump \<Rightarrow> tun_device \<Rightarrow> pump \<Rightarrow> tun_device \<Rightarrow> bool" where
  "delivers p d p' d' \<longleftrightarrow> (\<exists>ps part. tun_written p' = tun_written p @ ps \<and>
     concat (taken d') = concat (taken d) @ concat ps @ part \<and> (in_live p' \<longrightarrow> part = []) \<and>
     (whole_packets d \<longrightarrow> whole_packets d' \<and> taken d' = taken d @ ps))"

lemma delivers_same: "tun_written p' = tun_written p \<Longrightarrow> delivers p d p' d"
  by (auto simp: delivers_def intro!: exI [of _ "[]"])

lemma dev_recv_packets:
  assumes "dev_recv c hs frame p d = Some (p', d')"
  shows "(\<exists>ok. p' = recv_packet c hs frame ok p) \<and> delivers p d p' d'"
proof -
  let ?p = "p\<lparr>seq_in := seq_in p + 1\<rparr>"
  obtain y x where y: "open_packet c hs (seq_in p) frame ?p = (y, ?p\<lparr>vless_i := x\<rparr>)"
    using open_packet_shape by blast
  show ?thesis
  proof (cases y)
    case None
    with y assms have "p' = recv_packet c hs frame True p" "tun_written p' = tun_written p" "d' = d"
      by (auto simp: dev_recv_def recv_packet_def Let_def)
    then show ?thesis
      using delivers_same by blast
  next
    case (Some packet)
    obtain z k out where z: "fd_write_all packet (writes d) (taken d) = (Some z, k, out)"
      using Some y assms by (auto simp: dev_recv_def Let_def split: prod.splits option.splits)
    obtain part where part: "concat out = concat (taken d) @ part" "z = Inr () \<longrightarrow> part = packet"
      using fd_write_all_bytes [OF z] by blast
    have whole: "(\<forall>n. Partial n \<notin> set k) \<and> out = (if z = Inr () \<and> packet \<noteq> [] then taken d @ [packet] else taken d)"
      if "whole_packets d"
      using fd_write_all_whole [OF _ z] that by (auto simp: whole_packets_def)
    show ?thesis
    proof (cases z)
      case (Inl e)
      then have "packet \<noteq> []"
        using z by (auto simp: fd_write_all.simps [of "[]"])
      with Inl Some y z assms have p: "p' = finish_in (halt_socket (?p\<lparr>vless_i := x, seq_in := seq_in p\<rparr>))"
        "d' = d\<lparr>writes := k, taken := out\<rparr>" "p' = recv_packet c hs frame False p"
        by (auto simp: dev_recv_def recv_packet_def Let_def)
      then have "delivers p d p' d'"
        using part(1) whole Inl by (intro delivers_def [THEN iffD2] exI [of _ "[]"] exI [of _ part]) (simp add: whole_packets_def)
      with p(3) show ?thesis
        by blast
    next
      case (Inr u)
      with Some y z assms part whole have "p' = recv_packet c hs frame True p" "delivers p d p' d'"
        by (auto simp: dev_recv_def recv_packet_def Let_def whole_packets_def delivers_def)
      then show ?thesis
        by blast
    qed
  qed
qed

lemma dev_inbound_packets:
  assumes "dev_inbound c hs p d = Some (p', d')"
  shows "(\<exists>ok. p' = inbound c hs ok p) \<and> delivers p d p' d'"
proof (cases "\<exists>frame r. \<not> stop_flag p \<and> read_frame (in_sock p) = (Inr (Some frame), r) \<and> frame \<noteq> []")
  case True
  then obtain frame r where f: "\<not> stop_flag p" "read_frame (in_sock p) = (Inr (Some frame), r)" "frame \<noteq> []"
    by blast
  with assms have "dev_recv c hs frame (p\<lparr>in_sock := r\<rparr>) d = Some (p', d')"
    by (simp add: dev_inbound_def)
  from dev_recv_packets [OF this] f show ?thesis
    by (simp add: inbound_def delivers_def)
next
  case False
  then have "p' = inbound c hs True p" "tun_written p' = tun_written p" "d' = d"
    using assms by (auto simp: dev_inbound_def inbound_def split: if_splits prod.splits sum.splits option.splits)
  then show ?thesis
    using delivers_same by blast
qed

definition fifo :: "bool \<Rightarrow> pump \<times> tun_device \<Rightarrow> bool" where
  "fifo whole x \<longleftrightarrow> (case x of (p, d) \<Rightarrow>
     prefix (concat (tun_written p)) (concat (taken d)) \<and>
     (in_live p \<longrightarrow> concat (taken d) = concat (tun_written p)) \<and>
     (whole \<longrightarrow> whole_packets d \<and> taken d = tun_written p))"

lemma dev_step_pump: "dev_step c hs (p, d) (p', d') \<Longrightarrow> pump_step c hs p p'"
  by (erule dev_stepE) (auto dest!: dev_outbound_event dev_inbound_packets intro: pump_step.intros)

lemma send_keeps_tun:
  "tun_written (send_packet c hs pkt rnd p) = tun_written p \<and> in_live (send_packet c hs pkt rnd p) = in_live p"
  by (rule send_packet_shapes [of c hs pkt rnd p]) simp_all

lemma outbound_keeps_tun: "tun_written (outbound c hs ev p) = tun_written p \<and> in_live (outbound c hs ev p) = in_live p"
  by (rule outbound_shapes [of c hs ev p]) (simp_all add: send_keeps_tun)

lemma dev_step_fifo:
  assumes "dev_step c hs (p, d) (p', d')" "fifo whole (p, d)"
  shows "fifo whole (p', d')"
  using assms(1)
proof (cases rule: dev_step.cases)
  case (dev_out ready revents rnd)
  then have "tun_written p' = tun_written p" "in_live p' = in_live p" "taken d' = taken d" "whole_packets d' = whole_packets d"
    using dev_outbound_event [of c hs ready revents rnd p d p' d'] by (auto simp: outbound_keeps_tun whole_packets_def)
  with assms show ?thesis
    by (simp add: fifo_def)
next
  case dev_in
  then obtain ps part where step: "tun_written p' = tun_written p @ ps" "concat (taken d') = concat (taken d) @ concat ps @ part"
    "in_live p' \<longrightarrow> part = []" "whole_packets d \<longrightarrow> whole_packets d' \<and> taken d' = taken d @ ps"
    using dev_inbound_packets [of c hs p d p' d'] by (auto simp: delivers_def)
  have "concat (taken d) = concat (tun_written p)"
    using assms(2) dev_in(1) by (simp add: fifo_def)
  with step assms show ?thesis
    by (auto simp: fifo_def)
next
  case dev_stop
  with assms show ?thesis
    by (simp add: fifo_def stop_def)
qed

lemma dev_run_refines: "dev_run c hs x y \<Longrightarrow> fifo whole x \<Longrightarrow> pump_run c hs (fst x) (fst y) \<and> fifo whole y"
proof (induction rule: rtranclp_induct)
  case (step y z)
  then have "pump_run c hs (fst x) (fst y)" "fifo whole y"
    by blast+
  moreover have "pump_step c hs (fst y) (fst z)"
    using dev_step_pump [of c hs "fst y" "snd y" "fst z" "snd z"] step(2) by simp
  ultimately show ?case
    using dev_step_fifo [of c hs "fst y" "snd y" "fst z" "snd z" whole] step(2) by simp
qed simp

lemma fd_write_returns: "Whole \<in> set k \<Longrightarrow> fst (fd_write buf k) \<noteq> None"
  by (induction buf k rule: fd_write.induct) auto

lemma fd_write_keeps_whole:
  "Whole \<in> set k \<Longrightarrow> fd_write buf k = (Some (Inr n), k') \<Longrightarrow> n = length buf \<or> Whole \<in> set k'"
  by (induction buf k rule: fd_write.induct) (auto split: if_splits)

lemma fd_write_all_returns: "Whole \<in> set k \<Longrightarrow> fst (fd_write_all buf k out) \<noteq> None"
proof (induction buf k out rule: fd_write_all.induct)
  case (1 buf k out)
  obtain y k1 where y: "fd_write buf k = (y, k1)"
    by fastforce
  have "y \<noteq> None" "y \<noteq> Some (Inl Interrupted)"
    using fd_write_returns [OF "1.prems", of buf] y by (auto dest: fd_write_cases)
  moreover have "drop n buf = [] \<or> Whole \<in> set k1" if "y = Some (Inr n)" for n
    using fd_write_keeps_whole [OF "1.prems"] y that by auto
  ultimately show ?case
    using "1.IH"(2) y by (subst fd_write_all.simps) (auto simp: fd_write_all.simps [of "[]"] split: option.split sum.split)
qed

lemma dev_recv_calm: "dev_recv c hs frame p (calm d) = map_option (\<lambda>(p, d). (p, calm d)) (dev_recv c hs frame p d)"
proof -
  obtain y q where y: "open_packet c hs (seq_in p) frame (p\<lparr>seq_in := seq_in p + 1\<rparr>) = (y, q)"
    by fastforce
  obtain x k out where x: "fd_write_all (the y) (writes d) (taken d) = (x, k, out)"
    by (metis prod.exhaust)
  have "fd_write_all (the y) (calm_writes (writes d)) (taken d) = (x, calm_writes k, out)"
    using fd_write_all_calm [of "the y" "writes d" "taken d"] x by simp
  with x y show ?thesis
    by (cases y) (auto simp: dev_recv_def calm_def Let_def split: option.split sum.split)
qed

lemma dev_recv_returns:
  assumes "Whole \<in> set (writes d)"
  shows "dev_recv c hs frame p d \<noteq> None"
proof -
  obtain y q where y: "open_packet c hs (seq_in p) frame (p\<lparr>seq_in := seq_in p + 1\<rparr>) = (y, q)"
    by fastforce
  obtain x k out where x: "fd_write_all (the y) (writes d) (taken d) = (Some x, k, out)"
    using fd_write_all_returns [OF assms] by (metis option.exhaust prod.exhaust_sel)
  with y show ?thesis
    by (cases y; cases x) (simp_all add: dev_recv_def Let_def)
qed

lemma dev_outbound_calm:
  "dev_outbound c hs ready revents rnd p (calm d) = map_option (\<lambda>(p, d). (p, calm d)) (dev_outbound c hs ready revents rnd p d)"
proof -
  obtain x k where x: "read_fd READ_BUF (reads d) = (x, k)"
    by fastforce
  then have "read_fd READ_BUF (calm_reads (reads d)) = (x, calm_reads k)"
    by (simp add: read_fd_calm)
  with x show ?thesis
    by (auto simp: dev_outbound_def calm_def Let_def split: option.split sum.split)
qed

text \<open>A run that seals a packet and delivers the answer, on a device that interrupts every call once.\<close>

lemma demo_device_run:
  obtains r p0 q d where "start True True demo_sink r demo_config 0 0 pump_new = (Inr (), p0)"
    "dev_run demo_crypto demo_keyed (p0, demo_device) (q, d)" "map snd (sealed_log q) = [[0x45]]" "taken d = [[1, 2]]"
proof -
  obtain ct where ct: "length ct = 18" "aes256_decrypt demo_crypto [2] (derive_nonce demo_crypto (sealed_session_id demo_keyed) 0 Server NONCE_PURPOSE_DATA) ct [] = Some [1, 2]"
    by (rule encrypt_some [of demo_crypto "[1, 2]" "[2]" "derive_nonce demo_crypto (sealed_session_id demo_keyed) 0 Server NONCE_PURPOSE_DATA" "[]"])
      (use demo_crypto_ok in \<open>auto simp: crypto_ok_def\<close>)
  have op: "open_record demo_crypto demo_keyed 0 ct = Inr [1, 2]"
    using ct(2) by (simp add: open_record_def hs_keys_def demo_keyed_def)
  let ?r = "map Byte (frame_wire ct)"
  obtain p0 where p0: "start True True demo_sink ?r demo_config 0 0 pump_new = (Inr (), p0)"
    by (simp add: start_def pump_new_def Let_def)
  then have st: "out_live p0" "in_live p0" "\<not> stop_flag p0" "sealed_log p0 = []" "vless_o p0 = None" "vless_i p0 = None"
    "block_ipv6 (config p0)" "in_sock p0 = ?r" "seq_in p0 = 0" "out_sock p0 = demo_sink" "tun_written p0 = []"
    by (auto simp: start_def pump_new_def Let_def demo_config_def new_vless_out_def)
  let ?d = "demo_device\<lparr>reads := []\<rparr>" and ?q = "outbound demo_crypto demo_keyed (TunData [0x45] no_draw) p0"
  have "dev_outbound demo_crypto demo_keyed 1 {POLLIN} no_draw p0 demo_device = Some (?q, ?d)"
    using st(3) by (simp add: dev_outbound_def outbound_def wait_readable_def demo_device_def READ_BUF_def Let_def)
  then have one: "dev_step demo_crypto demo_keyed (p0, demo_device) (?q, ?d)"
    using st(1) by (rule dev_out [rotated])
  obtain ct' where ct': "seal_record demo_crypto demo_keyed (seq_out p0) [0x45] = Inr ct'" "length ct' = 17"
    using demo_seal by blast
  then have "write_frame demo_sink ct' = (Inr (), demo_sink\<lparr>sent := frame_wire ct'\<rparr>)"
    by (simp add: write_frame_def write_all_def flush_def demo_sink_def MAX_FRAME_LEN_def frame_wire_def)
  then have q: "in_live ?q" "\<not> stop_flag ?q" "in_sock ?q = ?r" "seq_in ?q = 0" "vless_i ?q = None" "sealed_log ?q = [(seq_out p0, [0x45])]"
    using st ct' by (simp_all add: outbound_def send_packet_def wrap_packet_def Let_def ip_version_def READ_BUF_def)
  let ?z = "inbound demo_crypto demo_keyed True ?q"
  have "ct \<noteq> []"
    using ct(1) by auto
  then have "dev_inbound demo_crypto demo_keyed ?q ?d = Some (?z, ?d\<lparr>writes := [], taken := [[1, 2]]\<rparr>)"
    using q op ct(1) read_frame_wire [of ct "[]"]
    by (simp add: dev_inbound_def dev_recv_def inbound_def recv_packet_def open_packet_def Let_def fd_write_all.simps
        demo_device_def MAX_FRAME_LEN_def)
  then have two: "dev_step demo_crypto demo_keyed (?q, ?d) (?z, ?d\<lparr>writes := [], taken := [[1, 2]]\<rparr>)"
    using q(1) by (rule dev_in [rotated])
  have "sealed_log ?z = sealed_log ?q"
    by (rule inbound_frame)
  moreover from one two have "dev_run demo_crypto demo_keyed (p0, demo_device) (?z, ?d\<lparr>writes := [], taken := [[1, 2]]\<rparr>)"
    by (meson converse_rtranclp_into_rtranclp r_into_rtranclp)
  ultimately show thesis
    using that [OF p0, of ?z "?d\<lparr>writes := [], taken := [[1, 2]]\<rparr>"] q(6) by simp
qed

section \<open>Properties\<close>

text \<open>C14. The pump is what its code does on the descriptors: every run of the two threads on the device, over
  any answers of \<open>poll\<close>, \<open>read\<close> and \<open>write\<close> (short writes, failures, interruptions), is a run of the
  pump, so its invariants hold; the bytes of the delivered packets reach the device completely and in
  order, and a device that never takes part of a packet gets exactly the delivered packets.\<close>

theorem device_refines_pump:
  assumes "start clone_ok halt_ok w r cfg next_out next_in p = (Inr (), p0)" "taken d0 = []"
    "dev_run c hs (p0, d0) (q, d)"
  shows "pump_run c hs p0 q \<and> prefix (concat (tun_written q)) (concat (taken d)) \<and>
    (in_live q \<longrightarrow> concat (taken d) = concat (tun_written q)) \<and> (whole_packets d0 \<longrightarrow> taken d = tun_written q)"
proof -
  have "tun_written p0 = []"
    using assms(1) by (auto simp: start_def Let_def split: if_splits)
  then have "fifo (whole_packets d0) (p0, d0)"
    using assms(2) by (simp add: fifo_def)
  from dev_run_refines [OF assms(3) this] show ?thesis
    by (simp add: fifo_def)
qed

theorem device_refines_pump_witness:
  "\<exists>p0 q d. dev_run demo_crypto demo_keyed (p0, demo_device) (q, d) \<and> pump_run demo_crypto demo_keyed p0 q \<and>
    map snd (sealed_log q) = [[0x45]] \<and> tun_written q = [[1, 2]]"
proof -
  obtain r p0 q d where run: "start True True demo_sink r demo_config 0 0 pump_new = (Inr (), p0)"
    "dev_run demo_crypto demo_keyed (p0, demo_device) (q, d)" "map snd (sealed_log q) = [[0x45]]" "taken d = [[1, 2]]"
    by (rule demo_device_run)
  moreover have "taken demo_device = []" "whole_packets demo_device"
    by (simp_all add: demo_device_def whole_packets_def)
  ultimately show ?thesis
    using device_refines_pump [OF run(1) _ run(2)] by metis
qed

text \<open>C28. Signals are invisible and the loops around the system calls end: an iteration does the same with the
  interrupted calls taken out of the kernel's answers, an outbound iteration fails to return exactly
  when every answer to its \<open>read\<close> is an interruption, and an inbound iteration returns as soon as the
  device takes one buffer as a whole.\<close>

theorem signals_invisible:
  "dev_outbound c hs ready revents rnd p (calm d) = map_option (\<lambda>(p, d). (p, calm d)) (dev_outbound c hs ready revents rnd p d) \<and>
   dev_inbound c hs p (calm d) = map_option (\<lambda>(p, d). (p, calm d)) (dev_inbound c hs p d) \<and>
   (dev_outbound c hs ready revents rnd p d = None \<longleftrightarrow>
      \<not> stop_flag p \<and> wait_readable ready revents \<and> calm_reads (reads d) = []) \<and>
   (Whole \<in> set (writes d) \<longrightarrow> dev_inbound c hs p d \<noteq> None)"
proof (intro conjI impI)
  show "dev_inbound c hs p (calm d) = map_option (\<lambda>(p, d). (p, calm d)) (dev_inbound c hs p d)"
    by (cases "read_frame (in_sock p)") (simp add: dev_inbound_def dev_recv_calm split: option.split sum.split)
  show "dev_outbound c hs ready revents rnd p d = None \<longleftrightarrow>
      \<not> stop_flag p \<and> wait_readable ready revents \<and> calm_reads (reads d) = []"
    using read_fd_returns [of READ_BUF "reads d"]
    by (cases "read_fd READ_BUF (reads d)") (auto simp: dev_outbound_def Let_def split: option.split sum.split)
  show "dev_inbound c hs p d \<noteq> None" if "Whole \<in> set (writes d)"
    using dev_recv_returns [OF that] by (cases "read_frame (in_sock p)") (simp add: dev_inbound_def split: option.split sum.split)
qed (rule dev_outbound_calm)

theorem signals_invisible_witness:
  "dev_inbound demo_crypto demo_keyed pump_new demo_device \<noteq> None \<and>
   dev_outbound demo_crypto demo_keyed 1 {POLLHUP} no_draw pump_new (demo_device\<lparr>reads := [ReadFailed Interrupted]\<rparr>) = None"
proof -
  have "Whole \<in> set (writes demo_device)" "\<not> stop_flag pump_new" "wait_readable 1 {POLLHUP}"
    "calm_reads (reads (demo_device\<lparr>reads := [ReadFailed Interrupted]\<rparr>)) = []"
    by (simp_all add: demo_device_def pump_new_def wait_readable_def calm_reads_def)
  then show ?thesis
    using signals_invisible by blast
qed

end
