(* ===== verification/HelloShape.thy ===== *)
theory HelloShape
  imports Tls
begin

text \<open>
  The shape of the hellos the client sends, and of the records its parser accepts.  \<open>extensions_of\<close> is the
  walk over the extension block from the tests of \<open>native/src/tls.rs\<close>; it reads the extension list of
  every well-formed hello, which makes the fingerprint of the built hello a statement about bytes.
\<close>

section \<open>The extension walk\<close>

function walk_extensions :: "bytes \<Rightarrow> nat \<Rightarrow> nat \<Rightarrow> (u16 \<times> bytes) list \<Rightarrow> ('e, (u16 \<times> bytes) list) result" where
  "walk_extensions rec pos fin out =
     (if pos < fin then
        rbind (index pos rec) (\<lambda>a. rbind (index (pos + 1) rec) (\<lambda>b.
        rbind (index (pos + 2) rec) (\<lambda>c. rbind (index (pos + 3) rec) (\<lambda>d.
          let t = from_be16 a b; l = unat (from_be16 c d) in
          rbind (slice (pos + 4) (pos + 4 + l) rec) (\<lambda>data.
            walk_extensions rec (pos + 4 + l) fin (out @ [(t, data)]))))))
      else if pos \<noteq> fin then Inl Panic
      else Inr out)"
  by pat_completeness auto
termination
  by (relation "measure (\<lambda>(_, pos, fin, _). fin - pos)") auto

declare walk_extensions.simps [simp del]

definition extensions_of :: "bytes \<Rightarrow> ('e, (u16 \<times> bytes) list) result" where
  "extensions_of rec =
     (case parse_client_hello rec of
        Inl _ \<Rightarrow> Inl Panic
      | Inr _ \<Rightarrow>
          rbind (index (SESSION_ID_OFFSET - 1) rec) (\<lambda>sid_len.
            let pos = SESSION_ID_OFFSET + unat sid_len in
          rbind (index pos rec) (\<lambda>a. rbind (index (pos + 1) rec) (\<lambda>b.
            let pos = pos + 2 + unat (from_be16 a b) in
          rbind (index pos rec) (\<lambda>comp_len.
            let pos = pos + 1 + unat comp_len in
          rbind (index pos rec) (\<lambda>a. rbind (index (pos + 1) rec) (\<lambda>b.
            let pos = pos + 2 in
          walk_extensions rec pos (pos + unat (from_be16 a b)) [])))))))"

section \<open>Lemmas\<close>

lemma index_skip: "index (length pre + k) (pre @ rest) = index k rest"
  by (simp add: index_def nth_append)

lemma slice_skip: "slice (length pre + a) (length pre + b) (pre @ rest) = slice a b rest"
  by (simp add: slice_def)

lemma walk_one:
  assumes "length pre < fin" "length (ext_body x) < 65536"
  shows "walk_extensions (pre @ ext_wire x @ rest) (length pre) fin out =
    walk_extensions ((pre @ ext_wire x) @ rest) (length (pre @ ext_wire x)) fin (out @ [(ext_type x, ext_body x)])"
proof -
  obtain a b c d where ab: "to_be16 (ext_type x) = [a, b]" and cd: "to_be16 (u16_of (length (ext_body x))) = [c, d]"
    by (simp add: to_be16_conv)
  have t: "from_be16 a b = ext_type x" "from_be16 c d = u16_of (length (ext_body x))"
    using ab cd by (auto intro: from_be16_to_be16 simp: to_be16_conv)
  have w: "pre @ ext_wire x @ rest = pre @ a # b # c # d # ext_body x @ rest"
    by (simp add: ext_wire_def ab cd)
  have i: "index (length pre) (pre @ ext_wire x @ rest) = Inr a" "index (length pre + 1) (pre @ ext_wire x @ rest) = Inr b"
    "index (length pre + 2) (pre @ ext_wire x @ rest) = Inr c" "index (length pre + 3) (pre @ ext_wire x @ rest) = Inr d"
    "slice (length pre + 4) (length pre + 4 + length (ext_body x)) (pre @ ext_wire x @ rest) = Inr (ext_body x)"
    unfolding w by (simp_all add: index_def slice_def nth_append)
  have "walk_extensions (pre @ ext_wire x @ rest) (length pre) fin out =
      walk_extensions (pre @ ext_wire x @ rest) (length pre + 4 + length (ext_body x)) fin (out @ [(ext_type x, ext_body x)])"
    using assms by (subst walk_extensions.simps) (simp only: i rbind_Inr Let_def t unat_u16_of if_True)
  then show ?thesis
    by (simp add: add.assoc)
qed

lemma walk_wire:
  assumes "\<forall>x \<in> set xs. length (ext_body x) < 65536"
  shows "(walk_extensions (pre @ concat (map ext_wire xs)) (length pre) (length pre + length (concat (map ext_wire xs))) out
    :: ('e, (u16 \<times> bytes) list) result) = Inr (out @ map (\<lambda>x. (ext_type x, ext_body x)) xs)"
  using assms
proof (induction xs arbitrary: pre out)
  case Nil
  then show ?case
    by (subst walk_extensions.simps) simp
next
  case (Cons x xs)
  let ?fin = "length pre + length (concat (map ext_wire (x # xs)))"
  have "(walk_extensions (pre @ ext_wire x @ concat (map ext_wire xs)) (length pre) ?fin out :: ('e, (u16 \<times> bytes) list) result) =
      walk_extensions ((pre @ ext_wire x) @ concat (map ext_wire xs)) (length (pre @ ext_wire x)) ?fin (out @ [(ext_type x, ext_body x)])"
    by (rule walk_one) (use Cons.prems in auto)
  also have "?fin = length (pre @ ext_wire x) + length (concat (map ext_wire xs))"
    by simp
  finally show ?case
    using Cons.IH [of "pre @ ext_wire x" "out @ [(ext_type x, ext_body x)]"] Cons.prems by (simp add: add.assoc)
qed

lemma ext_ok_short: "ext_ok x \<Longrightarrow> length (ext_body x) < 65536"
  by (cases x) (auto simp: length_concat comp_def sum_list_triv)

text \<open>The walk reads the extension list of every well-formed hello that the parser accepts.\<close>

lemma extensions_of_wire:
  assumes "hello_ok h" "hello_result h = Inr p"
  shows "(extensions_of (hello_wire h) :: ('e, (u16 \<times> bytes) list) result) = Inr (map (\<lambda>x. (ext_type x, ext_body x)) (h_exts h))"
proof -
  let ?xs = "concat (map ext_wire (h_exts h))"
  obtain a b where ab: "to_be16 (u16_of (length (h_ciphers h))) = [a, b]" by (simp add: to_be16_conv)
  obtain l m where lm: "to_be16 (u16_of (length ?xs)) = [l, m]" by (simp add: to_be16_conv)
  have len: "length (h_ciphers h) < 65536" "length ?xs < 65536" "length (h_sid h) < 256" "length (h_comp h) < 256"
    "4 + length (hello_body h) < 65536"
    using assms(1) length_hello_body [of h] by (simp_all add: hello_ok_def)
  have ab': "unat (from_be16 a b) = length (h_ciphers h)" and lm': "unat (from_be16 l m) = length ?xs"
    using unat_u16_pair ab lm len(1,2) by blast+
  define pre where "pre = before_sid h"
  have pre: "length pre = 44" "pre ! 43 = word_of_nat (length (h_sid h))"
    using assms(1) by (simp_all add: pre_def before_sid_def hello_ok_def nth_append to_be16_conv)
  let ?pre = "pre @ h_sid h @ a # b # h_ciphers h @ word_of_nat (length (h_comp h)) # h_comp h @ [l, m]"
  have w: "hello_wire h = ?pre @ ?xs"
    by (simp add: pre_def before_sid_def hello_wire_def hello_body_def ab lm)
  have off: "SESSION_ID_OFFSET = 44" "44 - (1 :: nat) = 43"
    by (simp_all add: SESSION_ID_OFFSET_def)
  have i: "(index 43 (?pre @ ?xs) :: ('e, byte) result) = Inr (word_of_nat (length (h_sid h)))"
    "(index (44 + length (h_sid h)) (?pre @ ?xs) :: ('e, byte) result) = Inr a" "(index (44 + length (h_sid h) + 1) (?pre @ ?xs) :: ('e, byte) result) = Inr b"
    "(index (44 + length (h_sid h) + 2 + length (h_ciphers h)) (?pre @ ?xs) :: ('e, byte) result) = Inr (word_of_nat (length (h_comp h)))"
    "(index (44 + length (h_sid h) + 2 + length (h_ciphers h) + 1 + length (h_comp h)) (?pre @ ?xs) :: ('e, byte) result) = Inr l"
    "(index (44 + length (h_sid h) + 2 + length (h_ciphers h) + 1 + length (h_comp h) + 1) (?pre @ ?xs) :: ('e, byte) result) = Inr m"
    using pre by (simp_all add: index_def nth_append)
  have n: "unat (word_of_nat (length (h_sid h)) :: byte) = length (h_sid h)"
    "unat (word_of_nat (length (h_comp h)) :: byte) = length (h_comp h)"
    using len by simp_all
  have wk: "(walk_extensions (?pre @ ?xs) (length ?pre) (length ?pre + length ?xs) [] :: ('e, (u16 \<times> bytes) list) result) =
      Inr ([] @ map (\<lambda>x. (ext_type x, ext_body x)) (h_exts h))"
    using assms(1) by (intro walk_wire) (auto simp: hello_ok_def intro: ext_ok_short)
  have lp: "length ?pre = 44 + length (h_sid h) + 2 + length (h_ciphers h) + 1 + length (h_comp h) + 2"
    using pre by simp
  have parse: "parse_client_hello (?pre @ ?xs) = Inr p"
    using parse_hello_wire [OF assms(1)] assms(2) w by simp
  show ?thesis
    unfolding extensions_of_def w parse
    by (simp only: i n ab' lm' off Let_def rbind_Inr sum.case wk [unfolded lp] append_Nil)
qed

text \<open>A record that is accepted has exactly the length its header announces.\<close>

lemma accepted_length:
  assumes "parse_client_hello wire = Inr p"
  shows "5 \<le> length wire \<and> length wire = 5 + unat (from_be16 (wire ! 3) (wire ! 4)) \<and>
    wire ! 0 = CONTENT_HANDSHAKE \<and> wire ! 1 = 3 \<and> wire ! 2 \<le> 3"
proof -
  obtain r where r: "parse_record_header (reader_new wire) = Inr r"
    using assms by (auto simp: parse_client_hello_def rbind_eq_Inr)
  show ?thesis
  proof (cases "5 \<le> length wire")
    case True
    then obtain a b c d e rest where w: "wire = a # b # c # d # e # rest"
      by (auto simp: Suc_le_length_iff numeral_eq_Suc)
    have "rd_take Truncated 2 (rd_at [a] (b # c # d # e # rest)) = Inr ([b, c], rd_at [a, b, c] (d # e # rest))"
      using rd_take_append [of "[b, c]" 2 Truncated "[a]" "d # e # rest"] by simp
    with r show ?thesis
      by (auto simp: w parse_record_header_def reader_new_at index_def rbind_eq_Inr split: if_splits)
  next
    case False
    then consider "wire = []" | a where "wire = [a]" | a b where "wire = [a, b]" | a b c where "wire = [a, b, c]"
      | a b c d where "wire = [a, b, c, d]"
      by (auto simp: not_le less_Suc_eq length_Suc_conv numeral_eq_Suc)
    then show ?thesis
      using r by cases (auto simp: parse_record_header_def reader_new_at rd_u8_def rd_u16_def rd_take_at index_def rbind_eq_Inr
        split: if_splits)
  qed
qed

section \<open>Properties\<close>

text \<open>The types Chrome sends, in its order.\<close>

definition chrome_types :: "bytes option \<Rightarrow> u16 list" where
  "chrome_types sni =
     [GREASE_EXT] @ (if sni = None then [] else [EXT_SERVER_NAME]) @
     [EXT_EMS, EXT_RENEGOTIATION_INFO, EXT_SUPPORTED_GROUPS, EXT_ALPN, EXT_SIGNATURE_ALGORITHMS, EXT_STATUS_REQUEST,
      EXT_COMPRESS_CERT, EXT_SCT, EXT_PSK_MODES, EXT_SIGNATURE_ALGORITHMS_CERT, EXT_DELEGATED_CREDENTIALS, EXT_ALPS,
      EXT_ALPS_V2, EXT_SESSION_TICKET, EXT_ETM, EXT_SUPPORTED_VERSIONS, EXT_KEY_SHARE] @
     (if sni_len sni < 140 then [EXT_PADDING] else [])"

text \<open>C38. The fingerprint of the hello: the extension block of every built hello, read back byte by byte, has
  the types of Chrome's block in Chrome's order, with the server name second and the padding last; its
  bodies are the fixed ones, the ephemeral key and zeros; \<open>key_share\<close> holds the real share alone, without
  the GREASE share of Chrome that the README announces.  The padding counts the server name twice: a
  hello with a name of \<open>n < 140\<close> bytes is \<open>585 - n\<close> bytes longer than its session id, not a constant.\<close>

theorem chrome_fingerprint:
  assumes "build_client_hello sni eph random sid = Inr rec" "length eph = 32" "length random = 32"
    "sni_fits sni" "\<forall>h. sni = Some h \<longrightarrow> utf8_valid h"
  shows "\<exists>exts. (extensions_of rec :: (tls_error, (u16 \<times> bytes) list) result) = Inr exts \<and> map fst exts = chrome_types sni \<and>
    (EXT_KEY_SHARE, build_key_share eph) \<in> set exts \<and> (\<forall>d. (EXT_PADDING, d) \<in> set exts \<longrightarrow> set d = {0}) \<and>
    length rec = length sid + (case sni of None \<Rightarrow> 594 | Some h \<Rightarrow> if length h < 140 then 585 - length h else 301 + length h)"
proof -
  from assms(1) have sid: "length sid \<le> 32"
    by (auto simp: build_client_hello_def MAX_SESSION_ID_LEN_def split: if_splits)
  let ?h = "chrome_hello sni eph random sid (pad_for sni)"
  have rec: "rec = hello_wire ?h"
    using sid assms by (auto simp: build_wire split: if_splits)
  have exts: "(extensions_of rec :: (tls_error, (u16 \<times> bytes) list) result) = Inr (map (\<lambda>x. (ext_type x, ext_body x)) (h_exts ?h))"
    unfolding rec by (rule extensions_of_wire [OF chrome_hello_ok chrome_hello_result]) (use assms sid in auto)
  have key: "ext_body (KeyShares [(GROUP_X25519, eph)]) = build_key_share eph"
    using assms(2) by (simp add: build_key_share_def share_wire_def push_u16_def X25519_PK_LEN_def)
  have len: "length rec = 260 + 32 + length sid + (case sni of Some h \<Rightarrow> 9 + length h | None \<Rightarrow> 0) +
      (if 0 < pad_for sni then 4 + pad_for sni else 0)"
    unfolding rec using assms(2,3) by (simp add: hello_wire_def length_chrome_body)
  have "\<forall>d. (EXT_PADDING, d) \<in> set (map (\<lambda>x. (ext_type x, ext_body x)) (h_exts ?h)) \<longrightarrow> set d = {0}"
    by (auto simp: chrome_hello_def chrome_exts_def proto_defs split: option.splits if_splits)
  moreover have "map fst (map (\<lambda>x. (ext_type x, ext_body x)) (h_exts ?h)) = chrome_types sni"
    by (cases sni) (auto simp: chrome_hello_def chrome_exts_def chrome_types_def pad_for_def sni_len_def)
  moreover have "(EXT_KEY_SHARE, build_key_share eph) \<in> set (map (\<lambda>x. (ext_type x, ext_body x)) (h_exts ?h))"
    using key by (auto simp: chrome_hello_def chrome_exts_def intro!: image_eqI [of _ _ "KeyShares [(GROUP_X25519, eph)]"])
  ultimately show ?thesis
    using exts len by (intro exI [of _ "map (\<lambda>x. (ext_type x, ext_body x)) (h_exts ?h)"])
      (cases sni, auto simp: pad_for_def)
qed

theorem chrome_fingerprint_witness:
  "\<exists>rec exts. build_client_hello (Some [97, 46, 98]) (replicate 32 1) (replicate 32 2) (replicate 32 9) = Inr rec \<and>
    (extensions_of rec :: (tls_error, (u16 \<times> bytes) list) result) = Inr exts \<and>
    map fst exts = chrome_types (Some [97, 46, 98]) \<and> length rec = 614"
proof -
  obtain rec where rec: "build_client_hello (Some [97, 46, 98]) (replicate 32 1) (replicate 32 2) (replicate 32 9) = Inr rec"
    by (simp add: build_wire sni_fits_def sni_141_def)
  from chrome_fingerprint [OF rec] show ?thesis
    using rec by (auto simp: sni_fits_def)
qed

text \<open>The parser accepts no record twice: no proper prefix of an accepted record (a truncated read) and
  no extension of it (trailing bytes) is accepted; both are errors, not panics.\<close>

theorem accepted_hello_exact:
  assumes "parse_client_hello wire = Inr p"
  shows "(\<forall>k < length wire. \<exists>e. parse_client_hello (take k wire) = Inl (Err e)) \<and>
    (\<forall>x. x \<noteq> [] \<longrightarrow> (\<exists>e. parse_client_hello (wire @ x) = Inl (Err e)))"
proof -
  have err: "\<exists>e. parse_client_hello w = Inl (Err e)" if "\<And>q. parse_client_hello w \<noteq> Inr q" for w
    using safe_not_Panic [OF parse_client_hello_safe [of w]] that
    by (cases "parse_client_hello w") (metis fault.exhaust, blast)
  note len = accepted_length [OF assms]
  have "parse_client_hello (take k wire) \<noteq> Inr q" if "k < length wire" for k q
    using accepted_length [of "take k wire" q] len that by (cases "5 \<le> k") auto
  moreover have "parse_client_hello (wire @ x) \<noteq> Inr q" if "x \<noteq> []" for x q
    using accepted_length [of "wire @ x" q] len that by (auto simp: nth_append)
  ultimately show ?thesis
    using err by blast
qed

theorem accepted_hello_exact_witness:
  "\<exists>e wire. parse_client_hello wire = Inr \<lparr>ch_sni = None, ch_random = replicate 32 2, ch_session_id = [3],
      ch_ephemeral_public = replicate 32 1, tls13_negotiable = True\<rparr> \<and> parse_client_hello (wire @ [0]) = Inl (Err e)"
proof -
  let ?wire = "hello_wire (chrome_hello None (replicate 32 1) (replicate 32 2) [3] (pad_for None))"
  have p: "parse_client_hello ?wire = Inr \<lparr>ch_sni = None, ch_random = replicate 32 2, ch_session_id = [3],
      ch_ephemeral_public = replicate 32 1, tls13_negotiable = True\<rparr>"
    by (simp add: parse_hello_wire chrome_hello_ok chrome_hello_result sni_fits_def)
  then obtain e where "parse_client_hello (?wire @ [0]) = Inl (Err e)"
    using accepted_hello_exact [OF p] by blast
  with p show ?thesis
    by blast
qed

end
