(* ===== verification/KeySchedule.thy ===== *)
theory KeySchedule
  imports Reader Crypto
begin

text \<open>
  \<open>native/src/tls13.rs\<close>, first part: cipher suites, HKDF and the TLS 1.3 labels, the per-record
  nonce, record protection, the transcript, and the inner padding.  The primitives of the crates
  \<open>sha2\<close>, \<open>hmac\<close>, \<open>aes-gcm\<close>, \<open>chacha20poly1305\<close> and \<open>rsa\<close> are the fields of the parameter \<open>tls_crypto\<close>;
  what the theorems rely on is \<open>tls_crypto_ok\<close> (digest lengths, and AEADs that decrypt exactly what
  they encrypt), and \<open>demo_tls\<close> is an instance in which it holds.  Names that other theories of
  the development use for another module's item carry the suffix \<open>_13\<close>.
\<close>

definition TAG_LEN_13 :: nat where [proto_defs]: "TAG_LEN_13 = 16"
definition IV_LEN :: nat where [proto_defs]: "IV_LEN = 12"

datatype tls13_error = Truncated_13 | BadRecord | BadHandshake | NoKeyShare_13 | BadCipherSuite | DecryptFailed
  | FinishedMismatch | CertVerifyRejected | BadScheme | UnexpectedRecord

datatype cipher_suite = Aes128GcmSha256 | Aes256GcmSha384 | ChaCha20Poly1305Sha256

datatype hash_alg = S256 | S384

datatype sig_hash = Sha256 | Sha384 | Sha512

record tls_crypto =
  digest :: "hash_alg \<Rightarrow> bytes \<Rightarrow> bytes"
  hmac :: "hash_alg \<Rightarrow> bytes \<Rightarrow> bytes \<Rightarrow> bytes"
  aead_encrypt :: "cipher_suite \<Rightarrow> bytes \<Rightarrow> bytes \<Rightarrow> bytes \<Rightarrow> bytes \<Rightarrow> bytes option"
  aead_decrypt :: "cipher_suite \<Rightarrow> bytes \<Rightarrow> bytes \<Rightarrow> bytes \<Rightarrow> bytes \<Rightarrow> bytes option"
  rsa_public_key :: "nat \<Rightarrow> nat \<Rightarrow> bool"
  pss_signature :: "bytes \<Rightarrow> bool"
  pss_verify :: "sig_hash \<Rightarrow> nat \<times> nat \<Rightarrow> bytes \<Rightarrow> bytes \<Rightarrow> bool"
  pkcs1_signature :: "bytes \<Rightarrow> bool"
  pkcs1_verify :: "sig_hash \<Rightarrow> nat \<times> nat \<Rightarrow> bytes \<Rightarrow> bytes \<Rightarrow> bool"

definition from_u16 :: "u16 \<Rightarrow> cipher_suite option" where
  "from_u16 v = (if v = 0x1301 then Some Aes128GcmSha256 else if v = 0x1302 then Some Aes256GcmSha384
     else if v = 0x1303 then Some ChaCha20Poly1305Sha256 else None)"

fun suite_hash :: "cipher_suite \<Rightarrow> hash_alg" where
  "suite_hash Aes256GcmSha384 = S384"
| "suite_hash _ = S256"

fun key_len :: "cipher_suite \<Rightarrow> nat" where
  "key_len Aes128GcmSha256 = 16"
| "key_len Aes256GcmSha384 = 32"
| "key_len ChaCha20Poly1305Sha256 = 32"

fun hash_len :: "hash_alg \<Rightarrow> nat" where
  "hash_len S256 = 32"
| "hash_len S384 = 48"

definition empty_hash :: "tls_crypto \<Rightarrow> hash_alg \<Rightarrow> bytes" where
  "empty_hash c h = digest c h []"

definition hmac_hash :: "tls_crypto \<Rightarrow> hash_alg \<Rightarrow> bytes \<Rightarrow> bytes \<Rightarrow> bytes" where
  "hmac_hash c h key data = hmac c h key data"

section \<open>HKDF\<close>

definition hkdf_extract :: "tls_crypto \<Rightarrow> hash_alg \<Rightarrow> bytes \<Rightarrow> bytes \<Rightarrow> bytes" where
  "hkdf_extract c h salt ikm = hmac_hash c h salt ikm"

lemma byte_255: "(b :: byte) = 255 \<longleftrightarrow> unat b = 255"
  by (simp add: word_unat_eq_iff)

text \<open>The loop of \<open>hkdf_expand\<close>; its counter is a \<open>u8\<close>, so the 255th round is the last one that
  does not overflow.\<close>

function hkdf_loop ::
    "tls_crypto \<Rightarrow> hash_alg \<Rightarrow> bytes \<Rightarrow> bytes \<Rightarrow> nat \<Rightarrow> bytes \<Rightarrow> bytes \<Rightarrow> byte \<Rightarrow> (tls13_error, bytes) result" where
  "hkdf_loop c h prk info len t okm counter =
     (if length okm < len then
        let t = hmac_hash c h prk (t @ info @ [counter]);
            okm = okm @ t
        in if counter = 255 then Inl Panic else hkdf_loop c h prk info len t okm (counter + 1)
      else Inr okm)"
  by pat_completeness auto
termination
proof (relation "measure (\<lambda>(c, h, prk, info, len, t, okm, counter). 255 - unat counter)", goal_cases)
  case (2 c h prk info len t okm counter)
  then have "unat counter \<noteq> 255"
    by (simp add: byte_255)
  with unat_byte_less [of counter] have "unat counter < 255"
    by linarith
  then show ?case
    by (simp add: unat_word_ariths(1))
qed simp

declare hkdf_loop.simps [simp del]

definition hkdf_expand_13 :: "tls_crypto \<Rightarrow> hash_alg \<Rightarrow> bytes \<Rightarrow> bytes \<Rightarrow> nat \<Rightarrow> (tls13_error, bytes) result" where
  "hkdf_expand_13 c h prk info len = rbind (hkdf_loop c h prk info len [] [] 1) (\<lambda>okm. Inr (take len okm))"

definition hkdf_label :: "string \<Rightarrow> bytes \<Rightarrow> nat \<Rightarrow> bytes" where
  "hkdf_label label context len =
     (let full_label = ascii (''tls13 '' @ label)
      in to_be16 (word_of_nat len) @ [word_of_nat (length full_label)] @ full_label @
         [word_of_nat (length context)] @ context)"

definition hkdf_expand_label ::
    "tls_crypto \<Rightarrow> hash_alg \<Rightarrow> bytes \<Rightarrow> string \<Rightarrow> bytes \<Rightarrow> nat \<Rightarrow> (tls13_error, bytes) result" where
  "hkdf_expand_label c h secret label context len = hkdf_expand_13 c h secret (hkdf_label label context len) len"

definition derive_secret :: "tls_crypto \<Rightarrow> hash_alg \<Rightarrow> bytes \<Rightarrow> string \<Rightarrow> bytes \<Rightarrow> (tls13_error, bytes) result" where
  "derive_secret c h secret label transcript_hash = hkdf_expand_label c h secret label transcript_hash (hash_len h)"

definition finished_key :: "tls_crypto \<Rightarrow> hash_alg \<Rightarrow> bytes \<Rightarrow> (tls13_error, bytes) result" where
  "finished_key c h secret = hkdf_expand_label c h secret ''finished'' [] (hash_len h)"

section \<open>Record protection\<close>

text \<open>The loop of \<open>record_nonce\<close> over the last eight bytes; an IV shorter than that panics.\<close>

definition record_nonce :: "bytes \<Rightarrow> u64 \<Rightarrow> (tls13_error, bytes) result" where
  "record_nonce iv seq =
     (if length iv < 8 then Inl Panic
      else let base = length iv - 8
           in Inr (take base iv @ map2 xor (drop base iv) (be_bytes 8 (unat seq))))"

datatype record_cipher = Aes128 bytes | Aes256 bytes | ChaCha bytes

text \<open>\<open>nonce.into()\<close> makes a 12-byte array of the slice and panics on any other length.\<close>

fun cipher_parts :: "record_cipher \<Rightarrow> cipher_suite \<times> bytes" where
  "cipher_parts (Aes128 k) = (Aes128GcmSha256, k)"
| "cipher_parts (Aes256 k) = (Aes256GcmSha384, k)"
| "cipher_parts (ChaCha k) = (ChaCha20Poly1305Sha256, k)"

definition cipher_seal :: "tls_crypto \<Rightarrow> record_cipher \<Rightarrow> bytes \<Rightarrow> bytes \<Rightarrow> bytes \<Rightarrow> (tls13_error, bytes) result" where
  "cipher_seal c rc nonce plaintext aad =
     (if length nonce \<noteq> 12 then Inl Panic
      else case cipher_parts rc of (suite, key) \<Rightarrow> ok_or DecryptFailed (aead_encrypt c suite key nonce plaintext aad))"

definition cipher_open :: "tls_crypto \<Rightarrow> record_cipher \<Rightarrow> bytes \<Rightarrow> bytes \<Rightarrow> bytes \<Rightarrow> (tls13_error, bytes) result" where
  "cipher_open c rc nonce ciphertext aad =
     (if length nonce \<noteq> 12 then Inl Panic
      else case cipher_parts rc of (suite, key) \<Rightarrow> ok_or DecryptFailed (aead_decrypt c suite key nonce ciphertext aad))"

definition cipher_from_key :: "cipher_suite \<Rightarrow> bytes \<Rightarrow> (tls13_error, record_cipher) result" where
  "cipher_from_key suite key =
     (if length key \<noteq> key_len suite then Inl (Err BadCipherSuite)
      else Inr (case suite of Aes128GcmSha256 \<Rightarrow> Aes128 key | Aes256GcmSha384 \<Rightarrow> Aes256 key
        | ChaCha20Poly1305Sha256 \<Rightarrow> ChaCha key))"

definition key_iv_from_secret :: "tls_crypto \<Rightarrow> cipher_suite \<Rightarrow> bytes \<Rightarrow> (tls13_error, bytes \<times> bytes) result" where
  "key_iv_from_secret c suite secret =
     rbind (hkdf_expand_label c (suite_hash suite) secret ''key'' [] (key_len suite)) (\<lambda>key.
     rbind (hkdf_expand_label c (suite_hash suite) secret ''iv'' [] IV_LEN) (\<lambda>iv. Inr (key, iv)))"

text \<open>The transcript: the hash and what has been fed to it.\<close>

record transcript =
  tr_alg :: hash_alg
  tr_data :: bytes

definition transcript_new :: "cipher_suite \<Rightarrow> transcript" where
  "transcript_new suite = \<lparr>tr_alg = suite_hash suite, tr_data = []\<rparr>"

definition transcript_update :: "bytes \<Rightarrow> transcript \<Rightarrow> transcript" where
  "transcript_update data t = t\<lparr>tr_data := tr_data t @ data\<rparr>"

definition hash_of :: "tls_crypto \<Rightarrow> transcript \<Rightarrow> bytes" where
  "hash_of c t = digest c (tr_alg t) (tr_data t)"

fun padding_end :: "bytes \<Rightarrow> nat \<Rightarrow> (tls13_error, nat) result" where
  "padding_end plain 0 = Inr 0"
| "padding_end plain (Suc n) = rbind (index n plain) (\<lambda>b. if b = 0 then padding_end plain n else Inr (Suc n))"

definition strip_inner_padding :: "bytes \<Rightarrow> (tls13_error, byte \<times> bytes) result" where
  "strip_inner_padding plain =
     rbind (padding_end plain (length plain)) (\<lambda>end.
       if end = 0 then Inl (Err BadRecord)
       else rbind (index (end - 1) plain) (\<lambda>ct. rbind (slice 0 (end - 1) plain) (\<lambda>payload. Inr (ct, payload))))"

section \<open>Specification\<close>

text \<open>HKDF-Expand as RFC 5869 defines it: the blocks \<open>T(1)\<close>, \<open>T(2)\<close>, \<open>\<dots>\<close> and their first
  \<open>len\<close> bytes.\<close>

fun hkdf_block :: "tls_crypto \<Rightarrow> hash_alg \<Rightarrow> bytes \<Rightarrow> bytes \<Rightarrow> nat \<Rightarrow> bytes" where
  "hkdf_block c h prk info 0 = []"
| "hkdf_block c h prk info (Suc i) = hmac c h prk (hkdf_block c h prk info i @ info @ [word_of_nat (Suc i)])"

definition hkdf_blocks :: "tls_crypto \<Rightarrow> hash_alg \<Rightarrow> bytes \<Rightarrow> bytes \<Rightarrow> nat \<Rightarrow> bytes" where
  "hkdf_blocks c h prk info n = concat (map (hkdf_block c h prk info) [1..<Suc n])"

definition rfc5869_expand :: "tls_crypto \<Rightarrow> hash_alg \<Rightarrow> bytes \<Rightarrow> bytes \<Rightarrow> nat \<Rightarrow> bytes" where
  "rfc5869_expand c h prk info len =
     take len (hkdf_blocks c h prk info ((len + hash_len h - 1) div hash_len h))"

text \<open>What the key schedule derives, by RFC 5869.\<close>

definition secret_of :: "tls_crypto \<Rightarrow> hash_alg \<Rightarrow> bytes \<Rightarrow> string \<Rightarrow> bytes \<Rightarrow> bytes" where
  "secret_of c h secret label context = rfc5869_expand c h secret (hkdf_label label context (hash_len h)) (hash_len h)"

definition key_of :: "tls_crypto \<Rightarrow> cipher_suite \<Rightarrow> bytes \<Rightarrow> bytes" where
  "key_of c s secret = rfc5869_expand c (suite_hash s) secret (hkdf_label ''key'' [] (key_len s)) (key_len s)"

definition iv_of :: "tls_crypto \<Rightarrow> cipher_suite \<Rightarrow> bytes \<Rightarrow> bytes" where
  "iv_of c s secret = rfc5869_expand c (suite_hash s) secret (hkdf_label ''iv'' [] IV_LEN) IV_LEN"

definition cipher_of :: "tls_crypto \<Rightarrow> cipher_suite \<Rightarrow> bytes \<Rightarrow> record_cipher" where
  "cipher_of c s secret = (case s of Aes128GcmSha256 \<Rightarrow> Aes128 | Aes256GcmSha384 \<Rightarrow> Aes256
     | ChaCha20Poly1305Sha256 \<Rightarrow> ChaCha) (key_of c s secret)"

definition tls_crypto_ok :: "tls_crypto \<Rightarrow> bool" where
  "tls_crypto_ok c \<longleftrightarrow>
     (\<forall>h m. length (digest c h m) = hash_len h) \<and> (\<forall>h k m. length (hmac c h k m) = hash_len h) \<and>
     (\<forall>s k n m a. length m < 2 ^ 32 \<longrightarrow> (\<exists>ct. aead_encrypt c s k n m a = Some ct \<and> length ct = length m + 16)) \<and>
     (\<forall>s k n ct m a. length m < 2 ^ 32 \<longrightarrow>
        (aead_decrypt c s k n ct a = Some m \<longleftrightarrow> aead_encrypt c s k n m a = Some ct))"

definition demo_tls :: tls_crypto where
  "demo_tls =
     \<lparr>digest = (\<lambda>h m. demo_fix (hash_len h) m), hmac = (\<lambda>h k m. demo_fix (hash_len h) (k @ m)),
      aead_encrypt = (\<lambda>_. demo_encrypt), aead_decrypt = (\<lambda>_. demo_decrypt),
      rsa_public_key = (\<lambda>n e. n \<noteq> 0), pss_signature = (\<lambda>s. s \<noteq> []), pss_verify = (\<lambda>h k m s. s = [1]),
      pkcs1_signature = (\<lambda>s. s \<noteq> []), pkcs1_verify = (\<lambda>h k m s. s = [2])\<rparr>"

section \<open>Lemmas\<close>

lemma demo_tls_ok: "tls_crypto_ok demo_tls"
proof -
  have "length (digest demo_tls h m) = hash_len h" "length (hmac demo_tls h k m) = hash_len h" for h k m
    by (simp_all add: demo_tls_def)
  moreover have "\<exists>ct. aead_encrypt demo_tls s k n m a = Some ct \<and> length ct = length m + 16" for s k n m a
    by (simp add: demo_tls_def demo_encrypt_def demo_tag_def)
  moreover have "aead_decrypt demo_tls s k n ct a = Some m \<longleftrightarrow> aead_encrypt demo_tls s k n m a = Some ct" for s k n m a ct
    by (simp add: demo_tls_def demo_aead)
  ultimately show ?thesis
    by (simp add: tls_crypto_ok_def)
qed

lemma tls_lengths [simp]:
  "tls_crypto_ok c \<Longrightarrow> length (digest c h m) = hash_len h" "tls_crypto_ok c \<Longrightarrow> length (hmac c h k m) = hash_len h"
  by (simp_all add: tls_crypto_ok_def)

lemma hash_len_pos [simp]: "0 < hash_len h"
  by (cases h) simp_all

lemma hkdf_blocks_Suc: "hkdf_blocks c h prk info (Suc n) = hkdf_blocks c h prk info n @ hkdf_block c h prk info (Suc n)"
  by (simp add: hkdf_blocks_def)

lemma length_hkdf_blocks [simp]: "tls_crypto_ok c \<Longrightarrow> length (hkdf_blocks c h prk info n) = n * hash_len h"
  by (induction n) (simp add: hkdf_blocks_def, simp add: hkdf_blocks_Suc)

lemma less_ceiling: "0 < (k :: nat) \<Longrightarrow> i < (len + k - 1) div k \<longleftrightarrow> i * k < len"
  using less_eq_div_iff_mult_less_eq [of k "Suc i" "len + k - 1"] by (auto simp: Suc_le_eq)

lemma byte_succ: "i < 255 \<Longrightarrow> (word_of_nat i :: byte) + 1 = word_of_nat (Suc i)" "i \<le> 255 \<Longrightarrow> (word_of_nat i :: byte) = 255 \<longleftrightarrow> i = 255"
  by (simp, simp add: byte_255 unat_of_nat)

lemma hkdf_loop_run:
  assumes "tls_crypto_ok c" "i \<le> 254"
  shows "hkdf_loop c h prk info len (hkdf_block c h prk info i) (hkdf_blocks c h prk info i) (word_of_nat (Suc i)) =
    (if len \<le> 254 * hash_len h
     then Inr (hkdf_blocks c h prk info (max i ((len + hash_len h - 1) div hash_len h))) else Inl Panic)"
  using assms(2)
proof (induction "254 - i" arbitrary: i)
  case 0
  then have i: "i = 254" by simp
  show ?case
    using less_ceiling [OF hash_len_pos, of 254 len h] assms(1) unfolding i
    by (subst hkdf_loop.simps) (auto simp: max_def)
next
  case (Suc k)
  have c: "(word_of_nat (Suc i) :: byte) \<noteq> 255" "(word_of_nat (Suc i) :: byte) + 1 = word_of_nat (Suc (Suc i))"
    using byte_succ [of "Suc i"] Suc.hyps(2) by simp_all
  have IH: "hkdf_loop c h prk info len (hkdf_block c h prk info (Suc i)) (hkdf_blocks c h prk info (Suc i))
      (word_of_nat (Suc (Suc i))) =
    (if len \<le> 254 * hash_len h
     then Inr (hkdf_blocks c h prk info (max (Suc i) ((len + hash_len h - 1) div hash_len h))) else Inl Panic)"
    using Suc.hyps(2) by (intro Suc.hyps(1)) simp_all
  show ?case
  proof (cases "i * hash_len h < len")
    case True
    with IH c assms(1) less_ceiling [OF hash_len_pos, of i len h] show ?thesis
      by (subst hkdf_loop.simps) (simp add: hmac_hash_def hkdf_blocks_Suc max_def Let_def del: of_nat_Suc)
  next
    case False
    moreover from False have "len \<le> 254 * hash_len h"
      using mult_le_mono1 [OF Suc.prems, of "hash_len h"] by linarith
    ultimately show ?thesis
      using assms(1) less_ceiling [OF hash_len_pos, of i len h]
      by (subst hkdf_loop.simps) (simp add: max_def)
  qed
qed

lemma hkdf_expand_rfc:
  "tls_crypto_ok c \<Longrightarrow> hkdf_expand_13 c h prk info len =
     (if len \<le> 254 * hash_len h then Inr (rfc5869_expand c h prk info len) else Inl Panic)"
  using hkdf_loop_run [of c 0 h prk info len, simplified]
  by (simp add: hkdf_expand_13_def rfc5869_expand_def hkdf_blocks_def [of c h prk info 0])

text \<open>Every output the key schedule asks for is within the limit.\<close>

lemma hkdf_expand_label_ok:
  "tls_crypto_ok c \<Longrightarrow> len \<le> 254 * hash_len h \<Longrightarrow>
     hkdf_expand_label c h secret label context len =
       Inr (rfc5869_expand c h secret (hkdf_label label context len) len)"
  by (simp add: hkdf_expand_label_def hkdf_expand_rfc)

lemma length_rfc5869_expand [simp]: "tls_crypto_ok c \<Longrightarrow> length (rfc5869_expand c h prk info len) = len"
proof -
  assume "tls_crypto_ok c"
  moreover have "len \<le> (len + hash_len h - 1) div hash_len h * hash_len h"
    using less_ceiling [OF hash_len_pos, of "(len + hash_len h - 1) div hash_len h" len h] by (simp add: not_less)
  ultimately show ?thesis
    by (simp add: rfc5869_expand_def)
qed

lemma small_outputs: "hash_len h \<le> 254 * hash_len h" "key_len s \<le> 254 * hash_len h" "IV_LEN \<le> 254 * hash_len h"
  by (cases h; cases s; simp add: IV_LEN_def)+

lemma schedule_total [simp]:
  assumes "tls_crypto_ok c"
  shows "derive_secret c h secret label context = Inr (secret_of c h secret label context)"
    "finished_key c h secret = Inr (secret_of c h secret ''finished'' [])"
    "key_iv_from_secret c s secret = Inr (key_of c s secret, iv_of c s secret)"
    "cipher_from_key s (key_of c s secret) = Inr (cipher_of c s secret)"
    "length (iv_of c s secret) = 12" "length (secret_of c h secret label context) = hash_len h"
  using assms
  by (simp_all add: derive_secret_def finished_key_def key_iv_from_secret_def secret_of_def key_of_def iv_of_def
      hkdf_expand_label_ok small_outputs cipher_from_key_def cipher_of_def) (simp_all add: IV_LEN_def split: cipher_suite.splits)

section \<open>Records\<close>

lemma map2_xor_inj:
  "length xs = length ys \<Longrightarrow> length ys = length zs \<Longrightarrow> map2 xor xs ys = map2 xor xs zs \<longleftrightarrow> ys = (zs :: bytes)"
proof (induction xs ys zs rule: list_induct3)
  case (Cons x xs y ys z zs)
  have "xor x y = xor x z \<longleftrightarrow> y = z"
    by (metis xor.assoc xor_self_eq xor.left_neutral)
  with Cons show ?case by simp
qed simp

lemma record_nonce_ok:
  assumes "length iv = 12"
  obtains n where "record_nonce iv seq = Inr n" "length n = 12"
  using assms that by (simp add: record_nonce_def)

lemma seal_open:
  assumes "tls_crypto_ok c" "length n = 12" "length m < 2 ^ 32"
  obtains ct where "cipher_seal c rc n m a = Inr ct" "length ct = length m + 16" "cipher_open c rc n ct a = Inr m"
proof -
  obtain s k where k: "cipher_parts rc = (s, k)"
    by fastforce
  with assms obtain ct where "aead_encrypt c s k n m a = Some ct" "length ct = length m + 16" "aead_decrypt c s k n ct a = Some m"
    unfolding tls_crypto_ok_def by metis
  with that k assms(2) show ?thesis
    by (simp add: cipher_seal_def cipher_open_def)
qed

lemma padding_end_zeros:
  "j \<le> k \<Longrightarrow> padding_end (xs @ replicate k 0) (length xs + j) = padding_end (xs @ replicate k 0) (length xs)"
  by (induction j) (simp_all add: index_def nth_append)

lemma strip_padded: "ct \<noteq> 0 \<Longrightarrow> strip_inner_padding (payload @ ct # replicate k 0) = Inr (ct, payload)"
  using padding_end_zeros [of k k "payload @ [ct]"]
  by (simp add: strip_inner_padding_def index_def nth_append slice_def)

lemma padding_end_all: "padding_end (replicate k 0) n = (if n \<le> k then Inr 0 else Inl Panic)"
  by (induction n) (auto simp: index_def)

lemma all_zeros_or_padded:
  obtains "plain = replicate (length plain) (0 :: byte)" | payload ct k where "ct \<noteq> 0" "plain = payload @ ct # replicate k 0"
proof (induction plain arbitrary: thesis rule: rev_induct)
  case (snoc b plain)
  show ?case
  proof (cases "b = 0")
    case True
    show ?thesis
    proof (rule snoc.IH)
      assume *: "plain = replicate (length plain) 0"
      show thesis
        by (rule snoc.prems(1)) (use * True in \<open>metis length_append_singleton replicate_append_same replicate_Suc\<close>)
    next
      fix ct payload k
      assume "ct \<noteq> 0" "plain = payload @ ct # replicate k 0"
      then show thesis
        using True by (intro snoc.prems(2) [of ct payload "Suc k"]) (simp_all add: replicate_append_same)
    qed
  next
    case False
    then show ?thesis
      by (intro snoc.prems(2) [of b plain 0]) simp_all
  qed
qed simp

lemma safe_strip [safe_intros]: "safe (strip_inner_padding plain) (\<lambda>(ct, payload). ct \<noteq> 0 \<and> length payload < length plain)"
proof (cases rule: all_zeros_or_padded [of plain])
  case 1
  from padding_end_all [of "length plain" "length plain"] have "padding_end plain (length plain) = Inr 0"
    by (simp add: 1 [symmetric])
  then show ?thesis
    by (simp add: strip_inner_padding_def)
qed (simp add: strip_padded)

lemma append_split: "xs @ us = ys @ vs \<Longrightarrow> length xs = length ys \<Longrightarrow> xs = ys \<and> us = vs"
  by simp

lemma lengthed_inj:
  assumes "word_of_nat (length f) # f @ r = (word_of_nat (length f') :: byte) # f' @ r'" "length f < 256" "length f' < 256"
  shows "f = f' \<and> r = r'"
proof -
  have "unat (word_of_nat (length f) :: byte) = unat (word_of_nat (length f') :: byte)"
    using assms(1) by (simp only: list.inject)
  with assms(2,3) have "length f = length f'"
    by simp
  with assms(1) show ?thesis
    by simp
qed

lemma hkdf_label_inj:
  assumes "hkdf_label l c n = hkdf_label l' c' n'" "n < 65536" "n' < 65536" "length l < 250" "length l' < 250"
  shows "n = n' \<and> ascii l = ascii l' \<and> c = c'"
proof -
  define f f' where f: "f = ascii (''tls13 '' @ l)" and f': "f' = ascii (''tls13 '' @ l')"
  have "to_be16 (word_of_nat n) @ word_of_nat (length f) # f @ word_of_nat (length c) # c =
      to_be16 (word_of_nat n') @ word_of_nat (length f') # f' @ word_of_nat (length c') # c'"
    using assms(1) unfolding hkdf_label_def Let_def f [symmetric] f' [symmetric] by simp
  note eq = append_split [OF this, unfolded length_to_be16, OF refl]
  then have eq: "to_be16 (word_of_nat n) = to_be16 (word_of_nat n')"
    "word_of_nat (length f) # f @ word_of_nat (length c) # c = word_of_nat (length f') # f' @ word_of_nat (length c') # c'"
    by blast+
  have "f = f' \<and> word_of_nat (length c) # c = (word_of_nat (length c') # c' :: bytes)"
    using assms(4,5) by (intro lengthed_inj [OF eq(2)]) (simp_all add: f f')
  then have "f = f'" "c = c'"
    by (simp_all only: list.inject)
  moreover have "be_val (to_be16 (word_of_nat n)) = n" "be_val (to_be16 (word_of_nat n')) = n'"
    using assms(2,3) by (simp_all add: to_be16_def)
  moreover have "f = ascii ''tls13 '' @ ascii l" "f' = ascii ''tls13 '' @ ascii l'"
    unfolding f f' ascii_def by (rule map_append)+
  ultimately show ?thesis
    using eq(1) by (metis same_append_eq)
qed

section \<open>Properties\<close>

text \<open>C30. The hand-written HKDF-Expand computes the output of RFC 5869 for every length up to 254 hash
  blocks (and panics beyond, one block earlier than the RFC's limit, when its counter overflows), and the
  HKDF label it expands determines the output length, the label and the context.\<close>

theorem hkdf_expand_is_rfc5869:
  assumes "tls_crypto_ok c"
  shows "hkdf_expand_13 c h prk info len =
      (if len \<le> 254 * hash_len h then Inr (rfc5869_expand c h prk info len) else Inl Panic) \<and>
    (hkdf_label l ctx n = hkdf_label l' ctx' n' \<and> n < 65536 \<and> n' < 65536 \<and> length l < 250 \<and> length l' < 250 \<longrightarrow>
      n = n' \<and> ascii l = ascii l' \<and> ctx = ctx')"
  using hkdf_expand_rfc [OF assms] hkdf_label_inj [of l ctx n l' ctx' n'] by simp

theorem hkdf_expand_is_rfc5869_witness:
  "hkdf_expand_13 demo_tls S256 [1] [2] 40 = Inr (rfc5869_expand demo_tls S256 [1] [2] 40) \<and>
   hkdf_label ''key'' [] 16 \<noteq> hkdf_label ''iv'' [] 16"
  using hkdf_expand_is_rfc5869 [OF demo_tls_ok, of S256 "[1]" "[2]" 40 "''key''" "[]" 16 "''iv''" "[]" 16]
  by (auto dest: arg_cong [of _ _ length])

text \<open>Record nonces do not repeat: under one IV, two sequence numbers give the same nonce only if they are
  equal, every nonce has the 12 bytes the AEADs need, and its first four bytes are those of the IV.\<close>

theorem record_nonces_distinct:
  assumes "length iv = 12"
  shows "\<exists>n n'. record_nonce iv seq = Inr n \<and> record_nonce iv seq' = Inr n' \<and> length n = 12 \<and>
    take 4 n = take 4 iv \<and> (n = n' \<longleftrightarrow> seq = seq')"
proof -
  have "unat seq < 256 ^ 8" "unat seq' < 256 ^ 8"
    using unsigned_less [of seq] unsigned_less [of seq'] by simp_all
  then have "be_bytes 8 (unat seq) = be_bytes 8 (unat seq') \<longleftrightarrow> seq = seq'"
    using be_bytes_inj by (auto simp: word_unat_eq_iff)
  then show ?thesis
    using assms map2_xor_inj [of "drop 4 iv" "be_bytes 8 (unat seq)" "be_bytes 8 (unat seq')"]
    by (simp add: record_nonce_def)
qed

theorem record_nonces_distinct_witness:
  "record_nonce (replicate 12 0x11) 0 \<noteq> record_nonce (replicate 12 0x11) 1"
  using record_nonces_distinct [of "replicate 12 0x11" 0 1] by force

text \<open>The inner padding is unambiguous: a decrypted plaintext is accepted exactly when it is a payload
  followed by a non-zero content type and any number of zero bytes, and those are what is
  returned; the scan never runs out of the buffer.\<close>

theorem strip_inner_padding_exact:
  "(strip_inner_padding plain = Inr (ct, payload) \<longleftrightarrow> ct \<noteq> 0 \<and> (\<exists>k. plain = payload @ ct # replicate k 0)) \<and>
   strip_inner_padding plain \<noteq> Inl Panic"
proof (cases rule: all_zeros_or_padded [of plain])
  case 1
  from padding_end_all [of "length plain" "length plain"] have "padding_end plain (length plain) = Inr 0"
    by (simp add: 1 [symmetric])
  then have "strip_inner_padding plain = Inl (Err BadRecord)"
    by (simp add: strip_inner_padding_def)
  moreover have "\<forall>x \<in> set plain. x = 0"
    by (subst 1) simp
  ultimately show ?thesis
    by auto
next
  case (2 payload' ct' k)
  from strip_padded [OF 2(1)] 2(2) have "strip_inner_padding plain = Inr (ct', payload')"
    by simp
  with 2 strip_padded [of ct payload] show ?thesis
    by auto
qed

end
