(* ===== verification/Der.thy ===== *)
theory Der
  imports KeySchedule
begin

text \<open>
  \<open>native/src/tls13.rs\<close>, last part: the DER walker, the location of the public key in an X.509
  certificate, the RSA key, the certificate list of a TLS 1.3 Certificate message, and the
  CertificateVerify signature.  \<open>Der\<close> has the two fields of \<open>Reader\<close>; a Rust \<open>Option\<close> that a
  function with checked indexing returns is a result with the error \<open>()\<close>.  \<open>usize\<close> has 64 bits, so
  sums of a position and a four-byte length do not overflow.
\<close>

definition tlv :: "reader \<Rightarrow> (unit, (byte \<times> bytes) \<times> reader) result" where
  "tlv d =
     (if length (rbuf d) < rpos d + 2 then Inl (Err ())
      else rbind (index (rpos d) (rbuf d)) (\<lambda>tag.
        rbind (index (rpos d + 1) (rbuf d)) (\<lambda>lb.
          let len = unat lb;
              p = rpos d + 2
          in if 0x80 < len then
               let n = and len 0x7f in
               if n = 0 \<or> 4 < n \<or> length (rbuf d) < p + n then Inl (Err ())
               else rbind (slice p (p + n) (rbuf d)) (\<lambda>lbs.
                 let l = foldl (\<lambda>l b. or (push_bit 8 l) (unat b)) 0 lbs;
                     p = p + n
                 in if length (rbuf d) < p + l then Inl (Err ())
                    else rbind (slice p (p + l) (rbuf d)) (\<lambda>content. Inr ((tag, content), d\<lparr>rpos := p + l\<rparr>)))
             else if length (rbuf d) < p + len then Inl (Err ())
             else rbind (slice p (p + len) (rbuf d)) (\<lambda>content. Inr ((tag, content), d\<lparr>rpos := p + len\<rparr>)))))"

definition tlv_full :: "reader \<Rightarrow> (unit, (byte \<times> bytes) \<times> reader) result" where
  "tlv_full d = rbind (tlv d) (\<lambda>((tag, _), d').
     rbind (slice (rpos d) (rpos d') (rbuf d')) (\<lambda>bs. Inr ((tag, bs), d')))"

fun skip_sequences :: "nat \<Rightarrow> reader \<Rightarrow> (unit, reader) result" where
  "skip_sequences 0 d = Inr d"
| "skip_sequences (Suc n) d = rbind (tlv d) (\<lambda>((ti, _), d). if ti \<noteq> 0x30 then Inl (Err ()) else skip_sequences n d)"

definition parse_cert_spki :: "bytes \<Rightarrow> (unit, bytes) result" where
  "parse_cert_spki der =
     rbind (tlv (reader_new der)) (\<lambda>((t, cert), _). if t \<noteq> 0x30 then Inl (Err ()) else
     rbind (tlv (reader_new cert)) (\<lambda>((t, tbs), _). if t \<noteq> 0x30 then Inl (Err ()) else
     rbind (tlv (reader_new tbs)) (\<lambda>((tag, _), d).
       let d = (if tag = 0xa0 then d else d\<lparr>rpos := 0\<rparr>) in
     rbind (tlv d) (\<lambda>((t1, _), d). if t1 \<noteq> 0x02 then Inl (Err ()) else
     rbind (skip_sequences 4 d) (\<lambda>d.
     rbind (tlv_full d) (\<lambda>((t6, spki), _). if t6 \<noteq> 0x30 then Inl (Err ()) else Inr spki))))))"

definition strip_sign :: "bytes \<Rightarrow> bytes" where
  "strip_sign n = (case n of [] \<Rightarrow> n | b # bs \<Rightarrow> if b = 0 then bs else n)"

definition RSA_OID :: bytes where [proto_defs]:
  "RSA_OID = [0x2a, 0x86, 0x48, 0x86, 0xf7, 0x0d, 0x01, 0x01, 0x01]"

definition parse_rsa_spki :: "tls_crypto \<Rightarrow> bytes \<Rightarrow> (unit, nat \<times> nat) result" where
  "parse_rsa_spki c der =
     rbind (tlv (reader_new der)) (\<lambda>((t, spki), _). if t \<noteq> 0x30 then Inl (Err ()) else
     rbind (tlv (reader_new spki)) (\<lambda>((t, alg), s). if t \<noteq> 0x30 then Inl (Err ()) else
     rbind (tlv s) (\<lambda>((t, bitstr), _).
       if t \<noteq> 0x03 \<or> bitstr = [] \<or> bitstr ! 0 \<noteq> 0 then Inl (Err ()) else
     rbind (tlv (reader_new alg)) (\<lambda>((t, oid), _). if t \<noteq> 0x06 \<or> oid \<noteq> RSA_OID then Inl (Err ()) else
     rbind (tlv (reader_new (drop 1 bitstr))) (\<lambda>((t, seq), _). if t \<noteq> 0x30 then Inl (Err ()) else
     rbind (tlv (reader_new seq)) (\<lambda>((t, n), kv). if t \<noteq> 0x02 then Inl (Err ()) else
     rbind (tlv kv) (\<lambda>((t, e), _). if t \<noteq> 0x02 then Inl (Err ()) else
       let n = be_val (strip_sign n);
           e = be_val (strip_sign e)
       in if rsa_public_key c n e then Inr (n, e) else Inl (Err ()))))))))"

text \<open>The signature check by scheme, for a given key.\<close>

definition verify_with_key :: "tls_crypto \<Rightarrow> u16 \<Rightarrow> nat \<times> nat \<Rightarrow> bytes \<Rightarrow> bytes \<Rightarrow> (tls13_error, unit) result" where
  "verify_with_key c scheme key sig tbs =
     (if scheme \<in> {0x0804, 0x0805, 0x0806} then
        if \<not> pss_signature c sig then Inl (Err CertVerifyRejected)
        else if pss_verify c (if scheme = 0x0804 then Sha256 else if scheme = 0x0805 then Sha384 else Sha512) key tbs sig
        then Inr () else Inl (Err CertVerifyRejected)
      else if scheme \<in> {0x0401, 0x0501, 0x0601} then
        if \<not> pkcs1_signature c sig then Inl (Err CertVerifyRejected)
        else if pkcs1_verify c (if scheme = 0x0401 then Sha256 else if scheme = 0x0501 then Sha384 else Sha512) key tbs sig
        then Inr () else Inl (Err CertVerifyRejected)
      else Inl (Err BadScheme))"

definition verify_certificate_verify :: "tls_crypto \<Rightarrow> u16 \<Rightarrow> bytes \<Rightarrow> bytes \<Rightarrow> bytes \<Rightarrow> (tls13_error, unit) result" where
  "verify_certificate_verify c scheme leaf_der sig tbs =
     rbind (map_err_to BadScheme (parse_cert_spki leaf_der)) (\<lambda>spki.
     rbind (map_err_to BadScheme (parse_rsa_spki c spki)) (\<lambda>key.
       verify_with_key c scheme key sig tbs))"

section \<open>The certificate list\<close>

text \<open>One entry, and the loop that reads entries until the cursor is at the end of the list.\<close>

definition certificate_entry :: "reader \<Rightarrow> (tls13_error, bytes \<times> reader) result" where
  "certificate_entry lr =
     rbind (rd_u24 Truncated_13 lr) (\<lambda>(cert_len, lr).
     rbind (rd_take Truncated_13 cert_len lr) (\<lambda>(cert, lr).
     rbind (rd_u16 Truncated_13 lr) (\<lambda>(ext_len, lr).
     rbind (rd_take Truncated_13 (unat ext_len) lr) (\<lambda>(_, lr). Inr (cert, lr)))))"

lemma safe_certificate_entry [safe_intros]:
  "reader_ok r \<Longrightarrow> safe (certificate_entry r) (\<lambda>(_, r'). reader_ok r' \<and> rbuf r' = rbuf r \<and> rpos r + 5 \<le> rpos r')"
  unfolding certificate_entry_def by (intro safe_intros) simp_all

function certificate_entries :: "reader \<Rightarrow> bytes list \<Rightarrow> (tls13_error, bytes list) result" where
  "certificate_entries lr out =
     (if rpos lr < length (rbuf lr)
      then rbind (certificate_entry lr) (\<lambda>(cert, lr). certificate_entries lr (out @ [cert]))
      else Inr out)"
  by pat_completeness auto
termination
proof (relation "measure (\<lambda>(r, out). length (rbuf r) - rpos r)", goal_cases)
  case (2 lr out x cert lr')
  then have "reader_ok lr" by (simp add: reader_ok_def)
  from safeD [OF safe_certificate_entry [OF this] 2(2)] 2(1,3) show ?case
    by auto
qed simp

declare certificate_entries.simps [simp del]

definition parse_certificate_entry_bodies :: "bytes \<Rightarrow> (tls13_error, bytes list) result" where
  "parse_certificate_entry_bodies body =
     rbind (rd_u8 Truncated_13 (reader_new body)) (\<lambda>(ctx_len, r).
     rbind (rd_take Truncated_13 (unat ctx_len) r) (\<lambda>(_, r).
     rbind (rd_u24 Truncated_13 r) (\<lambda>(list_len, r).
     rbind (rd_take Truncated_13 list_len r) (\<lambda>(list, r).
       certificate_entries (reader_new list) []))))"

section \<open>Specification\<close>

text \<open>DER with the minimal length form, for contents below 4 GiB.\<close>

definition der_len :: "nat \<Rightarrow> bytes" where
  "der_len n = (if n < 128 then [word_of_nat n] else if n < 2 ^ 8 then 0x81 # be_bytes 1 n
     else if n < 2 ^ 16 then 0x82 # be_bytes 2 n else if n < 2 ^ 24 then 0x83 # be_bytes 3 n else 0x84 # be_bytes 4 n)"

definition der :: "byte \<Rightarrow> bytes \<Rightarrow> bytes" where
  "der tag content = tag # der_len (length content) @ content"

text \<open>An RSA certificate, by the contents of its parts; \<open>x_version\<close> is optional, the key's
  integers are \<open>x_n\<close> and \<open>x_e\<close>, and the rest are whatever the issuer put there.\<close>

record x509 =
  x_version :: "bytes option"
  x_serial :: bytes
  x_sequences :: "bytes list"
  x_alg_params :: bytes
  x_n :: bytes
  x_e :: bytes
  x_extensions :: bytes
  x_signature :: bytes

definition x509_spki :: "x509 \<Rightarrow> bytes" where
  "x509_spki x = der 0x30 (der 0x30 (der 0x06 RSA_OID @ x_alg_params x) @
     der 0x03 (0 # der 0x30 (der 0x02 (x_n x) @ der 0x02 (x_e x))))"

definition x509_tbs :: "x509 \<Rightarrow> bytes" where
  "x509_tbs x = (case x_version x of None \<Rightarrow> [] | Some v \<Rightarrow> der 0xa0 v) @ der 0x02 (x_serial x) @
     concat (map (der 0x30) (x_sequences x)) @ x509_spki x @ x_extensions x"

definition x509_wire :: "x509 \<Rightarrow> bytes" where
  "x509_wire x = der 0x30 (der 0x30 (x509_tbs x) @ x_signature x)"

definition x509_ok :: "x509 \<Rightarrow> bool" where
  "x509_ok x \<longleftrightarrow> length (x_sequences x) = 4 \<and> length (x509_wire x) < 2 ^ 32"

definition entry_wire :: "bytes \<times> bytes \<Rightarrow> bytes" where
  "entry_wire e = be_bytes 3 (length (fst e)) @ fst e @ to_be16 (word_of_nat (length (snd e))) @ snd e"

definition certificate_wire :: "bytes \<Rightarrow> (bytes \<times> bytes) list \<Rightarrow> bytes" where
  "certificate_wire ctx es = word_of_nat (length ctx) # ctx @ be_bytes 3 (length (concat (map entry_wire es))) @
     concat (map entry_wire es)"

definition demo_x509 :: x509 where
  "demo_x509 = \<lparr>x_version = Some [2, 1, 2], x_serial = [1], x_sequences = [[], [], [], []], x_alg_params = [5, 0],
     x_n = [0, 0xc5], x_e = [3], x_extensions = [], x_signature = [0x30, 0, 3, 1, 0]\<rparr>"

section \<open>Lemmas\<close>

lemma fold_be_val: "foldl (\<lambda>l b. or (push_bit 8 l) (unat b)) 0 bs = be_val bs"
proof -
  have "or (push_bit 8 a) (unat b) = a * 256 + unat b" for a and b :: byte
    using nat_or_shift [of "unat b" 8 a] unat_byte_less [of b]
    by (simp add: push_bit_eq_mult or.commute add.commute)
  then show ?thesis
    by (simp add: be_val_def)
qed

lemma tlv_long:
  assumes "length lbs = n" "1 \<le> n" "n \<le> 4" "be_val lbs = length content"
  shows "tlv (rd_at pre (tag # word_of_nat (0x80 + n) # lbs @ content @ rest)) =
    Inr ((tag, content), rd_at (pre @ tag # word_of_nat (0x80 + n) # lbs @ content) rest)"
proof -
  have n: "n \<in> {1, 2, 3, 4}"
    using assms(2,3) by auto
  then have "unat (word_of_nat (0x80 + n) :: byte) = 0x80 + n" "and (0x80 + n) 0x7f = n"
    by auto
  then show ?thesis
    using assms
    by (simp add: tlv_def rd_at_def index_def nth_append slice_def fold_be_val Let_def del: of_nat_add)
qed

lemma der_len_long:
  assumes "128 \<le> n" "n < 2 ^ 32"
  shows "\<exists>k. 1 \<le> k \<and> k \<le> 4 \<and> der_len n = word_of_nat (0x80 + k) # be_bytes k n \<and> n < 256 ^ k"
proof -
  consider "n < 2 ^ 8" | "2 ^ 8 \<le> n" "n < 2 ^ 16" | "2 ^ 16 \<le> n" "n < 2 ^ 24" | "2 ^ 24 \<le> n"
    by linarith
  then show ?thesis
  proof cases
    case 1
    with assms show ?thesis by (intro exI [of _ 1]) (simp add: der_len_def)
  next
    case 2
    with assms show ?thesis by (intro exI [of _ 2]) (simp add: der_len_def)
  next
    case 3
    with assms show ?thesis by (intro exI [of _ 3]) (simp add: der_len_def)
  next
    case 4
    with assms show ?thesis by (intro exI [of _ 4]) (simp add: der_len_def)
  qed
qed

lemma tlv_der [simp]:
  assumes "length content < 2 ^ 32"
  shows "tlv (rd_at pre (der tag content @ rest)) = Inr ((tag, content), rd_at (pre @ der tag content) rest)"
proof (cases "length content < 128")
  case True
  then show ?thesis
    by (simp add: der_def der_len_def tlv_def rd_at_def index_def nth_append slice_def Let_def)
next
  case False
  obtain k where "1 \<le> k" "k \<le> 4" "der_len (length content) = word_of_nat (0x80 + k) # be_bytes k (length content)"
    "length content < 256 ^ k"
    using der_len_long [of "length content"] assms False by (auto simp del: of_nat_add)
  then show ?thesis
    using tlv_long [of "be_bytes k (length content)" k content pre tag rest] by (simp add: der_def del: of_nat_add)
qed

lemma tlv_der_end [simp]:
  "length content < 2 ^ 32 \<Longrightarrow> tlv (rd_at pre (der tag content)) = Inr ((tag, content), rd_at (pre @ der tag content) [])"
  using tlv_der [of content pre tag "[]"] by simp

lemma length_der: "length content < length (der tag content)"
  by (simp add: der_def)

lemma tlv_full_der:
  "length content < 2 ^ 32 \<Longrightarrow>
     tlv_full (rd_at pre (der tag content @ rest)) = Inr ((tag, der tag content), rd_at (pre @ der tag content) rest)"
  by (simp add: tlv_full_def) (simp add: rd_at_def slice_def)

lemma skip_sequences_der:
  "\<forall>s \<in> set ss. length s < 2 ^ 32 \<Longrightarrow>
     skip_sequences (length ss) (rd_at pre (concat (map (der 0x30) ss) @ rest)) =
       Inr (rd_at (pre @ concat (map (der 0x30) ss)) rest)"
  by (induction ss arbitrary: pre) auto

lemma rewind: "(rd_at pre rest)\<lparr>rpos := 0\<rparr> = rd_at [] (pre @ rest)"
  by (simp add: rd_at_def)

lemma x509_bounds:
  assumes "x509_ok x"
  shows "length (x509_tbs x) < 2 ^ 32" "length (der 0x30 (x509_tbs x) @ x_signature x) < 2 ^ 32"
    "length (x_serial x) < 2 ^ 32" "\<forall>s \<in> set (x_sequences x). length s < 2 ^ 32"
    "length (x509_spki x) < 2 ^ 32" "x_version x = Some v \<Longrightarrow> length v < 2 ^ 32"
proof -
  have 1: "length (der 0x30 (x509_tbs x) @ x_signature x) < 2 ^ 32"
    using assms length_der [of "der 0x30 (x509_tbs x) @ x_signature x" "0x30"]
    by (simp add: x509_ok_def x509_wire_def)
  then show "length (der 0x30 (x509_tbs x) @ x_signature x) < 2 ^ 32" .
  have 2: "length (x509_tbs x) < 2 ^ 32"
    using 1 length_der [of "x509_tbs x" "0x30"] by simp
  then show "length (x509_tbs x) < 2 ^ 32" .
  have tbs: "length (x509_tbs x) = (case x_version x of None \<Rightarrow> 0 | Some v \<Rightarrow> length (der 0xa0 v)) +
      length (der 0x02 (x_serial x)) + length (concat (map (der 0x30) (x_sequences x))) + length (x509_spki x) +
      length (x_extensions x)"
    by (simp add: x509_tbs_def split: option.split)
  then show "length (x_serial x) < 2 ^ 32" "length (x509_spki x) < 2 ^ 32"
    using 2 length_der [of "x_serial x" "0x02"] by linarith+
  show "x_version x = Some v \<Longrightarrow> length v < 2 ^ 32"
    using 2 tbs length_der [of v "0xa0"] by simp
  have "length s \<le> length (concat (map (der 0x30) ss))" if "s \<in> set ss" for s ss
    using length_concat_member [OF that, of "der 0x30"] length_der [of s "0x30"] by linarith
  moreover have "length (concat (map (der 0x30) (x_sequences x))) < 2 ^ 32"
    using 2 tbs by linarith
  ultimately show "\<forall>s \<in> set (x_sequences x). length s < 2 ^ 32"
    by (blast intro: le_less_trans)
qed

lemma parse_cert_spki_wire:
  assumes "x509_ok x"
  shows "parse_cert_spki (x509_wire x) = Inr (x509_spki x)"
proof -
  note b = x509_bounds [OF assms]
  define body where "body = der 0x30 (der 0x06 RSA_OID @ x_alg_params x) @
     der 0x03 (0 # der 0x30 (der 0x02 (x_n x) @ der 0x02 (x_e x)))"
  then have spki: "x509_spki x = der 0x30 body" "length body < 2 ^ 32"
    using b(5) length_der [of body "0x30"] by (simp_all add: x509_spki_def)
  have skip: "skip_sequences 4 (rd_at pre (concat (map (der 0x30) (x_sequences x)) @ rest)) =
      Inr (rd_at (pre @ concat (map (der 0x30) (x_sequences x))) rest)" for pre rest
    using skip_sequences_der [OF b(4), of pre rest] assms by (simp add: x509_ok_def)
  have "tlv (reader_new (x509_wire x)) = Inr ((0x30, der 0x30 (x509_tbs x) @ x_signature x), rd_at (x509_wire x) [])"
    using b(2) by (simp add: x509_wire_def reader_new_at)
  moreover have "tlv (reader_new (der 0x30 (x509_tbs x) @ x_signature x)) =
      Inr ((0x30, x509_tbs x), rd_at (der 0x30 (x509_tbs x)) (x_signature x))"
    using b(1) by (simp add: reader_new_at)
  ultimately show ?thesis
    using b(3,6) spki(2)
    by (cases "x_version x")
       (simp_all add: parse_cert_spki_def x509_tbs_def reader_new_at skip tlv_full_der spki(1) rewind)
qed

lemma parse_rsa_spki_wire:
  assumes "length (x509_spki x) < 2 ^ 32"
  shows "parse_rsa_spki c (x509_spki x) =
    (let n = be_val (strip_sign (x_n x)); e = be_val (strip_sign (x_e x))
     in if rsa_public_key c n e then Inr (n, e) else Inl (Err ()))"
proof -
  let ?alg = "der 0x06 RSA_OID @ x_alg_params x"
  let ?key = "der 0x02 (x_n x) @ der 0x02 (x_e x)"
  let ?bits = "0 # der 0x30 ?key"
  have 1: "length (der 0x30 ?alg @ der 0x03 ?bits) < 2 ^ 32"
    using assms length_der [of "der 0x30 ?alg @ der 0x03 ?bits" "0x30"] by (simp add: x509_spki_def)
  then have 2: "length ?alg < 2 ^ 32" "length ?bits < 2 ^ 32"
    using length_der [of ?alg "0x30"] length_der [of ?bits "0x03"] by simp_all
  then have 3: "length ?key < 2 ^ 32"
    using length_der [of ?key "0x30"] by simp
  then have 4: "length (x_n x) < 2 ^ 32" "length (x_e x) < 2 ^ 32"
    using length_der [of "x_n x" "0x02"] length_der [of "x_e x" "0x02"] by simp_all
  have "length RSA_OID < 2 ^ 32"
    by (simp add: RSA_OID_def)
  then show ?thesis
    using 1 2 3 4 by (simp add: parse_rsa_spki_def x509_spki_def reader_new_at Let_def)
qed

lemma be_val_Cons_0 [simp]: "be_val (0 # bs) = be_val bs"
  by (simp add: be_val_def)

lemma be_val_strip_sign [simp]: "be_val (strip_sign n) = be_val n"
  by (auto simp: strip_sign_def split: list.split)

lemma certificate_entry_wire:
  assumes "length (fst e) < 2 ^ 24" "length (snd e) < 65536"
  shows "certificate_entry (rd_at pre (entry_wire e @ rest)) = Inr (fst e, rd_at (pre @ entry_wire e) rest)"
  using assms by (simp add: certificate_entry_def entry_wire_def)

lemma certificate_entries_wire:
  "\<forall>e \<in> set es. length (fst e) < 2 ^ 24 \<and> length (snd e) < 65536 \<Longrightarrow>
     certificate_entries (rd_at pre (concat (map entry_wire es))) out = Inr (out @ map fst es)"
proof (induction es arbitrary: pre out)
  case Nil
  then show ?case
    by (subst certificate_entries.simps) (simp add: rd_at_def)
next
  case (Cons e es)
  have "rpos (rd_at pre (entry_wire e @ rest)) < length (rbuf (rd_at pre (entry_wire e @ rest)))" for rest
    by (simp add: rd_at_def entry_wire_def)
  with Cons show ?case
    by (subst certificate_entries.simps) (simp add: certificate_entry_wire)
qed

text \<open>The certificate list of a Certificate message is read back.\<close>

lemma certificate_list_read:
  assumes "length ctx < 256" "length (concat (map entry_wire es)) < 2 ^ 24"
    "\<forall>e \<in> set es. length (snd e) < 65536"
  shows "parse_certificate_entry_bodies (certificate_wire ctx es) = Inr (map fst es)"
proof -
  have "length (fst e) \<le> length (concat (map entry_wire es))" if "e \<in> set es" for e
    using length_concat_member [OF that, of entry_wire] by (simp add: entry_wire_def del: length_concat)
  then have "\<forall>e \<in> set es. length (fst e) < 2 ^ 24 \<and> length (snd e) < 65536"
    using assms(2,3) le_less_trans by blast
  from certificate_entries_wire [OF this, of "[]" "[]"] assms(1,2) show ?thesis
    by (simp add: parse_certificate_entry_bodies_def certificate_wire_def reader_new_at del: length_concat)
qed

section \<open>Safety\<close>

lemma safe_tlv [safe_intros]:
  "safe (tlv d) (\<lambda>(_, d'). reader_ok d' \<and> rbuf d' = rbuf d \<and> rpos d + 2 \<le> rpos d')"
  by (simp add: tlv_def index_def slice_def Let_def reader_ok_def)

lemma safe_bind_tlv [safe_intros]:
  "(\<And>t b d'. reader_ok d' \<Longrightarrow> rbuf d' = rbuf d \<Longrightarrow> rpos d + 2 \<le> rpos d' \<Longrightarrow> safe (f t b d') P) \<Longrightarrow>
   safe (rbind (tlv d) (\<lambda>((t, b), d). f t b d)) P"
  by (rule safe_rbind [OF safe_tlv]) auto

lemma safe_tlv_full [safe_intros]: "safe (tlv_full d) (\<lambda>_. True)"
  unfolding tlv_full_def by (rule safe_bind_tlv) (simp add: slice_def reader_ok_def)

lemma safe_skip_sequences [safe_intros]: "safe (skip_sequences n d) (\<lambda>_. True)"
  by (induction n arbitrary: d) (auto intro!: safe_intros)

lemma safe_parse_cert_spki: "safe (parse_cert_spki b) (\<lambda>_. True)"
  unfolding parse_cert_spki_def
  by (intro safe_bind_tlv safe_if safe_Let safe_Err safe_rbind [OF safe_skip_sequences] safe_rbind [OF safe_tlv_full])
     auto

lemma safe_parse_rsa_spki: "safe (parse_rsa_spki c b) (\<lambda>_. True)"
  unfolding parse_rsa_spki_def by (intro safe_bind_tlv safe_if safe_Let safe_Err) simp_all

lemma safe_map_err_to: "safe m P \<Longrightarrow> safe (map_err_to e m) P"
  by (auto simp: safe_def map_err_to_def split: sum.splits fault.splits)

lemma safe_verify: "safe (verify_certificate_verify c scheme leaf sig tbs) (\<lambda>_. True)"
  unfolding verify_certificate_verify_def verify_with_key_def
  by (intro safe_rbind [OF safe_map_err_to [OF safe_parse_cert_spki]] safe_rbind [OF safe_map_err_to [OF safe_parse_rsa_spki]]
      safe_if safe_Err) simp_all

lemma safe_certificate_entries: "reader_ok r \<Longrightarrow> safe (certificate_entries r out) (\<lambda>_. True)"
proof (induction r out rule: certificate_entries.induct)
  case (1 lr out)
  have "safe (rbind (certificate_entry lr) (\<lambda>(cert, lr). certificate_entries lr (out @ [cert]))) (\<lambda>_. True)"
    if "rpos lr < length (rbuf lr)"
    by (rule safe_rbind [OF safe_certificate_entry [OF 1(2)]]) (use 1(1) that in auto)
  then show ?case
    by (subst certificate_entries.simps) simp
qed

lemma safe_certificate_bodies: "safe (parse_certificate_entry_bodies b) (\<lambda>_. True)"
  unfolding parse_certificate_entry_bodies_def
  by (intro safe_bind_u8 safe_bind_take safe_bind_u24 safe_certificate_entries reader_ok_new)

lemma demo_x509_ok: "x509_ok demo_x509" "rsa_public_key demo_tls (be_val (x_n demo_x509)) (be_val (x_e demo_x509))"
  by (simp_all add: x509_ok_def x509_wire_def x509_tbs_def x509_spki_def demo_x509_def der_def der_len_def RSA_OID_def
      demo_tls_def be_val_def)

lemma demo_x509_verifies: "verify_certificate_verify demo_tls 0x0804 (x509_wire demo_x509) [1] tbs = Inr ()"
  using parse_rsa_spki_wire [OF x509_bounds(5) [OF demo_x509_ok(1)], of demo_tls] demo_x509_ok
  by (simp add: verify_certificate_verify_def parse_cert_spki_wire verify_with_key_def) (simp add: demo_tls_def)

section \<open>Properties\<close>

text \<open>C26. The server's key is the one in its certificate: for every RSA certificate, with or without a
  version field, whatever its issuer, names, validity, extensions and signature, the
  CertificateVerify signature is checked with exactly the modulus and exponent of its
  subject public key, whether or not their encodings carry a sign byte.\<close>

theorem x509_key_found:
  assumes "x509_ok x" "rsa_public_key c (be_val (x_n x)) (be_val (x_e x))"
  shows "verify_certificate_verify c scheme (x509_wire x) sig tbs =
    verify_with_key c scheme (be_val (x_n x), be_val (x_e x)) sig tbs"
  using assms parse_rsa_spki_wire [OF x509_bounds(5) [OF assms(1)], of c]
  by (simp add: verify_certificate_verify_def parse_cert_spki_wire)

theorem x509_key_found_witness:
  "verify_certificate_verify demo_tls 0x0804 (x509_wire demo_x509) [1] [9] = Inr ()"
  using x509_key_found [OF demo_x509_ok, of "0x0804" "[1]" "[9]"] by (simp add: verify_with_key_def) (simp add: demo_tls_def)

text \<open>No certificate makes the parsers panic: neither the certificate list nor the DER walk of the leaf
  and its key reads outside its buffer, on any bytes.  (The walk is laxer than DER: a length byte
  of 0x80 is taken for a content of 128 bytes.)\<close>

theorem certificate_parsers_safe:
  "parse_certificate_entry_bodies body \<noteq> Inl Panic \<and> verify_certificate_verify c scheme leaf sig tbs \<noteq> Inl Panic \<and>
   tlv (reader_new (tag # 0x80 # replicate 128 b)) = Inr ((tag, replicate 128 b), rd_at (tag # 0x80 # replicate 128 b) [])"
  using safe_not_Panic [OF safe_certificate_bodies [of body]] safe_not_Panic [OF safe_verify [of c scheme leaf sig tbs]]
  by (simp add: tlv_def reader_new_def index_def slice_def rd_at_def)

end
