(* ===== verification/Tls13.thy ===== *)
theory Tls13
  imports Der
begin

text \<open>
  \<open>native/src/tls13.rs\<close>, the state machine \<open>Tls13Client\<close>: the ServerHello, the handshake keys, the
  client Finished, and application records.

  A method on \<open>&mut self\<close> is an action: a function of the client state that returns a result and
  the new state, so that what a failing method has already changed is visible.  The flight is in
  the next theory.
\<close>

definition CONTENT_HANDSHAKE_13 :: byte where [proto_defs]: "CONTENT_HANDSHAKE_13 = 0x16"
definition CONTENT_APPDATA :: byte where [proto_defs]: "CONTENT_APPDATA = 0x17"
definition HS_SERVER_HELLO :: byte where [proto_defs]: "HS_SERVER_HELLO = 0x02"
definition HS_ENCRYPTED_EXTENSIONS :: byte where [proto_defs]: "HS_ENCRYPTED_EXTENSIONS = 0x08"
definition HS_CERTIFICATE :: byte where [proto_defs]: "HS_CERTIFICATE = 0x0b"
definition HS_CERTIFICATE_VERIFY :: byte where [proto_defs]: "HS_CERTIFICATE_VERIFY = 0x0f"
definition HS_FINISHED :: byte where [proto_defs]: "HS_FINISHED = 0x14"
definition EXT_KEY_SHARE_13 :: u16 where [proto_defs]: "EXT_KEY_SHARE_13 = 0x0033"
definition GROUP_X25519_13 :: u16 where [proto_defs]: "GROUP_X25519_13 = 0x001d"

type_synonym keyed = "record_cipher \<times> bytes \<times> u64"

record tls13_client =
  t_suite :: "cipher_suite option"
  t_transcript :: "transcript option"
  t_client_hello :: "bytes option"
  early_secret :: "bytes option"
  handshake_secret :: "bytes option"
  master_secret :: "bytes option"
  chts :: "bytes option"
  shts :: "bytes option"
  cets :: "bytes option"
  sets :: "bytes option"
  hs_read :: "keyed option"
  hs_write :: "keyed option"
  app_read :: "keyed option"
  app_write :: "keyed option"

record tls13_outcome =
  to_suite :: cipher_suite
  to_server_chain :: "bytes list"
  server_app_secret :: bytes
  client_app_secret :: bytes

definition tls13_new :: tls13_client where
  "tls13_new = \<lparr>t_suite = None, t_transcript = None, t_client_hello = None, early_secret = None,
     handshake_secret = None, master_secret = None, chts = None, shts = None, cets = None, sets = None,
     hs_read = None, hs_write = None, app_read = None, app_write = None\<rparr>"

definition set_client_hello :: "bytes \<Rightarrow> tls13_client \<Rightarrow> tls13_client" where
  "set_client_hello hello st = st\<lparr>t_client_hello := Some hello\<rparr>"

section \<open>Actions\<close>

type_synonym 'a act = "tls13_client \<Rightarrow> (tls13_error, 'a) result \<times> tls13_client"

definition act :: "(tls13_client \<Rightarrow> (tls13_error, 'a) result) \<Rightarrow> 'a act" where
  "act f st = (f st, st)"

definition modify :: "(tls13_client \<Rightarrow> tls13_client) \<Rightarrow> unit act" where
  "modify f st = (Inr (), f st)"

definition abind :: "'a act \<Rightarrow> ('a \<Rightarrow> 'b act) \<Rightarrow> 'b act" where
  "abind m f st = (case m st of (Inl e, st) \<Rightarrow> (Inl e, st) | (Inr x, st) \<Rightarrow> f x st)"

text \<open>\<open>Option::unwrap\<close>.\<close>

definition unwrap_or_panic :: "'a option \<Rightarrow> ('e, 'a) result" where
  "unwrap_or_panic m = (case m of None \<Rightarrow> Inl Panic | Some x \<Rightarrow> Inr x)"

section \<open>ServerHello\<close>

definition server_key_share :: "bytes \<Rightarrow> bytes option \<Rightarrow> (tls13_error, bytes option) result" where
  "server_key_share data share =
     rbind (rd_u16 Truncated_13 (reader_new data)) (\<lambda>(group, ks).
     rbind (rd_u16 Truncated_13 ks) (\<lambda>(klen, ks).
     rbind (rd_take Truncated_13 (unat klen) ks) (\<lambda>(key, ks).
       Inr (if group = GROUP_X25519_13 \<and> unat klen = 32 then Some key else share))))"

function server_extensions ::
    "nat \<Rightarrow> nat \<Rightarrow> reader \<Rightarrow> bytes option \<Rightarrow> (tls13_error, bytes option \<times> reader) result" where
  "server_extensions ext_total read sh share =
     (if read < ext_total then
        rbind (rd_u16 Truncated_13 sh) (\<lambda>(t, sh).
        rbind (rd_u16 Truncated_13 sh) (\<lambda>(l, sh).
        rbind (rd_take Truncated_13 (unat l) sh) (\<lambda>(data, sh).
        rbind (if t = EXT_KEY_SHARE_13 then server_key_share data share else Inr share) (\<lambda>share.
          server_extensions ext_total (read + (4 + unat l)) sh share))))
      else Inr (share, sh))"
  by pat_completeness auto
termination
  by (relation "measure (\<lambda>(l, n, _, _). l - n)") auto

declare server_extensions.simps [simp del]

definition record_body :: "tls13_error \<Rightarrow> byte \<Rightarrow> bytes \<Rightarrow> (tls13_error, bytes) result" where
  "record_body e ty wire =
     (if length wire < 5 \<or> wire ! 0 \<noteq> ty then Inl (Err e)
      else let rec_len = unat (from_be16 (wire ! 3) (wire ! 4))
           in if length wire < 5 + rec_len then Inl (Err Truncated_13) else slice 5 (5 + rec_len) wire)"

text \<open>The ServerHello up to the negotiated suite, the key share and the handshake message.\<close>

definition parse_server_hello :: "bytes \<Rightarrow> (tls13_error, cipher_suite \<times> bytes option \<times> bytes) result" where
  "parse_server_hello wire =
     rbind (record_body BadRecord CONTENT_HANDSHAKE_13 wire) (\<lambda>body.
       if body = [] \<or> body ! 0 \<noteq> HS_SERVER_HELLO then Inl (Err BadHandshake)
       else rbind (slice 4 (length body) body) (\<lambda>hello.
         rbind (rd_take Truncated_13 2 (reader_new hello)) (\<lambda>(_, sh).
         rbind (rd_take Truncated_13 32 sh) (\<lambda>(_, sh).
         rbind (rd_u8 Truncated_13 sh) (\<lambda>(sid_len, sh).
         rbind (rd_take Truncated_13 (unat sid_len) sh) (\<lambda>(_, sh).
         rbind (rd_u16 Truncated_13 sh) (\<lambda>(negotiated, sh).
         rbind (ok_or BadCipherSuite (from_u16 negotiated)) (\<lambda>suite.
         rbind (rd_u8 Truncated_13 sh) (\<lambda>(_, sh).
         rbind (rd_u16 Truncated_13 sh) (\<lambda>(ext_total, sh).
         rbind (server_extensions (unat ext_total) 0 sh None) (\<lambda>(share, sh).
           Inr (suite, share, body))))))))))))"

definition process_server_hello :: "tls_crypto \<Rightarrow> bytes \<Rightarrow> bytes act" where
  "process_server_hello c wire =
     abind (act (\<lambda>_. parse_server_hello wire)) (\<lambda>(suite, share, body).
     abind (act (\<lambda>st. ok_or BadHandshake (t_client_hello st))) (\<lambda>hello.
     abind (act (\<lambda>_. if length hello < 5 then Inl (Err BadHandshake) else Inr (drop 5 hello))) (\<lambda>hello_hs.
     let transcript = transcript_update body (transcript_update hello_hs (transcript_new suite));
         h = suite_hash suite
     in abind (modify (\<lambda>st. st\<lparr>t_transcript := Some transcript, t_suite := Some suite,
            early_secret := Some (hkdf_extract c h (replicate (hash_len h) 0) (replicate (hash_len h) 0))\<rparr>)) (\<lambda>_.
        act (\<lambda>_. ok_or NoKeyShare_13 share)))))"

section \<open>Handshake keys\<close>

definition install :: "tls_crypto \<Rightarrow> cipher_suite \<Rightarrow> bytes \<Rightarrow> (tls13_error, keyed) result" where
  "install c suite secret =
     rbind (key_iv_from_secret c suite secret) (\<lambda>(key, iv).
     rbind (cipher_from_key suite key) (\<lambda>rc. Inr (rc, iv, 0)))"

definition derive_handshake_keys :: "tls_crypto \<Rightarrow> bytes \<Rightarrow> unit act" where
  "derive_handshake_keys c shared_secret =
     abind (act (\<lambda>st. ok_or BadHandshake (t_suite st))) (\<lambda>suite.
     let h = suite_hash suite in
     abind (act (\<lambda>st. unwrap_or_panic (early_secret st))) (\<lambda>early.
     abind (act (\<lambda>_. derive_secret c h early ''derived'' (empty_hash c h))) (\<lambda>derived.
     let hs = hkdf_extract c h derived shared_secret in
     abind (modify (\<lambda>st. st\<lparr>handshake_secret := Some hs\<rparr>)) (\<lambda>_.
     abind (act (\<lambda>_. derive_secret c h hs ''derived'' (empty_hash c h))) (\<lambda>derived2.
     abind (modify (\<lambda>st. st\<lparr>master_secret := Some (hkdf_extract c h derived2 (replicate (hash_len h) 0))\<rparr>)) (\<lambda>_.
     abind (act (\<lambda>st. unwrap_or_panic (t_transcript st))) (\<lambda>tr.
     abind (act (\<lambda>_. derive_secret c h hs ''s hs traffic'' (hash_of c tr))) (\<lambda>s.
     abind (act (\<lambda>_. derive_secret c h hs ''c hs traffic'' (hash_of c tr))) (\<lambda>cl.
     abind (modify (\<lambda>st. st\<lparr>shts := Some s, chts := Some cl\<rparr>)) (\<lambda>_.
     abind (act (\<lambda>_. install c suite s)) (\<lambda>k.
     abind (modify (\<lambda>st. st\<lparr>hs_read := Some k\<rparr>)) (\<lambda>_.
     abind (act (\<lambda>_. install c suite cl)) (\<lambda>k.
       modify (\<lambda>st. st\<lparr>hs_write := Some k\<rparr>))))))))))))))"

section \<open>Records\<close>

text \<open>Opening with a keyed direction: the sequence number advances before the AEAD is asked.\<close>

definition next_nonce :: "keyed \<Rightarrow> (tls13_error, bytes \<times> keyed) result" where
  "next_nonce k = (case k of (rc, iv, seq) \<Rightarrow>
     rbind (record_nonce iv seq) (\<lambda>nonce. if seq = -1 then Inl Panic else Inr (nonce, (rc, iv, seq + 1))))"

definition open_hs_record :: "tls_crypto \<Rightarrow> bytes \<Rightarrow> (byte \<times> bytes) act" where
  "open_hs_record c wire =
     abind (act (\<lambda>_. record_body BadRecord CONTENT_APPDATA wire)) (\<lambda>inner.
     abind (act (\<lambda>st. ok_or BadRecord (hs_read st))) (\<lambda>k.
     abind (act (\<lambda>_. next_nonce k)) (\<lambda>(nonce, k').
     abind (modify (\<lambda>st. st\<lparr>hs_read := Some k'\<rparr>)) (\<lambda>_.
     abind (act (\<lambda>_. cipher_open c (fst k) nonce inner (take 5 wire))) (\<lambda>plain.
       act (\<lambda>_. strip_inner_padding plain))))))"

definition open_record_13 :: "tls_crypto \<Rightarrow> bytes \<Rightarrow> (byte \<times> bytes) act" where
  "open_record_13 c wire =
     abind (act (\<lambda>_. record_body UnexpectedRecord CONTENT_APPDATA wire)) (\<lambda>inner.
     abind (act (\<lambda>st. ok_or UnexpectedRecord (app_read st))) (\<lambda>k.
     abind (act (\<lambda>_. next_nonce k)) (\<lambda>(nonce, k').
     abind (modify (\<lambda>st. st\<lparr>app_read := Some k'\<rparr>)) (\<lambda>_.
     abind (act (\<lambda>_. cipher_open c (fst k) nonce inner (take 5 wire))) (\<lambda>plain.
       act (\<lambda>_. strip_inner_padding plain))))))"

definition open_app_record :: "tls_crypto \<Rightarrow> bytes \<Rightarrow> bytes act" where
  "open_app_record c wire =
     abind (open_record_13 c wire) (\<lambda>(ct, payload).
       act (\<lambda>_. if ct \<noteq> CONTENT_APPDATA then Inl (Err UnexpectedRecord) else Inr payload))"

definition record_header :: "nat \<Rightarrow> bytes" where
  "record_header inner_len = [CONTENT_APPDATA, 0x03, 0x03] @ to_be16 (word_of_nat inner_len)"

definition seal_app_record :: "tls_crypto \<Rightarrow> bytes \<Rightarrow> bytes act" where
  "seal_app_record c data =
     (let header = record_header (length data + 1 + TAG_LEN_13);
          inner = data @ [CONTENT_APPDATA]
      in abind (act (\<lambda>st. ok_or UnexpectedRecord (app_write st))) (\<lambda>k.
         abind (act (\<lambda>_. next_nonce k)) (\<lambda>(nonce, k').
         abind (modify (\<lambda>st. st\<lparr>app_write := Some k'\<rparr>)) (\<lambda>_.
         abind (act (\<lambda>_. cipher_seal c (fst k) nonce inner header)) (\<lambda>sealed.
           act (\<lambda>_. Inr (header @ sealed)))))))"

definition client_finished_record :: "tls_crypto \<Rightarrow> bytes act" where
  "client_finished_record c =
     abind (act (\<lambda>st. ok_or BadHandshake (t_suite st))) (\<lambda>suite.
     let h = suite_hash suite in
     abind (act (\<lambda>st. ok_or BadHandshake (chts st))) (\<lambda>secret.
     abind (act (\<lambda>_. finished_key c h secret)) (\<lambda>fk.
     abind (act (\<lambda>st. unwrap_or_panic (t_transcript st))) (\<lambda>tr.
     let verify = hmac_hash c h fk (hash_of c tr);
         msg = [HS_FINISHED, 0, 0, word_of_nat (length verify)] @ verify
     in abind (modify (\<lambda>st. st\<lparr>t_transcript := Some (transcript_update msg tr)\<rparr>)) (\<lambda>_.
        let header = record_header (length msg + 1 + TAG_LEN_13);
            inner = msg @ [CONTENT_HANDSHAKE_13]
        in abind (act (\<lambda>st. ok_or BadHandshake (hs_write st))) (\<lambda>k.
           abind (act (\<lambda>_. next_nonce k)) (\<lambda>(nonce, k').
           abind (modify (\<lambda>st. st\<lparr>hs_write := Some k'\<rparr>)) (\<lambda>_.
           abind (act (\<lambda>_. cipher_seal c (fst k) nonce inner header)) (\<lambda>sealed.
             act (\<lambda>_. Inr (header @ sealed)))))))))))"

section \<open>Specification\<close>

text \<open>A ServerHello by its fields.\<close>

datatype server_ext = KeyShareExt u16 bytes | OtherExt u16 bytes

record server_hello =
  sh_version :: bytes
  sh_random :: bytes
  sh_sid :: bytes
  sh_suite :: u16
  sh_comp :: byte
  sh_exts :: "server_ext list"

fun server_ext_type :: "server_ext \<Rightarrow> u16" where
  "server_ext_type (KeyShareExt _ _) = EXT_KEY_SHARE_13"
| "server_ext_type (OtherExt t _) = t"

fun server_ext_body :: "server_ext \<Rightarrow> bytes" where
  "server_ext_body (KeyShareExt g k) = to_be16 g @ to_be16 (word_of_nat (length k)) @ k"
| "server_ext_body (OtherExt _ d) = d"

definition server_ext_wire :: "server_ext \<Rightarrow> bytes" where
  "server_ext_wire x = to_be16 (server_ext_type x) @ to_be16 (word_of_nat (length (server_ext_body x))) @ server_ext_body x"

fun server_ext_ok :: "server_ext \<Rightarrow> bool" where
  "server_ext_ok (KeyShareExt g k) \<longleftrightarrow> length k + 4 < 65536"
| "server_ext_ok (OtherExt t d) \<longleftrightarrow> t \<noteq> EXT_KEY_SHARE_13 \<and> length d < 65536"

fun server_ext_upd :: "server_ext \<Rightarrow> bytes option \<Rightarrow> bytes option" where
  "server_ext_upd (KeyShareExt g k) share = (if g = GROUP_X25519_13 \<and> length k = 32 then Some k else share)"
| "server_ext_upd (OtherExt _ _) share = share"

definition server_hello_body :: "server_hello \<Rightarrow> bytes" where
  "server_hello_body s = sh_version s @ sh_random s @ word_of_nat (length (sh_sid s)) # sh_sid s @
     to_be16 (sh_suite s) @ sh_comp s # to_be16 (word_of_nat (length (concat (map server_ext_wire (sh_exts s))))) @
     concat (map server_ext_wire (sh_exts s))"

definition message_wire :: "byte \<times> bytes \<Rightarrow> bytes" where
  "message_wire m = fst m # be_bytes 3 (length (snd m)) @ snd m"

definition server_hello_wire :: "server_hello \<Rightarrow> bytes" where
  "server_hello_wire s = (let msg = message_wire (HS_SERVER_HELLO, server_hello_body s)
     in [0x16, 0x03, 0x03] @ to_be16 (word_of_nat (length msg)) @ msg)"

definition server_hello_ok :: "server_hello \<Rightarrow> bool" where
  "server_hello_ok s \<longleftrightarrow> length (sh_version s) = 2 \<and> length (sh_random s) = 32 \<and> length (sh_sid s) < 256 \<and>
     list_all server_ext_ok (sh_exts s) \<and> length (server_hello_body s) + 4 < 65536"

text \<open>A record whose handshake message is a ServerHello cut before the end of its four-byte header.\<close>

definition short_server_hello :: "bytes \<Rightarrow> bool" where
  "short_server_hello wire \<longleftrightarrow> (\<exists>body. record_body BadRecord CONTENT_HANDSHAKE_13 wire = Inr body \<and>
     body \<noteq> [] \<and> body ! 0 = HS_SERVER_HELLO \<and> length body < 4)"

text \<open>Application records as the two ends of a stream.\<close>

definition send_record :: "tls_crypto \<Rightarrow> tls13_client \<Rightarrow> bytes \<Rightarrow> bytes \<times> tls13_client" where
  "send_record c st data = (case seal_app_record c data st of (Inr wire, st) \<Rightarrow> (wire, st) | (Inl _, st) \<Rightarrow> ([], st))"

definition recv_record :: "tls_crypto \<Rightarrow> tls13_client \<Rightarrow> bytes \<Rightarrow> (tls13_error, bytes) result \<times> tls13_client" where
  "recv_record c st wire = open_app_record c wire st"

definition record_synced :: "tls_crypto \<Rightarrow> tls13_client \<Rightarrow> tls13_client \<Rightarrow> bool" where
  "record_synced c w r \<longleftrightarrow> tls_crypto_ok c \<and> app_write w = app_read r \<and> (\<exists>rc iv seq. app_write w = Some (rc, iv, seq) \<and> length iv = 12)"

definition record_ok :: "tls13_client \<Rightarrow> bytes \<Rightarrow> bool" where
  "record_ok w data \<longleftrightarrow> length data + 17 < 65536 \<and> (\<forall>rc iv. app_write w \<noteq> Some (rc, iv, -1))"

definition demo_server_hello :: server_hello where
  "demo_server_hello = \<lparr>sh_version = [3, 3], sh_random = replicate 32 1, sh_sid = [5, 6], sh_suite = 0x1302, sh_comp = 0,
     sh_exts = [OtherExt 43 [3, 4], KeyShareExt 0x001d (replicate 32 7)]\<rparr>"

section \<open>Lemmas\<close>

lemma abind_simps [simp]:
  "abind (act f) g st = (case f st of Inl e \<Rightarrow> (Inl e, st) | Inr x \<Rightarrow> g x st)"
  "abind (modify u) k st = k () (u st)"
  "act f st = (f st, st)" "modify u st = (Inr (), u st)"
  by (simp_all add: abind_def act_def modify_def split: sum.splits)

lemma unwrap_or_panic_simps [simp]: "unwrap_or_panic None = Inl Panic" "unwrap_or_panic (Some x) = Inr x"
  by (simp_all add: unwrap_or_panic_def)

lemma install_ok [simp]: "tls_crypto_ok c \<Longrightarrow> install c suite secret = Inr (cipher_of c suite secret, iv_of c suite secret, 0)"
  by (simp add: install_def)

lemma record_body_wire:
  assumes "unat w = length body"
  shows "record_body e ty (ty # a # b # to_be16 w @ body @ rest) = Inr body"
proof -
  have "from_be16 (word_of_nat (length body div 256)) (ucast w) = w"
    using from_be16_to_be16 [of w] assms by simp
  then show ?thesis
    using assms by (simp add: record_body_def to_be16_conv slice_def del: unat_from_be16)
qed

lemma server_key_share_wire:
  "server_ext_ok (KeyShareExt g k) \<Longrightarrow>
     server_key_share (server_ext_body (KeyShareExt g k)) share = Inr (server_ext_upd (KeyShareExt g k) share)"
  by (simp add: server_key_share_def reader_new_at)

lemma server_extensions_stop: "tot \<le> n \<Longrightarrow> server_extensions tot n r s = Inr (s, r)"
  by (simp add: server_extensions.simps)

lemma server_extensions_step:
  assumes "server_ext_ok x" "n + length (server_ext_wire x) \<le> tot"
  shows "server_extensions tot n (rd_at pre (server_ext_wire x @ rest)) s =
    server_extensions tot (n + length (server_ext_wire x)) (rd_at (pre @ server_ext_wire x) rest) (server_ext_upd x s)"
proof -
  have "length (server_ext_body x) < 65536"
    using assms(1) by (cases x) simp_all
  moreover have "(if server_ext_type x = EXT_KEY_SHARE_13 then server_key_share (server_ext_body x) s else Inr s) =
      Inr (server_ext_upd x s)"
    using assms(1) server_key_share_wire by (cases x) auto
  moreover have eq: "n + length (server_ext_wire x) = n + (4 + length (server_ext_body x))"
    by (simp add: server_ext_wire_def)
  moreover have "n < tot"
    using assms(2) by (simp add: server_ext_wire_def)
  ultimately show ?thesis
    unfolding eq by (subst server_extensions.simps) (simp add: server_ext_wire_def)
qed

interpretation server_exts: item_loop server_extensions server_ext_wire server_ext_upd server_ext_ok
  by unfold_locales (simp_all add: server_extensions_stop server_extensions_step)

lemma parse_server_hello_wire:
  assumes "server_hello_ok s" "from_u16 (sh_suite s) = Some suite"
  shows "parse_server_hello (server_hello_wire s) =
    Inr (suite, fold server_ext_upd (sh_exts s) None, message_wire (HS_SERVER_HELLO, server_hello_body s))"
proof -
  let ?msg = "message_wire (HS_SERVER_HELLO, server_hello_body s)"
  let ?x = "concat (map server_ext_wire (sh_exts s))"
  have len: "length ?msg = length (server_hello_body s) + 4" "length ?msg < 65536"
    using assms(1) by (simp_all add: message_wire_def server_hello_ok_def)
  have x: "length ?x < 65536"
    using assms(1) by (simp add: server_hello_ok_def server_hello_body_def del: length_concat)
  have body: "record_body BadRecord CONTENT_HANDSHAKE_13 (server_hello_wire s) = Inr ?msg"
    using len(2) record_body_wire [of "word_of_nat (length ?msg)" ?msg BadRecord "0x16" 3 3 "[]"]
    by (simp add: server_hello_wire_def Let_def CONTENT_HANDSHAKE_13_def)
  have hello: "slice 4 (length ?msg) ?msg = Inr (server_hello_body s)"
    using len(1) by (simp add: message_wire_def slice_def be_bytes_numeral)
  have "server_extensions (length ?x) 0 (rd_at pre (?x @ [])) None =
      Inr (fold server_ext_upd (sh_exts s) None, rd_at (pre @ ?x) [])" for pre
    using assms(1) by (intro server_exts.run) (simp_all add: server_hello_ok_def list_all_iff)
  moreover have "reader_new (server_hello_body s) = rd_at [] (sh_version s @ sh_random s @ word_of_nat (length (sh_sid s)) #
      sh_sid s @ to_be16 (sh_suite s) @ sh_comp s # to_be16 (word_of_nat (length ?x)) @ ?x)"
    by (simp add: reader_new_at server_hello_body_def)
  moreover have "?msg \<noteq> []" "?msg ! 0 = HS_SERVER_HELLO"
    by (simp_all add: message_wire_def)
  ultimately show ?thesis
    using body assms x by (simp add: parse_server_hello_def server_hello_ok_def hello del: length_concat)
qed

text \<open>Safety of the ServerHello parser, for handshake messages with a whole header.\<close>

lemma safe_server_key_share: "safe (server_key_share data share) (\<lambda>_. True)"
  unfolding server_key_share_def by (intro safe_intros) simp_all

lemma safe_server_extensions: "reader_ok r \<Longrightarrow> safe (server_extensions tot n r share) (\<lambda>_. True)"
proof (induction tot n r share rule: server_extensions.induct)
  case (1 tot n sh share)
  show ?case
  proof (cases "n < tot")
    case True
    with 1 show ?thesis
      by (subst server_extensions.simps)
         (auto intro!: safe_bind_u16 safe_bind_take
           safe_rbind [where P = "\<lambda>_. True" and m = "if _ then _ else _"] safe_if safe_server_key_share)
  qed (simp add: server_extensions_stop)
qed

lemma safe_record_body: "safe (record_body e ty wire) (\<lambda>body. length body + 5 \<le> length wire)"
  by (simp add: record_body_def slice_def Let_def)

lemma parse_server_hello_panics: "parse_server_hello wire = Inl Panic \<longleftrightarrow> short_server_hello wire"
proof
  assume panic: "parse_server_hello wire = Inl Panic"
  show "short_server_hello wire"
  proof (rule ccontr)
    assume short: "\<not> short_server_hello wire"
    have "safe (parse_server_hello wire) (\<lambda>_. True)"
      unfolding parse_server_hello_def
      by (rule safe_rbind [OF safe_record_body])
         (use short in \<open>auto simp: short_server_hello_def intro!: safe_if safe_rbind [OF safe_slice] safe_bind_take safe_bind_u8
           safe_bind_u16 safe_rbind [OF safe_ok_or] safe_rbind [OF safe_server_extensions]\<close>)
    with panic show False
      by (simp add: safe_not_Panic)
  qed
next
  assume "short_server_hello wire"
  then show "parse_server_hello wire = Inl Panic"
    by (auto simp: short_server_hello_def parse_server_hello_def slice_def)
qed

section \<open>Application records\<close>

lemma seal_app_record_ok:
  assumes "tls_crypto_ok c" "app_write st = Some (rc, iv, seq)" "length iv = 12" "seq \<noteq> -1" "length data + 1 < 2 ^ 32"
  obtains n ct where "record_nonce iv seq = Inr n" "length n = 12" "length ct = length data + 17"
    "seal_app_record c data st = (Inr (record_header (length data + 17) @ ct), st\<lparr>app_write := Some (rc, iv, seq + 1)\<rparr>)"
    "cipher_open c rc n ct (record_header (length data + 17)) = Inr (data @ [CONTENT_APPDATA])"
proof -
  obtain n where n: "record_nonce iv seq = Inr n" "length n = 12"
    using record_nonce_ok [OF assms(3)] by blast
  have "length (data @ [CONTENT_APPDATA]) < 2 ^ 32"
    using assms(5) by simp
  from seal_open [OF assms(1) n(2) this, of rc "record_header (length data + 17)"] obtain ct where ct:
    "cipher_seal c rc n (data @ [CONTENT_APPDATA]) (record_header (length data + 17)) = Inr ct"
    "length ct = length (data @ [CONTENT_APPDATA]) + 16"
    "cipher_open c rc n ct (record_header (length data + 17)) = Inr (data @ [CONTENT_APPDATA])"
    by blast
  have "length data + 1 + TAG_LEN_13 = length data + 17"
    by (simp add: TAG_LEN_13_def)
  then have "seal_app_record c data st = (Inr (record_header (length data + 17) @ ct), st\<lparr>app_write := Some (rc, iv, seq + 1)\<rparr>)"
    using n ct(1) assms(2,4) by (simp only: seal_app_record_def Let_def) (simp add: next_nonce_def)
  moreover have "length ct = length data + 17"
    using ct(2) by simp
  ultimately show ?thesis
    using that [OF n] ct(3) by blast
qed

lemma length_record_header [simp]: "length (record_header n) = 5"
  by (simp add: record_header_def)

lemma record_body_header:
  "n < 65536 \<Longrightarrow> length body = n \<Longrightarrow> record_body e CONTENT_APPDATA (record_header n @ body @ rest) = Inr body"
  using record_body_wire [of "word_of_nat n" body e CONTENT_APPDATA 3 3 rest] by (simp add: record_header_def)

lemma record_step:
  assumes "record_synced c w r" "record_ok w data"
  shows "\<exists>r'. recv_record c r (fst (send_record c w data)) = (Inr data, r') \<and> record_synced c (snd (send_record c w data)) r'"
proof -
  obtain rc iv seq where k: "app_write w = Some (rc, iv, seq)" "app_read r = Some (rc, iv, seq)" "length iv = 12"
    using assms(1) unfolding record_synced_def by metis
  have c: "tls_crypto_ok c"
    using assms(1) by (simp add: record_synced_def)
  have ok: "seq \<noteq> -1" "length data + 17 < 65536"
    using assms(2) k(1) by (auto simp: record_ok_def)
  then have "length data + 1 < 2 ^ 32"
    by simp
  from seal_app_record_ok [OF c k(1,3) ok(1) this] obtain n ct where s: "record_nonce iv seq = Inr n"
    "length ct = length data + 17"
    "seal_app_record c data w = (Inr (record_header (length data + 17) @ ct), w\<lparr>app_write := Some (rc, iv, seq + 1)\<rparr>)"
    "cipher_open c rc n ct (record_header (length data + 17)) = Inr (data @ [CONTENT_APPDATA])"
    by metis
  have "record_body UnexpectedRecord CONTENT_APPDATA (record_header (length data + 17) @ ct) = Inr ct"
    using record_body_header [OF ok(2) s(2), of UnexpectedRecord "[]"] by simp
  moreover have "strip_inner_padding (data @ [CONTENT_APPDATA]) = Inr (CONTENT_APPDATA, data)"
    using strip_padded [of CONTENT_APPDATA data 0] by (simp add: CONTENT_APPDATA_def)
  ultimately have "open_app_record c (record_header (length data + 17) @ ct) r =
      (Inr data, r\<lparr>app_read := Some (rc, iv, seq + 1)\<rparr>)"
    using k s ok by (simp add: open_app_record_def open_record_13_def abind_def [of "abind _ _"] next_nonce_def)
  with s(3) k c show ?thesis
    by (simp add: send_record_def recv_record_def record_synced_def)
qed

interpretation records: paired_stream "send_record c" "recv_record c" "\<lambda>_ data. data" "record_synced c" record_ok
  by unfold_locales (rule record_step)

lemma send_record_advances:
  assumes "record_synced c w r" "record_ok w data" "app_write w = Some (rc, iv, seq)"
  shows "app_write (snd (send_record c w data)) = Some (rc, iv, seq + 1)"
proof -
  have "tls_crypto_ok c" "length iv = 12" "seq \<noteq> -1" "length data + 1 < 2 ^ 32"
    using assms by (auto simp: record_synced_def record_ok_def) metis
  from seal_app_record_ok [OF this(1) assms(3) this(2-4)] obtain ct where
    "seal_app_record c data w = (Inr (record_header (length data + 17) @ ct), w\<lparr>app_write := Some (rc, iv, seq + 1)\<rparr>)"
    by blast
  then show ?thesis
    by (simp add: send_record_def)
qed

lemma records_all_ok:
  "record_synced c w r \<Longrightarrow> app_write w = Some (rc, iv, seq) \<Longrightarrow> \<forall>m \<in> set ms. length m + 17 < 65536 \<Longrightarrow>
     unat seq + length ms < 2 ^ 64 \<Longrightarrow> all_ok (send_record c) record_ok w ms"
proof (induction ms arbitrary: w r seq)
  case (Cons m ms)
  have room: "seq \<noteq> -1" "unat (seq + 1) + length ms < 2 ^ 64"
    using u64_room [of seq "length ms"] Cons.prems(4) by simp_all
  then have ok: "record_ok w m"
    using Cons.prems(2,3) by (auto simp: record_ok_def)
  moreover obtain r' where "record_synced c (snd (send_record c w m)) r'"
    using record_step [OF Cons.prems(1) ok] by blast
  ultimately show ?case
    using Cons.IH [OF _ send_record_advances [OF Cons.prems(1) ok Cons.prems(2)]] Cons.prems(3) room(2) by simp
qed simp

section \<open>Properties\<close>

text \<open>A ServerHello is read as its fields: for every session id, compression byte, set of extensions and
  key share entries, the client takes the last x25519 share of 32 bytes (or reports that there is
  none), fixes the suite, and starts the transcript with its own hello without the record
  header followed by the ServerHello message.\<close>

theorem server_hello_read:
  assumes "server_hello_ok s" "from_u16 (sh_suite s) = Some suite" "t_client_hello st = Some hello" "5 \<le> length hello"
  shows "\<exists>st'. process_server_hello c (server_hello_wire s) st =
      (ok_or NoKeyShare_13 (fold server_ext_upd (sh_exts s) None), st') \<and> t_suite st' = Some suite \<and>
    t_transcript st' = Some \<lparr>tr_alg = suite_hash suite,
      tr_data = drop 5 hello @ message_wire (HS_SERVER_HELLO, server_hello_body s)\<rparr>"
  using assms by (simp add: process_server_hello_def parse_server_hello_wire transcript_update_def transcript_new_def Let_def)

theorem server_hello_read_witness:
  "\<exists>st'. process_server_hello demo_tls (server_hello_wire demo_server_hello) (set_client_hello [22, 3, 1, 0, 1, 1] tls13_new) =
      (Inr (replicate 32 7), st') \<and> t_suite st' = Some Aes256GcmSha384"
proof -
  have "server_hello_ok demo_server_hello"
    by (simp add: server_hello_ok_def demo_server_hello_def server_hello_body_def server_ext_wire_def proto_defs)
  moreover have "from_u16 (sh_suite demo_server_hello) = Some Aes256GcmSha384"
    by (simp add: demo_server_hello_def from_u16_def)
  moreover have "fold server_ext_upd (sh_exts demo_server_hello) None = Some (replicate 32 7)"
    by (simp add: demo_server_hello_def GROUP_X25519_13_def)
  ultimately show ?thesis
    using server_hello_read [of demo_server_hello Aes256GcmSha384 "set_client_hello [22, 3, 1, 0, 1, 1] tls13_new" "[22, 3, 1, 0, 1, 1]" demo_tls]
    by (auto simp: set_client_hello_def)
qed

text \<open>C37. A truncated ServerHello crashes the client: \<open>process_server_hello\<close> panics on exactly the records
  whose handshake message starts like a ServerHello but is shorter than its four-byte header;
  every other input, however malformed, gives a result or an error.\<close>

theorem short_server_hello_panics:
  "(fst (process_server_hello c wire st) = Inl Panic \<longleftrightarrow> short_server_hello wire) \<and>
   short_server_hello [0x16, 0x03, 0x03, 0, 1, 0x02]"
proof -
  have "fst (process_server_hello c wire st) = Inl Panic \<longleftrightarrow> parse_server_hello wire = Inl Panic"
    by (auto simp: process_server_hello_def Let_def split: sum.splits)
  moreover have "short_server_hello [0x16, 0x03, 0x03, 0, 1, 0x02]"
    by (simp add: short_server_hello_def record_body_def slice_def proto_defs)
  ultimately show ?thesis
    by (simp add: parse_server_hello_panics)
qed

text \<open>C31. Application records arrive: between two ends that hold the same key, IV and sequence
  number, every sequence of payloads (each below 64 KiB with its overhead, fewer than the
  sequence numbers left) sealed by one end is opened by the other as exactly that sequence.\<close>

theorem app_record_stream:
  assumes "tls_crypto_ok c" "app_write w = Some (rc, iv, seq)" "app_read r = Some (rc, iv, seq)" "length iv = 12"
    "\<forall>m \<in> set ms. length m + 17 < 65536" "unat seq + length ms < 2 ^ 64"
  shows "recv_all (recv_record c) r (send_all (send_record c) w ms) = map Inr ms"
proof -
  have sync: "record_synced c w r"
    using assms by (simp add: record_synced_def)
  from records.run [OF sync records_all_ok [OF sync assms(2,5,6)]] show ?thesis
    by (simp add: content_all_const [of _ "\<lambda>m. m"])
qed

theorem app_record_stream_witness:
  "recv_all (recv_record demo_tls) (tls13_new\<lparr>app_read := Some (ChaCha [1], replicate 12 0, 7)\<rparr>)
     (send_all (send_record demo_tls) (tls13_new\<lparr>app_write := Some (ChaCha [1], replicate 12 0, 7)\<rparr>) [[1, 2], [], [3]]) =
   [Inr [1, 2], Inr [], Inr [3]]"
  using app_record_stream [OF demo_tls_ok, of "tls13_new\<lparr>app_write := Some (ChaCha [1], replicate 12 0, 7)\<rparr>" "ChaCha [1]"
      "replicate 12 0" 7 "tls13_new\<lparr>app_read := Some (ChaCha [1], replicate 12 0, 7)\<rparr>" "[[1, 2], [], [3]]"]
  by simp

text \<open>The length field of a sealed application record is only 16 bits of the length: it announces the
  record's own length exactly for payloads of at most 65518 bytes; a longer one is sealed without
  an error into a record whose header announces a shorter one.\<close>

theorem app_record_length_field:
  assumes "tls_crypto_ok c" "app_write st = Some (rc, iv, seq)" "length iv = 12" "seq \<noteq> -1" "length data + 1 < 2 ^ 32"
  shows "\<exists>wire st'. seal_app_record c data st = (Inr wire, st') \<and> length wire = 5 + (length data + 17) \<and>
    be_val (take 2 (drop 3 wire)) = (length data + 17) mod 65536 \<and>
    (be_val (take 2 (drop 3 wire)) = length wire - 5 \<longleftrightarrow> length data \<le> 65518)"
proof -
  obtain n ct where "length ct = length data + 17"
    "seal_app_record c data st = (Inr (record_header (length data + 17) @ ct), st\<lparr>app_write := Some (rc, iv, seq + 1)\<rparr>)"
    using seal_app_record_ok [OF assms] by metis
  moreover have "be_val (take 2 (drop 3 (record_header (length data + 17) @ ct))) = (length data + 17) mod 65536"
    by (simp add: record_header_def to_be16_def unat_of_nat del: of_nat_add)
  moreover have "(length data + 17) mod 65536 = length data + 17 \<longleftrightarrow> length data \<le> 65518"
    using mod_less_divisor [of 65536 "length data + 17"] by (auto simp del: mod_less_divisor)
  ultimately show ?thesis
    by (simp add: add.commute)
qed

theorem app_record_length_field_witness:
  "\<exists>wire st'. seal_app_record demo_tls (replicate 65519 0) (tls13_new\<lparr>app_write := Some (ChaCha [1], replicate 12 0, 7)\<rparr>) =
     (Inr wire, st') \<and> length wire = 65541 \<and> be_val (take 2 (drop 3 wire)) = 0"
  using app_record_length_field [OF demo_tls_ok, of "tls13_new\<lparr>app_write := Some (ChaCha [1], replicate 12 0, 7)\<rparr>"
      "ChaCha [1]" "replicate 12 0" 7 "replicate 65519 0"] by auto

end
