(* ===== verification/Flight.thy ===== *)
theory Flight
  imports Tls13
begin

text \<open>
  \<open>native/src/tls13.rs\<close>, \<open>process_server_flight\<close>: the encrypted flight of EncryptedExtensions,
  Certificate, CertificateVerify and Finished, cut into records in any way.  The loop is
  \<open>flight_step\<close> on a record of its local variables, repeated until the server's Finished; the
  loop's termination proof is that every step consumes input.
\<close>

section \<open>The server flight\<close>

definition message_len :: "bytes \<Rightarrow> nat" where
  "message_len buf = or (or (push_bit 16 (unat (buf ! 1))) (push_bit 8 (unat (buf ! 2)))) (unat (buf ! 3))"

definition take_message :: "tls_crypto \<Rightarrow> bytes \<Rightarrow> ((byte \<times> bytes \<times> bytes) option \<times> bytes) act" where
  "take_message c buf =
     (if length buf < 4 then act (\<lambda>_. Inr (None, buf))
      else let len = message_len buf in
        if length buf < 4 + len then act (\<lambda>_. Inr (None, buf))
        else abind (act (\<lambda>st. unwrap_or_panic (t_transcript st))) (\<lambda>tr.
          abind (act (\<lambda>_. slice 4 (4 + len) buf)) (\<lambda>body.
          abind (modify (\<lambda>st. st\<lparr>t_transcript := Some (transcript_update (take (4 + len) buf) tr)\<rparr>)) (\<lambda>_.
            act (\<lambda>_. Inr (Some (buf ! 0, body, hash_of c tr), drop (4 + len) buf))))))"

text \<open>The local variables of \<open>process_server_flight\<close>, with the client.\<close>

record flight =
  fl_client :: tls13_client
  fl_pending :: bytes
  fl_rest :: bytes
  fl_chain :: "bytes list"
  fl_cv :: "(u16 \<times> bytes \<times> bytes) option"
  fl_finished :: bool

definition flight_read :: "tls_crypto \<Rightarrow> flight \<Rightarrow> (tls13_error, unit) result \<times> flight" where
  "flight_read c fl =
     (if fl_rest fl = [] \<or> length (fl_rest fl) < 5 then (Inl (Err Truncated_13), fl)
      else let rec_len = unat (from_be16 (fl_rest fl ! 3) (fl_rest fl ! 4)) in
        if length (fl_rest fl) < 5 + rec_len then (Inl (Err Truncated_13), fl)
        else let rec = take (5 + rec_len) (fl_rest fl);
                 rest = drop (5 + rec_len) (fl_rest fl)
          in if rec ! 0 = 0x14 then (Inr (), fl\<lparr>fl_rest := rest\<rparr>)
             else case open_hs_record c rec (fl_client fl) of
               (Inl e, st) \<Rightarrow> (Inl e, fl\<lparr>fl_client := st\<rparr>)
             | (Inr (ct, payload), st) \<Rightarrow>
                 if ct \<noteq> CONTENT_HANDSHAKE_13 then (Inl (Err UnexpectedRecord), fl\<lparr>fl_client := st\<rparr>)
                 else (Inr (), fl\<lparr>fl_client := st, fl_pending := fl_pending fl @ payload, fl_rest := rest\<rparr>))"

text \<open>What a server signs, and the CertificateVerify message with it.\<close>

definition to_be_signed :: "bytes \<Rightarrow> bytes" where
  "to_be_signed th = replicate 64 0x20 @ ascii ''TLS 1.3, server CertificateVerify'' @ [0] @ th"

definition certificate_verify :: "bytes \<Rightarrow> bytes \<Rightarrow> (tls13_error, u16 \<times> bytes \<times> bytes) result" where
  "certificate_verify body th =
     (if length body < 4 then Inl (Err BadHandshake)
      else let scheme = from_be16 (body ! 0) (body ! 1);
               sig_len = unat (from_be16 (body ! 2) (body ! 3))
        in if length body < 4 + sig_len then Inl (Err BadHandshake)
           else rbind (slice 4 (4 + sig_len) body) (\<lambda>sig. Inr (scheme, sig, to_be_signed th)))"

definition check_finished :: "tls_crypto \<Rightarrow> hash_alg \<Rightarrow> bytes option \<Rightarrow> bytes \<Rightarrow> bytes \<Rightarrow> (tls13_error, unit) result" where
  "check_finished c h secret body th =
     rbind (ok_or BadHandshake secret) (\<lambda>secret.
     rbind (finished_key c h secret) (\<lambda>fk.
       if body \<noteq> hmac_hash c h fk th then Inl (Err FinishedMismatch) else Inr ()))"

definition flight_handle ::
    "tls_crypto \<Rightarrow> hash_alg \<Rightarrow> byte \<times> bytes \<times> bytes \<Rightarrow> flight \<Rightarrow> (tls13_error, unit) result \<times> flight" where
  "flight_handle c h m fl =
     (case m of (mtype, body, th) \<Rightarrow>
        if mtype = HS_ENCRYPTED_EXTENSIONS then (Inr (), fl)
        else if mtype = HS_CERTIFICATE then
          (case parse_certificate_entry_bodies body of Inl e \<Rightarrow> (Inl e, fl) | Inr chain \<Rightarrow> (Inr (), fl\<lparr>fl_chain := chain\<rparr>))
        else if mtype = HS_CERTIFICATE_VERIFY then
          (case certificate_verify body th of Inl e \<Rightarrow> (Inl e, fl) | Inr cv \<Rightarrow> (Inr (), fl\<lparr>fl_cv := Some cv\<rparr>))
        else if mtype = HS_FINISHED then
          (case check_finished c h (shts (fl_client fl)) body th of
             Inl e \<Rightarrow> (Inl e, fl) | Inr _ \<Rightarrow> (Inr (), fl\<lparr>fl_finished := True\<rparr>))
        else (Inr (), fl))"

definition flight_message :: "tls_crypto \<Rightarrow> hash_alg \<Rightarrow> flight \<Rightarrow> (tls13_error, unit) result \<times> flight" where
  "flight_message c h fl =
     (case take_message c (fl_pending fl) (fl_client fl) of
        (Inl e, st) \<Rightarrow> (Inl e, fl\<lparr>fl_client := st\<rparr>)
      | (Inr (None, buf), st) \<Rightarrow> (Inr (), fl\<lparr>fl_client := st, fl_pending := buf\<rparr>)
      | (Inr (Some m, buf), st) \<Rightarrow> flight_handle c h m (fl\<lparr>fl_client := st, fl_pending := buf\<rparr>))"

definition needs_record :: "bytes \<Rightarrow> bool" where
  "needs_record pending \<longleftrightarrow> length pending < 4 \<or> length pending < 4 + message_len pending"

definition flight_step :: "tls_crypto \<Rightarrow> hash_alg \<Rightarrow> flight \<Rightarrow> (tls13_error, unit) result \<times> flight" where
  "flight_step c h fl = (if needs_record (fl_pending fl) then flight_read c fl else flight_message c h fl)"

lemma flight_handle_simps [simp]:
  "fl_pending (snd (flight_handle c h m fl)) = fl_pending fl" "fl_rest (snd (flight_handle c h m fl)) = fl_rest fl"
  "fl_client (snd (flight_handle c h m fl)) = fl_client fl"
  by (auto simp: flight_handle_def split: prod.splits sum.splits)

text \<open>Every step that does not fail consumes input.\<close>

lemma flight_step_consumes_input:
  assumes "flight_step c h fl = (Inr u, fl')"
  shows "length (fl_rest fl') < length (fl_rest fl) \<or>
    fl_rest fl' = fl_rest fl \<and> length (fl_pending fl') < length (fl_pending fl)"
proof (cases "needs_record (fl_pending fl)")
  case True
  then show ?thesis
    using assms by (auto simp: flight_step_def flight_read_def Let_def split: if_splits prod.splits sum.splits)
next
  case False
  then have len: "4 \<le> length (fl_pending fl)" "4 + message_len (fl_pending fl) \<le> length (fl_pending fl)"
    by (simp_all add: needs_record_def)
  have "flight_message c h fl = (Inr u, fl')"
    using assms False by (simp add: flight_step_def)
  then obtain m st where "flight_handle c h m (fl\<lparr>fl_client := st,
      fl_pending := drop (4 + message_len (fl_pending fl)) (fl_pending fl)\<rparr>) = (Inr u, fl')"
    using len by (auto simp: flight_message_def take_message_def abind_def act_def modify_def Let_def unwrap_or_panic_def slice_def
        split: option.splits)
  then have "fl' = snd (flight_handle c h m (fl\<lparr>fl_client := st,
      fl_pending := drop (4 + message_len (fl_pending fl)) (fl_pending fl)\<rparr>))"
    by simp
  then show ?thesis
    using len by simp
qed

function flight_loop :: "tls_crypto \<Rightarrow> hash_alg \<Rightarrow> flight \<Rightarrow> (tls13_error, unit) result \<times> flight" where
  "flight_loop c h fl =
     (if fl_finished fl then (Inr (), fl)
      else case flight_step c h fl of (Inl e, fl') \<Rightarrow> (Inl e, fl') | (Inr _, fl') \<Rightarrow> flight_loop c h fl')"
  by pat_completeness auto
termination
proof (relation "measures [\<lambda>(c, h, fl). length (fl_rest fl), \<lambda>(c, h, fl). length (fl_pending fl)]", goal_cases)
  case (2 c h fl x y b)
  with flight_step_consumes_input [of c h fl b y] show ?case
    by auto
qed simp

declare flight_loop.simps [simp del]

definition flight_done :: "tls_crypto \<Rightarrow> cipher_suite \<Rightarrow> flight \<Rightarrow> tls13_outcome act" where
  "flight_done c suite fl =
     abind (act (\<lambda>_. ok_or BadHandshake (fl_cv fl))) (\<lambda>(scheme, sig, tbs).
     abind (act (\<lambda>_. ok_or BadHandshake (get 0 (fl_chain fl)))) (\<lambda>leaf.
     abind (act (\<lambda>_. verify_certificate_verify c scheme leaf sig tbs)) (\<lambda>_.
     abind (act (\<lambda>st. unwrap_or_panic (t_transcript st))) (\<lambda>tr.
     abind (act (\<lambda>st. ok_or BadHandshake (master_secret st))) (\<lambda>master.
     abind (act (\<lambda>_. derive_secret c (suite_hash suite) master ''c ap traffic'' (hash_of c tr))) (\<lambda>cl.
     abind (act (\<lambda>_. derive_secret c (suite_hash suite) master ''s ap traffic'' (hash_of c tr))) (\<lambda>s.
     abind (modify (\<lambda>st. st\<lparr>cets := Some cl, sets := Some s\<rparr>)) (\<lambda>_.
     abind (act (\<lambda>_. key_iv_from_secret c suite cl)) (\<lambda>(ckey, civ).
     abind (act (\<lambda>_. key_iv_from_secret c suite s)) (\<lambda>(skey, siv).
     abind (act (\<lambda>_. cipher_from_key suite ckey)) (\<lambda>rc.
     abind (modify (\<lambda>st. st\<lparr>app_write := Some (rc, civ, 0)\<rparr>)) (\<lambda>_.
     abind (act (\<lambda>_. cipher_from_key suite skey)) (\<lambda>rc.
     abind (modify (\<lambda>st. st\<lparr>app_read := Some (rc, siv, 0)\<rparr>)) (\<lambda>_.
       act (\<lambda>_. Inr \<lparr>to_suite = suite, to_server_chain = fl_chain fl, server_app_secret = s, client_app_secret = cl\<rparr>)))))))))))))))"

definition flight_start :: "bytes \<Rightarrow> tls13_client \<Rightarrow> flight" where
  "flight_start records st = \<lparr>fl_client = st, fl_pending = [], fl_rest = records, fl_chain = [], fl_cv = None, fl_finished = False\<rparr>"

definition process_server_flight :: "tls_crypto \<Rightarrow> bytes \<Rightarrow> tls13_outcome act" where
  "process_server_flight c records st =
     (case t_suite st of
        None \<Rightarrow> (Inl (Err BadHandshake), st)
      | Some suite \<Rightarrow>
          (case flight_loop c (suite_hash suite) (flight_start records st) of
             (Inl e, fl) \<Rightarrow> (Inl e, fl_client fl)
           | (Inr _, fl) \<Rightarrow> flight_done c suite fl (fl_client fl)))"

section \<open>Specification\<close>

text \<open>The flight at the level of messages: what the loop does to the client and its variables, without
  records.  \<open>core\<close> forgets how far the records have been read.\<close>

definition core :: "flight \<Rightarrow> flight" where
  "core fl = fl\<lparr>fl_client := (fl_client fl)\<lparr>hs_read := None\<rparr>, fl_pending := [], fl_rest := []\<rparr>"

definition feed :: "tls_crypto \<Rightarrow> hash_alg \<Rightarrow> byte \<times> bytes \<Rightarrow> flight \<Rightarrow> (tls13_error, unit) result \<times> flight" where
  "feed c h m fl =
     (case t_transcript (fl_client fl) of
        None \<Rightarrow> (Inl Panic, fl)
      | Some tr \<Rightarrow> flight_handle c h (fst m, snd m, hash_of c tr)
          (fl\<lparr>fl_client := (fl_client fl)\<lparr>t_transcript := Some (transcript_update (message_wire m) tr)\<rparr>\<rparr>))"

fun run_messages :: "tls_crypto \<Rightarrow> hash_alg \<Rightarrow> (byte \<times> bytes) list \<Rightarrow> flight \<Rightarrow> (tls13_error, unit) result \<times> flight" where
  "run_messages c h [] fl = (if fl_finished fl then (Inr (), fl) else (Inl (Err Truncated_13), fl))"
| "run_messages c h (m # ms) fl =
     (if fl_finished fl then (Inr (), fl)
      else case feed c h m fl of (Inl e, fl) \<Rightarrow> (Inl e, fl) | (Inr _, fl) \<Rightarrow> run_messages c h ms fl)"

definition reference_flight :: "tls_crypto \<Rightarrow> (byte \<times> bytes) list \<Rightarrow> tls13_outcome act" where
  "reference_flight c ms st =
     (case t_suite st of
        None \<Rightarrow> (Inl (Err BadHandshake), st)
      | Some suite \<Rightarrow>
          (case run_messages c (suite_hash suite) ms (flight_start [] st) of
             (Inl e, fl) \<Rightarrow> (Inl e, fl_client fl)
           | (Inr _, fl) \<Rightarrow> flight_done c suite fl (fl_client fl)))"

text \<open>The records a server may cut the messages into: change-cipher-spec records anywhere, and
  encrypted ones with any share of the message bytes and any padding.\<close>

datatype flight_record = Ccs bytes | Enc bytes nat

definition inner_of :: "bytes \<Rightarrow> nat \<Rightarrow> bytes" where
  "inner_of chunk pad = chunk @ CONTENT_HANDSHAKE_13 # replicate pad 0"

definition hs_record :: "tls_crypto \<Rightarrow> keyed \<Rightarrow> bytes \<Rightarrow> nat \<Rightarrow> bytes" where
  "hs_record c k chunk pad =
     (let header = record_header (length (inner_of chunk pad) + 16)
      in header @ (case rbind (record_nonce (fst (snd k)) (snd (snd k))) (\<lambda>n. cipher_seal c (fst k) n (inner_of chunk pad) header) of
           Inr ct \<Rightarrow> ct | Inl _ \<Rightarrow> []))"

fun records_wire :: "tls_crypto \<Rightarrow> keyed \<Rightarrow> flight_record list \<Rightarrow> bytes" where
  "records_wire c k [] = []"
| "records_wire c k (Ccs b # rs) = 0x14 # 0x03 # 0x03 # to_be16 (word_of_nat (length b)) @ b @ records_wire c k rs"
| "records_wire c k (Enc b pad # rs) =
     hs_record c k b pad @ records_wire c (case k of (rc, iv, seq) \<Rightarrow> (rc, iv, seq + 1)) rs"

fun chunks :: "flight_record list \<Rightarrow> bytes" where
  "chunks [] = []"
| "chunks (Ccs b # rs) = chunks rs"
| "chunks (Enc b pad # rs) = b @ chunks rs"

fun flight_record_ok :: "flight_record \<Rightarrow> bool" where
  "flight_record_ok (Ccs b) \<longleftrightarrow> length b < 65536"
| "flight_record_ok (Enc b pad) \<longleftrightarrow> length b + 1 + pad + 16 < 65536"

text \<open>The flight of an honest server.\<close>

definition certificate_verify_wire :: "u16 \<Rightarrow> bytes \<Rightarrow> bytes" where
  "certificate_verify_wire scheme sig = to_be16 scheme @ to_be16 (word_of_nat (length sig)) @ sig"

definition honest_prefix :: "bytes \<Rightarrow> bytes \<Rightarrow> (bytes \<times> bytes) list \<Rightarrow> u16 \<Rightarrow> bytes \<Rightarrow> (byte \<times> bytes) list" where
  "honest_prefix ee ctx es scheme sig = [(HS_ENCRYPTED_EXTENSIONS, ee), (HS_CERTIFICATE, certificate_wire ctx es),
     (HS_CERTIFICATE_VERIFY, certificate_verify_wire scheme sig)]"

definition honest_finished :: "tls_crypto \<Rightarrow> hash_alg \<Rightarrow> bytes \<Rightarrow> bytes \<Rightarrow> byte \<times> bytes" where
  "honest_finished c h secret transcript =
     (HS_FINISHED, hmac c h (secret_of c h secret ''finished'' []) (digest c h transcript))"

definition honest_flight ::
    "tls_crypto \<Rightarrow> hash_alg \<Rightarrow> bytes \<Rightarrow> bytes \<Rightarrow> bytes \<Rightarrow> bytes \<Rightarrow> (bytes \<times> bytes) list \<Rightarrow> u16 \<Rightarrow> bytes \<Rightarrow> (byte \<times> bytes) list" where
  "honest_flight c h secret t0 ee ctx es scheme sig =
     (let ms = honest_prefix ee ctx es scheme sig
      in ms @ [honest_finished c h secret (t0 @ concat (map message_wire ms))])"

text \<open>What the server signs: the transcript through its Certificate message.\<close>

definition honest_signed :: "tls_crypto \<Rightarrow> hash_alg \<Rightarrow> bytes \<Rightarrow> bytes \<Rightarrow> bytes \<Rightarrow> (bytes \<times> bytes) list \<Rightarrow> bytes" where
  "honest_signed c h t0 ee ctx es = to_be_signed (digest c h (t0 @ message_wire (HS_ENCRYPTED_EXTENSIONS, ee) @
     message_wire (HS_CERTIFICATE, certificate_wire ctx es)))"

definition demo_tls13 :: tls13_client where
  "demo_tls13 = tls13_new\<lparr>t_suite := Some ChaCha20Poly1305Sha256, t_transcript := Some \<lparr>tr_alg = S256, tr_data = [1, 2]\<rparr>,
     shts := Some [5], master_secret := Some [6], hs_read := Some (ChaCha [9], replicate 12 0, 0)\<rparr>"

definition demo_flight :: "(byte \<times> bytes) list" where
  "demo_flight = honest_flight demo_tls S256 [5] [1, 2] [0, 0] [] [(x509_wire demo_x509, [])] 0x0804 [1]"

definition demo_records :: "flight_record list" where
  "demo_records = (let w = concat (map message_wire demo_flight) in [Ccs [1], Enc (take 100 w) 0, Enc (drop 100 w) 3])"

text \<open>The transcript of a flight in progress: it extends \<open>t0\<close>, what was signed is the hash of an
  extension of \<open>t0\<close> that it extends in turn, and once Finished has been accepted it ends with the Finished message of
  everything before.\<close>

definition authentic :: "tls_crypto \<Rightarrow> hash_alg \<Rightarrow> bytes \<Rightarrow> bytes option \<Rightarrow> flight \<Rightarrow> bool" where
  "authentic c h t0 s fl \<longleftrightarrow> shts (fl_client fl) = s \<and>
     (\<exists>t. t_transcript (fl_client fl) = Some \<lparr>tr_alg = h, tr_data = t0 @ t\<rparr> \<and>
        (\<forall>scheme sig tbs. fl_cv fl = Some (scheme, sig, tbs) \<longrightarrow>
           (\<exists>x y. t = x @ y \<and> tbs = to_be_signed (digest c h (t0 @ x)))) \<and>
        (fl_finished fl \<longrightarrow> (\<exists>secret x. s = Some secret \<and>
           t = x @ message_wire (honest_finished c h secret (t0 @ x)) \<and>
           (\<forall>scheme sig tbs. fl_cv fl = Some (scheme, sig, tbs) \<longrightarrow>
              (\<exists>u v. x = u @ v \<and> tbs = to_be_signed (digest c h (t0 @ u)))))))"

text \<open>A flight in front of which the records \<open>rs\<close> and, in pending bytes and records, the messages \<open>ms\<close>
  are still to be read.\<close>

definition flight_ahead ::
    "tls_crypto \<Rightarrow> record_cipher \<Rightarrow> bytes \<Rightarrow> u64 \<Rightarrow> flight_record list \<Rightarrow> (byte \<times> bytes) list \<Rightarrow> flight \<Rightarrow> bool" where
  "flight_ahead c rc iv seq rs ms fl \<longleftrightarrow>
     hs_read (fl_client fl) = Some (rc, iv, seq) \<and> fl_rest fl = records_wire c (rc, iv, seq) rs \<and>
     fl_pending fl @ chunks rs = concat (map message_wire ms) \<and> t_transcript (fl_client fl) \<noteq> None \<and>
     unat seq + length rs < 2 ^ 64 \<and> (\<forall>r \<in> set rs. flight_record_ok r) \<and> (\<forall>m \<in> set ms. length (snd m) < 2 ^ 24)"

section \<open>Reading records\<close>

lemma flight_read_header:
  assumes "fl_rest fl = ty # a # b # to_be16 w @ body @ rest" "unat w = length body"
  shows "flight_read c fl =
    (if ty = 0x14 then (Inr (), fl\<lparr>fl_rest := rest\<rparr>)
     else case open_hs_record c (ty # a # b # to_be16 w @ body) (fl_client fl) of
       (Inl e, st) \<Rightarrow> (Inl e, fl\<lparr>fl_client := st\<rparr>)
     | (Inr (ct, payload), st) \<Rightarrow>
         if ct \<noteq> CONTENT_HANDSHAKE_13 then (Inl (Err UnexpectedRecord), fl\<lparr>fl_client := st\<rparr>)
         else (Inr (), fl\<lparr>fl_client := st, fl_pending := fl_pending fl @ payload, fl_rest := rest\<rparr>))"
proof -
  let ?x = "ty # a # b # to_be16 w @ body"
  have rest: "fl_rest fl = ?x @ rest" "length ?x = 5 + length body" "fl_rest fl \<noteq> []"
    by (simp_all add: assms(1))
  then have "take (5 + length body) (fl_rest fl) = ?x" "drop (5 + length body) (fl_rest fl) = rest" "?x ! 0 = ty"
    "\<not> length (fl_rest fl) < 5 + length body" "\<not> length (fl_rest fl) < 5"
    by (simp_all only: append_eq_conv_conj [symmetric] nth_Cons_0 length_append) (metis append_eq_conv_conj)+
  moreover have "from_be16 (fl_rest fl ! 3) (fl_rest fl ! 4) = w"
    using from_be16_to_be16 [of w] by (simp add: assms(1) to_be16_conv)
  ultimately show ?thesis
    using assms(2) rest(3) by (simp add: flight_read_def Let_def del: unat_from_be16)
qed

lemma flight_read_ccs:
  "length b < 65536 \<Longrightarrow> fl_rest fl = records_wire c k (Ccs b # rs) \<Longrightarrow>
     flight_read c fl = (Inr (), fl\<lparr>fl_rest := records_wire c k rs\<rparr>)"
  using flight_read_header [of fl "0x14" 3 3 "word_of_nat (length b)" b "records_wire c k rs" c] by simp

lemma flight_read_enc:
  assumes "tls_crypto_ok c" "hs_read (fl_client fl) = Some (rc, iv, seq)" "length iv = 12" "seq \<noteq> -1"
    "length b + 1 + pad + 16 < 65536" "fl_rest fl = records_wire c (rc, iv, seq) (Enc b pad # rs)"
  shows "flight_read c fl = (Inr (), fl\<lparr>fl_client := (fl_client fl)\<lparr>hs_read := Some (rc, iv, seq + 1)\<rparr>,
    fl_pending := fl_pending fl @ b, fl_rest := records_wire c (rc, iv, seq + 1) rs\<rparr>)"
proof -
  let ?inner = "inner_of b pad"
  let ?h = "record_header (length ?inner + 16)"
  obtain n where n: "record_nonce iv seq = Inr n" "length n = 12"
    using record_nonce_ok [OF assms(3)] by blast
  have len: "length ?inner + 16 < 65536" "length ?inner < 2 ^ 32"
    using assms(5) by (simp_all add: inner_of_def)
  obtain ct where ct: "cipher_seal c rc n ?inner ?h = Inr ct" "length ct = length ?inner + 16" "cipher_open c rc n ct ?h = Inr ?inner"
    using seal_open [OF assms(1) n(2) len(2), of rc ?h] by blast
  have wire: "fl_rest fl = ?h @ ct @ records_wire c (rc, iv, seq + 1) rs"
    using assms(6) n ct by (simp add: hs_record_def)
  have "record_body BadRecord CONTENT_APPDATA (?h @ ct) = Inr ct"
    using record_body_header [OF len(1) ct(2), of BadRecord "[]"] by simp
  moreover have "strip_inner_padding ?inner = Inr (CONTENT_HANDSHAKE_13, b)"
    by (simp add: inner_of_def strip_padded CONTENT_HANDSHAKE_13_def)
  ultimately have "open_hs_record c (?h @ ct) (fl_client fl) =
      (Inr (CONTENT_HANDSHAKE_13, b), (fl_client fl)\<lparr>hs_read := Some (rc, iv, seq + 1)\<rparr>)"
    using assms(2,4) n ct by (simp add: open_hs_record_def next_nonce_def)
  moreover have "unat (word_of_nat (length ?inner + 16) :: u16) = length ct"
    using len(1) ct(2) by (simp del: of_nat_add)
  ultimately show ?thesis
    using flight_read_header [of fl CONTENT_APPDATA 3 3 "word_of_nat (length ?inner + 16)" ct "records_wire c (rc, iv, seq + 1) rs" c]
      wire
    by (simp add: record_header_def CONTENT_APPDATA_def)
qed

section \<open>Taking messages\<close>

lemma message_len_wire: "length (snd m) < 2 ^ 24 \<Longrightarrow> message_len (message_wire m @ rest) = length (snd m)"
proof -
  assume small: "length (snd m) < 2 ^ 24"
  obtain x y z where b: "be_bytes 3 (length (snd m)) = [x, y, z]"
    by (simp add: be_bytes_numeral)
  have "be_val [x, y, z] = length (snd m)"
    using be_val_be_bytes [of 3 "length (snd m)"] small unfolding b by simp
  then show ?thesis
    by (simp add: message_len_def message_wire_def b shift_or_24)
qed

lemma length_message_wire [simp]: "length (message_wire m) = 4 + length (snd m)"
  by (simp add: message_wire_def)

lemma needs_record_wire: "length (snd m) < 2 ^ 24 \<Longrightarrow> \<not> needs_record (message_wire m @ rest)"
  by (simp add: needs_record_def message_len_wire)

lemma message_len_take: "4 \<le> length p \<Longrightarrow> message_len (p @ q) = message_len p"
  by (simp add: message_len_def nth_append)

lemma whole_message:
  assumes "\<not> needs_record p" "p @ q = message_wire m @ r" "length (snd m) < 2 ^ 24"
  obtains p' where "p = message_wire m @ p'" "r = p' @ q"
proof -
  have "4 \<le> length p" "4 + message_len p \<le> length p"
    using assms(1) by (simp_all add: needs_record_def)
  moreover have "message_len p = length (snd m)"
    using message_len_take [of p q] message_len_wire [OF assms(3), of r] assms(2) calculation(1) by simp
  ultimately have "message_wire m = take (length (message_wire m)) p"
    using arg_cong [OF assms(2), of "take (length (message_wire m))"] by simp
  then have p: "p = message_wire m @ drop (length (message_wire m)) p"
    by (metis append_take_drop_id)
  moreover from this assms(2) have "r = drop (length (message_wire m)) p @ q"
    by (metis append_assoc same_append_eq)
  ultimately show ?thesis
    using that by blast
qed

lemma flight_message_wire:
  assumes "fl_pending fl = message_wire m @ p" "length (snd m) < 2 ^ 24" "t_transcript (fl_client fl) = Some tr"
  shows "flight_message c h fl = flight_handle c h (fst m, snd m, hash_of c tr)
    (fl\<lparr>fl_client := (fl_client fl)\<lparr>t_transcript := Some (transcript_update (message_wire m) tr)\<rparr>, fl_pending := p\<rparr>)"
proof -
  have "take_message c (message_wire m @ p) (fl_client fl) =
    (Inr (Some (fst m, snd m, hash_of c tr), p), (fl_client fl)\<lparr>t_transcript := Some (transcript_update (message_wire m) tr)\<rparr>)"
    using assms(3) message_len_wire [OF assms(2), of p]
    by (simp add: take_message_def slice_def Let_def) (simp add: message_wire_def be_bytes_numeral)
  then show ?thesis
    by (simp add: flight_message_def assms(1))
qed

lemma core_simps [simp]:
  "fl_finished (core fl) = fl_finished fl" "core (core fl) = core fl" "t_transcript (fl_client (core fl)) = t_transcript (fl_client fl)"
  "core (fl\<lparr>fl_rest := r\<rparr>) = core fl" "core (fl\<lparr>fl_client := (fl_client fl)\<lparr>hs_read := k\<rparr>, fl_pending := p\<rparr>) = core fl"
  by (simp_all add: core_def)

lemma core_handle: "flight_handle c h m (core fl) = map_prod id core (flight_handle c h m fl)"
  by (auto simp: flight_handle_def core_def split: prod.splits sum.splits)

lemma feed_core:
  assumes "t_transcript (fl_client fl) = Some tr"
  shows "feed c h m (core fl) = map_prod id core (flight_handle c h (fst m, snd m, hash_of c tr)
    (fl\<lparr>fl_client := (fl_client fl)\<lparr>t_transcript := Some (transcript_update (message_wire m) tr)\<rparr>, fl_pending := p\<rparr>))"
  using assms by (cases fl; cases "fl_client fl") (simp add: feed_def core_handle [symmetric], simp add: core_def)

lemma flight_loop_step:
  "\<not> fl_finished fl \<Longrightarrow> flight_loop c h fl =
     (case flight_step c h fl of (Inl e, fl') \<Rightarrow> (Inl e, fl') | (Inr _, fl') \<Rightarrow> flight_loop c h fl')"
  by (simp add: flight_loop.simps)

lemma flight_read_next:
  assumes "tls_crypto_ok c" "length iv = 12" "flight_ahead c rc iv seq (r # rs) ms fl"
  shows "\<exists>fl' seq'. flight_read c fl = (Inr (), fl') \<and> flight_ahead c rc iv seq' rs ms fl' \<and> core fl' = core fl"
proof (cases r)
  case (Ccs b)
  with assms(3) flight_read_ccs [of b fl c "(rc, iv, seq)" rs] show ?thesis
    by (intro exI [of _ "fl\<lparr>fl_rest := records_wire c (rc, iv, seq) rs\<rparr>"] exI [of _ seq]) (simp add: flight_ahead_def)
next
  case (Enc b pad)
  have "seq \<noteq> -1" "unat (seq + 1) + length rs < 2 ^ 64"
    using u64_room [of seq "length rs"] assms(3) by (simp_all add: flight_ahead_def)
  with Enc assms(3) flight_read_enc [OF assms(1) _ assms(2), of fl rc seq b pad rs] show ?thesis
    by (intro exI [of _ "fl\<lparr>fl_client := (fl_client fl)\<lparr>hs_read := Some (rc, iv, seq + 1)\<rparr>, fl_pending := fl_pending fl @ b,
        fl_rest := records_wire c (rc, iv, seq + 1) rs\<rparr>"] exI [of _ "seq + 1"]) (simp add: flight_ahead_def)
qed

lemma flight_message_next:
  assumes "\<not> needs_record (fl_pending fl)" "flight_ahead c rc iv seq rs (m # ms) fl"
  shows "\<exists>x fl'. flight_message c h fl = (x, fl') \<and> feed c h m (core fl) = (x, core fl') \<and> flight_ahead c rc iv seq rs ms fl'"
proof -
  have small: "length (snd m) < 2 ^ 24"
    using assms(2) by (simp add: flight_ahead_def)
  obtain p where p: "fl_pending fl = message_wire m @ p" "concat (map message_wire ms) = p @ chunks rs"
    using whole_message [OF assms(1), of "chunks rs" m "concat (map message_wire ms)"] assms(2) small
    by (auto simp: flight_ahead_def)
  obtain tr where tr: "t_transcript (fl_client fl) = Some tr"
    using assms(2) by (auto simp: flight_ahead_def)
  let ?in = "fl\<lparr>fl_client := (fl_client fl)\<lparr>t_transcript := Some (transcript_update (message_wire m) tr)\<rparr>, fl_pending := p\<rparr>"
  obtain x fl' where out: "flight_handle c h (fst m, snd m, hash_of c tr) ?in = (x, fl')"
    by fastforce
  from arg_cong [OF out, of snd] have "fl_client fl' = fl_client ?in" "fl_pending fl' = p" "fl_rest fl' = fl_rest fl"
    using flight_handle_simps [of c h "(fst m, snd m, hash_of c tr)" ?in] by simp_all
  moreover have "flight_message c h fl = (x, fl')" "feed c h m (core fl) = (x, core fl')"
    using flight_message_wire [OF p(1) small tr, of c h] feed_core [OF tr, of c h m p] out by simp_all
  ultimately show ?thesis
    using assms(2) p(2) by (simp add: flight_ahead_def)
qed

text \<open>A flight that needs another record and has none left has no message left either.\<close>

lemma flight_ahead_end:
  assumes "needs_record (fl_pending fl)" "flight_ahead c rc iv seq [] ms fl"
  shows "ms = [] \<and> flight_read c fl = (Inl (Err Truncated_13), fl)"
  using assms needs_record_wire by (cases ms) (auto simp: flight_ahead_def flight_read_def)

text \<open>The loop over records refines the loop over messages.\<close>

lemma flight_loop_messages:
  assumes "tls_crypto_ok c" "length iv = 12"
  shows "flight_ahead c rc iv seq rs ms fl \<Longrightarrow>
    map_prod id core (flight_loop c h fl) = map_prod id core (run_messages c h ms (core fl))"
proof (induction "length rs + length ms" arbitrary: fl rs ms seq rule: less_induct)
  case less
  consider (finished) "fl_finished fl" | (over) "\<not> fl_finished fl" "needs_record (fl_pending fl)" "rs = []"
    | (read) r rs' where "\<not> fl_finished fl" "needs_record (fl_pending fl)" "rs = r # rs'"
    | (message) "\<not> fl_finished fl" "\<not> needs_record (fl_pending fl)"
    by (cases rs) blast+
  then show ?case
  proof cases
    case finished
    then show ?thesis
      by (cases ms) (simp_all add: flight_loop.simps)
  next
    case over
    with flight_ahead_end [OF over(2), of c rc iv seq ms] less.prems show ?thesis
      by (simp add: flight_loop_step flight_step_def)
  next
    case (read r rs')
    then obtain fl' seq' where next_fl: "flight_read c fl = (Inr (), fl')" "flight_ahead c rc iv seq' rs' ms fl'" "core fl' = core fl"
      using flight_read_next [OF assms, of rc seq r rs' ms fl] less.prems by blast
    with less.hyps [OF _ next_fl(2)] read show ?thesis
      by (simp add: flight_loop_step flight_step_def)
  next
    case message
    obtain m ms' where ms: "ms = m # ms'"
      using message(2) less.prems by (cases ms) (auto simp: needs_record_def flight_ahead_def)
    then obtain x fl' where out: "flight_message c h fl = (x, fl')" "feed c h m (core fl) = (x, core fl')"
      "flight_ahead c rc iv seq rs ms' fl'"
      using flight_message_next [OF message(2), of c rc iv seq rs m ms' h] less.prems by blast
    with less.hyps [OF _ out(3)] message ms show ?thesis
      by (cases x) (simp_all add: flight_loop_step flight_step_def)
  qed
qed

lemma flight_done_core:
  "flight_done c suite (core fl) (st\<lparr>hs_read := k\<rparr>) =
     map_prod id (\<lambda>st. st\<lparr>hs_read := k\<rparr>) (flight_done c suite fl st)"
  by (simp add: flight_done_def core_def split: sum.splits prod.splits)

lemma feed_commutes: "feed c h m (core fl) = map_prod id core (feed c h m fl)"
proof (cases "t_transcript (fl_client fl)")
  case (Some tr)
  then show ?thesis
    using feed_core [of fl tr c h m "fl_pending fl"] by (simp add: feed_def)
qed (simp add: feed_def)

lemma run_messages_core: "map_prod id core (run_messages c h ms (core fl)) = map_prod id core (run_messages c h ms fl)"
proof (induction ms arbitrary: fl)
  case (Cons m ms)
  obtain x fl' where "feed c h m fl = (x, fl')"
    by fastforce
  with Cons show ?case
    by (cases x) (simp_all add: feed_commutes)
qed simp

lemma finish_core:
  assumes "map_prod id core (x, fl) = map_prod id core (y, fl')"
  shows "map_prod id (\<lambda>st. st\<lparr>hs_read := None\<rparr>) (case (x, fl) of (Inl e, fl) \<Rightarrow> (Inl e, fl_client fl) | (Inr _, fl) \<Rightarrow> flight_done c suite fl (fl_client fl)) =
    map_prod id (\<lambda>st. st\<lparr>hs_read := None\<rparr>) (case (y, fl') of (Inl e, fl) \<Rightarrow> (Inl e, fl_client fl) | (Inr _, fl) \<Rightarrow> flight_done c suite fl (fl_client fl))"
proof -
  have core: "core fl = core fl'" "x = y"
    using assms by simp_all
  from arg_cong [OF this(1), of fl_client] have client: "(fl_client fl)\<lparr>hs_read := None\<rparr> = (fl_client fl')\<lparr>hs_read := None\<rparr>"
    by (simp add: core_def)
  with core flight_done_core [where fl = fl and st = "fl_client fl" and k = None]
    flight_done_core [where fl = fl' and st = "fl_client fl'" and k = None]
  show ?thesis
    by (cases y) simp_all
qed

lemma flight_refines:
  assumes "tls_crypto_ok c" "hs_read st = Some (rc, iv, seq)" "length iv = 12" "t_transcript st \<noteq> None"
    "chunks rs = concat (map message_wire ms)" "unat seq + length rs < 2 ^ 64"
    "\<forall>r \<in> set rs. flight_record_ok r" "\<forall>m \<in> set ms. length (snd m) < 2 ^ 24"
  shows "map_prod id (\<lambda>st. st\<lparr>hs_read := None\<rparr>) (process_server_flight c (records_wire c (rc, iv, seq) rs) st) =
    map_prod id (\<lambda>st. st\<lparr>hs_read := None\<rparr>) (reference_flight c ms st)"
proof (cases "t_suite st")
  case None
  then show ?thesis
    by (simp add: process_server_flight_def reference_flight_def)
next
  case (Some suite)
  let ?h = "suite_hash suite" and ?fl = "flight_start (records_wire c (rc, iv, seq) rs) st"
  have "map_prod id core (flight_loop c ?h ?fl) = map_prod id core (run_messages c ?h ms (core ?fl))"
    using assms by (intro flight_loop_messages [OF assms(1,3), of rc seq rs]) (simp add: flight_ahead_def flight_start_def)
  also have "core ?fl = core (flight_start [] st)"
    by (simp add: core_def flight_start_def)
  finally have "map_prod id core (flight_loop c ?h ?fl) = map_prod id core (run_messages c ?h ms (flight_start [] st))"
    by (simp only: run_messages_core)
  then show ?thesis
    using finish_core [of "fst (flight_loop c ?h ?fl)" "snd (flight_loop c ?h ?fl)"
        "fst (run_messages c ?h ms (flight_start [] st))" "snd (run_messages c ?h ms (flight_start [] st))" c suite] Some
    by (simp add: process_server_flight_def reference_flight_def)
qed

lemma certificate_verify_read:
  assumes "length sig < 65536"
  shows "certificate_verify (certificate_verify_wire scheme sig) th = Inr (scheme, sig, to_be_signed th)"
proof -
  have "from_be16 (word_of_nat (length sig div 256)) (ucast (word_of_nat (length sig) :: u16)) = word_of_nat (length sig)"
    using from_be16_to_be16 [of "word_of_nat (length sig)"] assms by simp
  with assms show ?thesis
    by (simp add: certificate_verify_def certificate_verify_wire_def to_be16_conv slice_def del: unat_from_be16)
qed

lemma honest_run:
  fixes ee scheme
  assumes "tls_crypto_ok c" "t_transcript st = Some \<lparr>tr_alg = h, tr_data = t0\<rparr>" "shts st = Some secret"
    "length ctx < 256" "length (concat (map entry_wire es)) < 2 ^ 24" "\<forall>e \<in> set es. length (snd e) < 65536"
    "length sig < 65536"
  defines "ms \<equiv> honest_prefix ee ctx es scheme sig"
  defines "t1 \<equiv> t0 @ concat (map message_wire (take 2 ms))" and "t2 \<equiv> t0 @ concat (map message_wire ms)"
  shows "run_messages c h (ms @ [honest_finished c h secret t2]) (flight_start [] st) =
    (Inr (), \<lparr>fl_client = st\<lparr>t_transcript := Some \<lparr>tr_alg = h, tr_data = t2 @ message_wire (honest_finished c h secret t2)\<rparr>\<rparr>,
      fl_pending = [], fl_rest = [], fl_chain = map fst es, fl_cv = Some (scheme, sig, to_be_signed (digest c h t1)), fl_finished = True\<rparr>)"
proof -
  have "(HS_ENCRYPTED_EXTENSIONS :: byte) \<noteq> HS_CERTIFICATE" "HS_CERTIFICATE \<noteq> HS_ENCRYPTED_EXTENSIONS"
    "HS_CERTIFICATE_VERIFY \<notin> {HS_ENCRYPTED_EXTENSIONS, HS_CERTIFICATE}"
    "HS_FINISHED \<notin> {HS_ENCRYPTED_EXTENSIONS, HS_CERTIFICATE, HS_CERTIFICATE_VERIFY}"
    by (simp_all add: proto_defs)
  moreover have "parse_certificate_entry_bodies (certificate_wire ctx es) = Inr (map fst es)"
    by (rule certificate_list_read [OF assms(4-6)])
  ultimately show ?thesis
    using assms(1-3,7)
    by (simp add: ms_def t1_def t2_def honest_prefix_def honest_finished_def feed_def flight_start_def flight_handle_def
        transcript_update_def hash_of_def certificate_verify_read check_finished_def hmac_hash_def)
qed

lemma honest_reference:
  assumes "tls_crypto_ok c" "t_suite st = Some suite" "t_transcript st = Some \<lparr>tr_alg = suite_hash suite, tr_data = t0\<rparr>"
    "shts st = Some secret" "master_secret st = Some master" "length ctx < 256" "length (concat (map entry_wire es)) < 2 ^ 24"
    "\<forall>e \<in> set es. length (snd e) < 65536" "length sig < 65536" "es \<noteq> []"
    "verify_certificate_verify c scheme (fst (hd es)) sig (honest_signed c (suite_hash suite) t0 ee ctx es) = Inr ()"
  defines "ms \<equiv> honest_flight c (suite_hash suite) secret t0 ee ctx es scheme sig"
  defines "traffic \<equiv> \<lambda>label. secret_of c (suite_hash suite) master label (digest c (suite_hash suite) (t0 @ concat (map message_wire ms)))"
  shows "\<exists>st'. reference_flight c ms st = (Inr \<lparr>to_suite = suite, to_server_chain = map fst es,
      server_app_secret = traffic ''s ap traffic'', client_app_secret = traffic ''c ap traffic''\<rparr>, st') \<and>
    app_read st' = Some (cipher_of c suite (traffic ''s ap traffic''), iv_of c suite (traffic ''s ap traffic''), 0) \<and>
    app_write st' = Some (cipher_of c suite (traffic ''c ap traffic''), iv_of c suite (traffic ''c ap traffic''), 0)"
proof -
  let ?h = "suite_hash suite" and ?p = "honest_prefix ee ctx es scheme sig"
  let ?t2 = "t0 @ concat (map message_wire ?p)"
  have ms: "ms = ?p @ [honest_finished c ?h secret ?t2]"
    by (simp add: ms_def honest_flight_def Let_def)
  have "to_be_signed (digest c ?h (t0 @ concat (map message_wire (take 2 ?p)))) = honest_signed c ?h t0 ee ctx es"
    by (simp add: honest_signed_def honest_prefix_def)
  with honest_run [OF assms(1,3,4,6-9), of ee scheme]
  have "run_messages c ?h ms (flight_start [] st) =
    (Inr (), \<lparr>fl_client = st\<lparr>t_transcript := Some \<lparr>tr_alg = ?h, tr_data = t0 @ concat (map message_wire ms)\<rparr>\<rparr>,
      fl_pending = [], fl_rest = [], fl_chain = map fst es, fl_cv = Some (scheme, sig, honest_signed c ?h t0 ee ctx es), fl_finished = True\<rparr>)"
    by (simp add: ms)
  moreover have "get 0 (map fst es) = Some (fst (hd es))"
    using assms(10) by (cases es) (simp_all add: get_def)
  ultimately show ?thesis
    using assms(1,2,5,11)
    by (simp add: reference_flight_def flight_done_def hash_of_def traffic_def)
qed

lemma demo_flight_bounds:
  "length (certificate_wire [] [(x509_wire demo_x509, [])]) < 2 ^ 24" "length (concat (map message_wire demo_flight)) < 1000"
  by (simp_all add: certificate_wire_def entry_wire_def x509_wire_def x509_tbs_def x509_spki_def demo_x509_def der_def der_len_def
      RSA_OID_def demo_flight_def honest_flight_def honest_prefix_def honest_finished_def certificate_verify_wire_def
      demo_tls_def Let_def)

lemma demo_tls13_facts:
  "t_suite demo_tls13 = Some ChaCha20Poly1305Sha256"
  "t_transcript demo_tls13 = Some \<lparr>tr_alg = suite_hash ChaCha20Poly1305Sha256, tr_data = [1, 2]\<rparr>"
  "shts demo_tls13 = Some [5]" "master_secret demo_tls13 = Some [6]"
  "hs_read demo_tls13 = Some (ChaCha [9], replicate 12 0, 0)" "length (replicate 12 (0 :: byte)) = 12"
  by (simp_all add: demo_tls13_def)

lemma demo_records_ok: "\<forall>r \<in> set demo_records. flight_record_ok r" "chunks demo_records = concat (map message_wire demo_flight)"
  using demo_flight_bounds(2) by (auto simp: demo_records_def Let_def simp del: length_concat)

section \<open>Authenticity\<close>

lemma open_hs_record_client: "open_hs_record c wire st = (x, st') \<Longrightarrow> \<exists>k. st' = st\<lparr>hs_read := k\<rparr>"
  by (cases st) (auto simp: open_hs_record_def split: sum.splits prod.splits)

lemma pending_message:
  assumes "\<not> needs_record p"
  obtains m q where "p = message_wire m @ q" "length (snd m) < 2 ^ 24"
proof -
  obtain t x y z r where p: "p = t # x # y # z # r"
    using assms by (auto simp: needs_record_def not_less Suc_le_length_iff numeral_eq_Suc)
  have len: "message_len p = be_val [x, y, z]"
    by (simp add: p message_len_def shift_or_24)
  moreover have "be_val [x, y, z] < 2 ^ 24"
    using be_val_bound [of "[x, y, z]"] by simp
  moreover have "message_len p \<le> length r"
    using assms by (simp add: needs_record_def p)
  moreover have "be_bytes 3 (be_val [x, y, z]) = [x, y, z]"
    by (rule be_bytes_be_val) simp
  ultimately show ?thesis
    using that [of "(t, take (message_len p) r)" "drop (message_len p) r"] by (simp add: p message_wire_def)
qed

lemma authentic_client:
  "fl_client fl' = (fl_client fl)\<lparr>hs_read := k\<rparr> \<Longrightarrow> fl_cv fl' = fl_cv fl \<Longrightarrow> fl_finished fl' = fl_finished fl \<Longrightarrow>
     authentic c h t0 s fl \<Longrightarrow> authentic c h t0 s fl'"
  by (simp add: authentic_def)

lemma authentic_read:
  assumes "flight_read c fl = (x, fl')" "authentic c h t0 s fl"
  shows "authentic c h t0 s fl' \<and> fl_finished fl' = fl_finished fl \<and> (\<exists>k. fl_client fl' = (fl_client fl)\<lparr>hs_read := k\<rparr>)"
proof -
  have "(\<exists>k. fl_client fl' = (fl_client fl)\<lparr>hs_read := k\<rparr>) \<and> fl_cv fl' = fl_cv fl \<and> fl_finished fl' = fl_finished fl"
    using assms(1) open_hs_record_client [of c _ "fl_client fl"]
    by (cases "fl_client fl") (auto simp: flight_read_def Let_def split: if_splits prod.splits sum.splits)
  with authentic_client assms(2) show ?thesis
    by metis
qed

text \<open>One message: the Finished is checked against the transcript before it.\<close>

lemma authentic_handle:
  assumes "tls_crypto_ok c" "flight_handle c h (fst m, snd m, digest c h (t0 @ t)) fl = (Inr u, fl')"
    "t_transcript (fl_client fl) = Some \<lparr>tr_alg = h, tr_data = t0 @ t @ message_wire m\<rparr>" "\<not> fl_finished fl"
    "shts (fl_client fl) = s"
    "\<forall>scheme sig tbs. fl_cv fl = Some (scheme, sig, tbs) \<longrightarrow> (\<exists>x y. t = x @ y \<and> tbs = to_be_signed (digest c h (t0 @ x)))"
  shows "authentic c h t0 s fl'"
proof -
  have old: "\<exists>x y. t @ message_wire m = x @ y \<and> tbs = to_be_signed (digest c h (t0 @ x))"
    if "fl_cv fl = Some (scheme, sig, tbs)" for scheme sig tbs
    using assms(6) that by (metis append_assoc)
  consider (same) "fl_client fl' = fl_client fl" "fl_cv fl' = fl_cv fl" "\<not> fl_finished fl'"
    | (cv) scheme sig where "fl_client fl' = fl_client fl" "fl_cv fl' = Some (scheme, sig, to_be_signed (digest c h (t0 @ t)))"
        "\<not> fl_finished fl'"
    | (fin) secret where "fl_client fl' = fl_client fl" "fl_cv fl' = fl_cv fl" "shts (fl_client fl) = Some secret"
        "m = honest_finished c h secret (t0 @ t)"
    using assms(1,2,4)
    by (cases m) (auto simp: flight_handle_def certificate_verify_def check_finished_def honest_finished_def hmac_hash_def Let_def
        rbind_eq_Inr split: if_splits sum.splits option.splits)
  then show ?thesis
  proof cases
    case same
    then show ?thesis
      using assms(3,5) old by (auto simp: authentic_def)
  next
    case cv
    then show ?thesis
      using assms(3,5) by (auto simp: authentic_def)
  next
    case fin
    then show ?thesis
      using assms(3,5,6) old by (auto simp: authentic_def)
  qed
qed

lemma authentic_step:
  assumes "tls_crypto_ok c" "flight_step c h fl = (Inr u, fl')" "authentic c h t0 s fl" "\<not> fl_finished fl"
  shows "authentic c h t0 s fl'"
proof (cases "needs_record (fl_pending fl)")
  case True
  with assms authentic_read show ?thesis
    by (auto simp: flight_step_def)
next
  case False
  obtain m q where m: "fl_pending fl = message_wire m @ q" "length (snd m) < 2 ^ 24"
    using pending_message [OF False] by blast
  obtain t where t: "shts (fl_client fl) = s" "t_transcript (fl_client fl) = Some \<lparr>tr_alg = h, tr_data = t0 @ t\<rparr>"
    "\<forall>scheme sig tbs. fl_cv fl = Some (scheme, sig, tbs) \<longrightarrow> (\<exists>x y. t = x @ y \<and> tbs = to_be_signed (digest c h (t0 @ x)))"
    using assms(3) by (auto simp: authentic_def)
  have "flight_handle c h (fst m, snd m, digest c h (t0 @ t))
    (fl\<lparr>fl_client := (fl_client fl)\<lparr>t_transcript := Some \<lparr>tr_alg = h, tr_data = t0 @ t @ message_wire m\<rparr>\<rparr>, fl_pending := q\<rparr>) = (Inr u, fl')"
    using assms(2) False flight_message_wire [OF m t(2), of c h]
    by (simp add: flight_step_def hash_of_def transcript_update_def)
  from authentic_handle [OF assms(1) this] t(1,3) assms(4) show ?thesis
    by simp
qed

lemma authentic_loop:
  "flight_loop c h fl = (Inr u, fl') \<Longrightarrow> tls_crypto_ok c \<Longrightarrow> authentic c h t0 s fl \<Longrightarrow> authentic c h t0 s fl' \<and> fl_finished fl'"
proof (induction c h fl rule: flight_loop.induct)
  case (1 c h fl)
  show ?case
  proof (cases "fl_finished fl")
    case True
    with 1 show ?thesis
      by (auto simp: flight_loop.simps)
  next
    case False
    obtain x fl1 where step: "flight_step c h fl = (x, fl1)"
      by fastforce
    with False 1(2) obtain v where x: "x = Inr v" "flight_loop c h fl1 = (Inr u, fl')"
      by (cases x) (simp_all add: flight_loop_step)
    with 1(1) [OF False step [symmetric] x(1) x(2)] authentic_step [OF 1(3) _ 1(4) False] step 1(3) show ?thesis
      by simp
  qed
qed

lemma demo_flight_accepted:
  "\<exists>out st'. process_server_flight demo_tls (records_wire demo_tls (ChaCha [9], replicate 12 0, 0) demo_records) demo_tls13 = (Inr out, st')"
proof -
  let ?es = "[(x509_wire demo_x509, [])]"
  have "length (concat (map entry_wire ?es)) < 2 ^ 24"
    using demo_flight_bounds(1) by (simp add: certificate_wire_def)
  from honest_reference [OF demo_tls_ok demo_tls13_facts(1-4) _ this, where ee = "[0, 0]" and ctx = "[]" and sig = "[1]" and scheme = "0x0804"]
  obtain out ref where ref: "reference_flight demo_tls demo_flight demo_tls13 = (Inr out, ref)"
    by (auto simp: demo_x509_verifies demo_flight_def)
  have "\<forall>m \<in> set demo_flight. length (snd m) < 2 ^ 24"
  proof
    fix m assume "m \<in> set demo_flight"
    with length_concat_member [OF this, of message_wire] demo_flight_bounds(2) show "length (snd m) < 2 ^ 24"
      by simp
  qed
  from flight_refines [OF demo_tls_ok demo_tls13_facts(5,6) _ demo_records_ok(2) _ demo_records_ok(1) this] ref show ?thesis
    by (cases "process_server_flight demo_tls (records_wire demo_tls (ChaCha [9], replicate 12 0, 0) demo_records) demo_tls13")
       (auto simp: demo_tls13_facts(2) demo_records_def Let_def)
qed

section \<open>Properties\<close>

text \<open>C16. The way a flight is cut into records does not matter: whatever records the server uses
  (change-cipher-spec records in between, any share of the message bytes per record, any
  padding), the result, the client state apart from the read sequence number, and every error
  are those of a reference that handles the handshake messages one after the other.\<close>

theorem flight_fragmentation:
  assumes "tls_crypto_ok c" "hs_read st = Some (rc, iv, seq)" "length iv = 12" "t_transcript st \<noteq> None"
    "chunks rs = concat (map message_wire ms)" "unat seq + length rs < 2 ^ 64"
    "\<forall>r \<in> set rs. flight_record_ok r" "\<forall>m \<in> set ms. length (snd m) < 2 ^ 24"
  shows "map_prod id (\<lambda>st. st\<lparr>hs_read := None\<rparr>) (process_server_flight c (records_wire c (rc, iv, seq) rs) st) =
    map_prod id (\<lambda>st. st\<lparr>hs_read := None\<rparr>) (reference_flight c ms st)"
  by (rule flight_refines [OF assms])

theorem flight_fragmentation_witness:
  "map_prod id (\<lambda>st. st\<lparr>hs_read := None\<rparr>) (process_server_flight demo_tls
      (records_wire demo_tls (ChaCha [9], replicate 12 0, 0) [Enc [8, 0] 2, Ccs [1], Enc [0, 1, 7] 0]) demo_tls13) =
   map_prod id (\<lambda>st. st\<lparr>hs_read := None\<rparr>) (reference_flight demo_tls [(8, [7])] demo_tls13)"
  by (rule flight_fragmentation [OF demo_tls_ok])
     (simp_all add: demo_tls13_def message_wire_def be_bytes_numeral)

text \<open>C15. An honest server's flight is accepted: EncryptedExtensions, any certificate chain, a
  CertificateVerify whose signature the leaf's key accepts over the transcript through the Certificate, and
  the Finished of the handshake secret, cut into records in any way, completes the handshake;
  the client reports the chain and holds the application keys of the RFC 8446 schedule for
  both directions.\<close>

theorem flight_accepted:
  assumes "tls_crypto_ok c" "t_suite st = Some suite" "t_transcript st = Some \<lparr>tr_alg = suite_hash suite, tr_data = t0\<rparr>"
    "shts st = Some secret" "master_secret st = Some master" "hs_read st = Some (rc, iv, seq)" "length iv = 12"
    "length ee < 2 ^ 24" "length ctx < 256" "length (certificate_wire ctx es) < 2 ^ 24" "\<forall>e \<in> set es. length (snd e) < 65536"
    "length sig < 65536" "es \<noteq> []"
    "verify_certificate_verify c scheme (fst (hd es)) sig (honest_signed c (suite_hash suite) t0 ee ctx es) = Inr ()"
    "chunks rs = concat (map message_wire (honest_flight c (suite_hash suite) secret t0 ee ctx es scheme sig))"
    "\<forall>r \<in> set rs. flight_record_ok r" "unat seq + length rs < 2 ^ 64"
  shows "\<exists>out st'. process_server_flight c (records_wire c (rc, iv, seq) rs) st = (Inr out, st') \<and>
    to_suite out = suite \<and> to_server_chain out = map fst es \<and>
    server_app_secret out = secret_of c (suite_hash suite) master ''s ap traffic'' (digest c (suite_hash suite) (t0 @ chunks rs)) \<and>
    client_app_secret out = secret_of c (suite_hash suite) master ''c ap traffic'' (digest c (suite_hash suite) (t0 @ chunks rs)) \<and>
    app_read st' = Some (cipher_of c suite (server_app_secret out), iv_of c suite (server_app_secret out), 0) \<and>
    app_write st' = Some (cipher_of c suite (client_app_secret out), iv_of c suite (client_app_secret out), 0)"
proof -
  let ?ms = "honest_flight c (suite_hash suite) secret t0 ee ctx es scheme sig"
  have list: "length (concat (map entry_wire es)) < 2 ^ 24"
    using assms(10) by (simp add: certificate_wire_def del: length_concat)
  let ?t = "\<lambda>label. secret_of c (suite_hash suite) master label (digest c (suite_hash suite) (t0 @ chunks rs))"
  let ?out = "\<lparr>to_suite = suite, to_server_chain = map fst es, server_app_secret = ?t ''s ap traffic'',
    client_app_secret = ?t ''c ap traffic''\<rparr>"
  obtain ref where ref: "reference_flight c ?ms st = (Inr ?out, ref)"
    "app_read ref = Some (cipher_of c suite (?t ''s ap traffic''), iv_of c suite (?t ''s ap traffic''), 0)"
    "app_write ref = Some (cipher_of c suite (?t ''c ap traffic''), iv_of c suite (?t ''c ap traffic''), 0)"
    using honest_reference [OF assms(1-5,9) list assms(11-14)] unfolding assms(15) by blast
  have "\<forall>m \<in> set ?ms. length (snd m) < 2 ^ 24"
    using assms(1,8,10,12)
    by (cases "suite_hash suite")
       (auto simp: honest_flight_def honest_prefix_def honest_finished_def certificate_verify_wire_def Let_def)
  from flight_refines [OF assms(1,6,7) _ assms(15,17,16) this] assms(3)
  obtain st' where "process_server_flight c (records_wire c (rc, iv, seq) rs) st = (Inr ?out, st')"
    "st'\<lparr>hs_read := None\<rparr> = ref\<lparr>hs_read := None\<rparr>"
    by (cases "process_server_flight c (records_wire c (rc, iv, seq) rs) st") (auto simp: ref(1))
  moreover from arg_cong [OF this(2), of app_read] arg_cong [OF this(2), of app_write]
  have "app_read st' = app_read ref" "app_write st' = app_write ref"
    by simp_all
  ultimately show ?thesis
    using ref(2,3) by (intro exI [of _ ?out] exI [of _ st']) simp
qed

theorem flight_accepted_witness:
  "\<exists>out st'. process_server_flight demo_tls (records_wire demo_tls (ChaCha [9], replicate 12 0, 0) demo_records) demo_tls13 =
     (Inr out, st') \<and> to_server_chain out = [x509_wire demo_x509]"
proof -
  have "length demo_records = 3"
    by (simp add: demo_records_def Let_def)
  then show ?thesis
    using flight_accepted [OF demo_tls_ok demo_tls13_facts, where ee = "[0, 0]" and ctx = "[]" and sig = "[1]" and scheme = "0x0804"
        and es = "[(x509_wire demo_x509, [])]" and rs = demo_records]
      demo_flight_bounds(1) demo_records_ok
    by (auto simp: demo_x509_verifies demo_flight_def)
qed

text \<open>C11. A flight is accepted only if it is authentic: whenever the client accepts a flight, in whatever
  records and message order it came, the transcript ends with the Finished message that the
  server's handshake secret gives for everything before it, and the leaf's key has accepted a
  signature over the hash of the transcript up to some point before the Finished.\<close>

theorem flight_authentic:
  assumes "tls_crypto_ok c" "t_suite st = Some suite" "t_transcript st = Some \<lparr>tr_alg = suite_hash suite, tr_data = t0\<rparr>"
    "process_server_flight c records st = (Inr out, st')"
  shows "\<exists>secret u v leaf chain scheme sig. shts st = Some secret \<and> to_server_chain out = leaf # chain \<and>
    t_transcript st' = Some \<lparr>tr_alg = suite_hash suite,
      tr_data = t0 @ u @ v @ message_wire (honest_finished c (suite_hash suite) secret (t0 @ u @ v))\<rparr> \<and>
    verify_certificate_verify c scheme leaf sig (to_be_signed (digest c (suite_hash suite) (t0 @ u))) = Inr ()"
proof -
  let ?h = "suite_hash suite"
  obtain r fl where loop: "flight_loop c ?h (flight_start records st) = (r, fl)"
    by fastforce
  with assms(2,4) have fin: "flight_done c suite fl (fl_client fl) = (Inr out, st')" "r = Inr ()"
    by (auto simp: process_server_flight_def split: sum.splits)
  have "authentic c ?h t0 (shts st) (flight_start records st)"
    using assms(3) by (simp add: authentic_def flight_start_def)
  from authentic_loop [OF _ assms(1) this] loop fin(2) obtain t secret x where
    tr: "shts st = Some secret" "t_transcript (fl_client fl) = Some \<lparr>tr_alg = ?h, tr_data = t0 @ t\<rparr>"
    "t = x @ message_wire (honest_finished c ?h secret (t0 @ x))"
    and signed: "\<forall>scheme sig tbs. fl_cv fl = Some (scheme, sig, tbs) \<longrightarrow> (\<exists>u v. x = u @ v \<and> tbs = to_be_signed (digest c ?h (t0 @ u)))"
    by (auto simp: authentic_def)
  from fin(1) assms(1) obtain scheme sig tbs leaf where
    cv: "fl_cv fl = Some (scheme, sig, tbs)" "get 0 (fl_chain fl) = Some leaf" "verify_certificate_verify c scheme leaf sig tbs = Inr ()"
    "to_server_chain out = fl_chain fl" "t_transcript st' = t_transcript (fl_client fl)"
    by (auto simp: flight_done_def ok_or_def unwrap_or_panic_def split: option.splits sum.splits)
  from signed cv(1) obtain u v where "x = u @ v" "tbs = to_be_signed (digest c ?h (t0 @ u))"
    by blast
  moreover from cv(2,4) obtain chain where "to_server_chain out = leaf # chain"
    by (cases "fl_chain fl") (auto simp: get_def)
  ultimately show ?thesis
    using tr cv(3,5) by (intro exI [of _ secret] exI [of _ u] exI [of _ v] exI [of _ leaf] exI [of _ chain] exI [of _ scheme] exI [of _ sig]) simp
qed

theorem flight_authentic_witness:
  "\<exists>out st' secret u v leaf chain scheme sig.
    process_server_flight demo_tls (records_wire demo_tls (ChaCha [9], replicate 12 0, 0) demo_records) demo_tls13 = (Inr out, st') \<and>
    shts demo_tls13 = Some secret \<and> to_server_chain out = leaf # chain \<and>
    verify_certificate_verify demo_tls scheme leaf sig (to_be_signed (digest demo_tls S256 ([1, 2] @ u))) = Inr ()"
proof -
  obtain out st' where "process_server_flight demo_tls (records_wire demo_tls (ChaCha [9], replicate 12 0, 0) demo_records) demo_tls13 = (Inr out, st')"
    using demo_flight_accepted by blast
  from flight_authentic [OF demo_tls_ok demo_tls13_facts(1,2) this] this show ?thesis
    by auto
qed

text \<open>C34. Reading a flight ends: every iteration of the loop that does not fail consumes input, either part of
  the records or, with the records left alone, a whole message of the pending bytes; so the
  \<open>continue\<close> on a message that is not there is never taken, and the loop stops at the Finished or
  with an error.\<close>

theorem flight_loop_terminates:
  "(\<forall>u fl'. flight_step c h fl = (Inr u, fl') \<longrightarrow>
      ((length (fl_rest fl'), length (fl_pending fl')), (length (fl_rest fl), length (fl_pending fl))) \<in> less_than <*lex*> less_than) \<and>
   (case flight_loop c h fl of (Inl e, fl') \<Rightarrow> True | (Inr _, fl') \<Rightarrow> fl_finished fl')"
proof -
  have "(case flight_loop c h fl of (Inl e, fl') \<Rightarrow> True | (Inr _, fl') \<Rightarrow> fl_finished fl')"
    by (induction c h fl rule: flight_loop.induct) (subst flight_loop.simps, auto split: prod.splits sum.splits)
  then show ?thesis
    using flight_step_consumes_input [of c h fl] by fastforce
qed

theorem flight_loop_terminates_witness:
  "\<exists>fl'. flight_step demo_tls S256 (flight_start [0x14, 3, 3, 0, 1, 1] demo_tls13) = (Inr (), fl') \<and>
    ((length (fl_rest fl'), length (fl_pending fl')), (6, 0)) \<in> less_than <*lex*> less_than"
proof -
  let ?fl = "flight_start [0x14, 3, 3, 0, 1, 1] demo_tls13"
  obtain fl' where step: "flight_step demo_tls S256 ?fl = (Inr (), fl')"
    by (simp add: flight_step_def flight_start_def needs_record_def flight_read_def)
  with flight_loop_terminates [of demo_tls S256 ?fl]
  have "((length (fl_rest fl'), length (fl_pending fl')), (length (fl_rest ?fl), length (fl_pending ?fl))) \<in> less_than <*lex*> less_than"
    by blast
  with step show ?thesis
    by (intro exI [of _ fl']) (simp add: flight_start_def)
qed

end
