(* ===== verification/Tls13Safety.thy ===== *)
theory Tls13Safety
  imports Flight
begin

text \<open>
  The type invariant of \<open>Tls13Client\<close> (\<open>native/src/tls13.rs\<close>): whatever sequence of its methods has been
  called, with whatever input, the pieces of state the methods unwrap are there and the IVs
  have the length the AEADs need.  Hence no method panics, apart from the truncated ServerHello
  and an exhausted sequence number.
\<close>

definition keyed_ok :: "keyed option \<Rightarrow> bool" where
  "keyed_ok k \<longleftrightarrow> (case k of None \<Rightarrow> True | Some (rc, iv, seq) \<Rightarrow> length iv = 12)"

definition client_ok :: "tls13_client \<Rightarrow> bool" where
  "client_ok st \<longleftrightarrow>
     (\<forall>suite. t_suite st = Some suite \<longrightarrow> early_secret st \<noteq> None \<and>
        (\<exists>t. t_transcript st = Some t \<and> tr_alg t = suite_hash suite)) \<and>
     keyed_ok (hs_read st) \<and> keyed_ok (hs_write st) \<and> keyed_ok (app_read st) \<and> keyed_ok (app_write st)"

text \<open>The room a keyed direction has for \<open>n\<close> more records.\<close>

definition key_room :: "nat \<Rightarrow> keyed option \<Rightarrow> bool" where
  "key_room n k \<longleftrightarrow> (case k of None \<Rightarrow> True | Some (rc, iv, seq) \<Rightarrow> unat seq + n < 2 ^ 64)"

text \<open>What a step keeps: the client's invariant, its suite, and room for the records still unread.\<close>

definition flight_safe :: "flight \<Rightarrow> bool" where
  "flight_safe fl \<longleftrightarrow> client_ok (fl_client fl) \<and> t_suite (fl_client fl) \<noteq> None \<and>
     key_room (length (fl_rest fl)) (hs_read (fl_client fl))"

text \<open>The methods in any order, on any input (a flight has fewer records than sequence numbers are left).\<close>

inductive tls13_step :: "tls_crypto \<Rightarrow> tls13_client \<Rightarrow> tls13_client \<Rightarrow> bool" for c where
  do_set_client_hello: "tls13_step c st (set_client_hello hello st)"
| do_server_hello: "tls13_step c st (snd (process_server_hello c wire st))"
| do_handshake_keys: "tls13_step c st (snd (derive_handshake_keys c shared st))"
| do_flight: "key_room (length records) (hs_read st) \<Longrightarrow> tls13_step c st (snd (process_server_flight c records st))"
| do_finished: "tls13_step c st (snd (client_finished_record c st))"
| do_seal: "tls13_step c st (snd (seal_app_record c data st))"
| do_open: "tls13_step c st (snd (open_app_record c wire st))"

section \<open>Preservation\<close>

lemma next_nonce_keyed:
  "next_nonce k = Inr (n, k') \<Longrightarrow> keyed_ok (Some k) \<Longrightarrow> keyed_ok (Some k') \<and> length n = 12"
  by (auto simp: next_nonce_def keyed_ok_def rbind_eq_Inr record_nonce_def split: prod.splits if_splits)

lemma next_nonce_safe:
  "keyed_ok (Some k) \<Longrightarrow> key_room 1 (Some k) \<Longrightarrow> next_nonce k \<noteq> Inl Panic"
  using u64_room [of "snd (snd k)" 0]
  by (auto simp: next_nonce_def keyed_ok_def key_room_def rbind_eq_Panic record_nonce_def split: prod.splits)

lemma cipher_safe [simp]:
  "length n = 12 \<Longrightarrow> cipher_open c rc n ct a \<noteq> Inl Panic" "length n = 12 \<Longrightarrow> cipher_seal c rc n m a \<noteq> Inl Panic"
  by (simp_all add: cipher_open_def cipher_seal_def split: prod.splits)

lemma strip_safe [simp]: "strip_inner_padding p \<noteq> Inl Panic"
  by (rule safe_not_Panic [OF safe_strip])

lemma record_body_safe [simp]: "record_body e ty wire \<noteq> Inl Panic"
  by (rule safe_not_Panic [OF safe_record_body])

lemma server_hello_keeps: "client_ok st \<Longrightarrow> client_ok (snd (process_server_hello c wire st))"
  by (auto simp: process_server_hello_def client_ok_def transcript_update_def transcript_new_def Let_def split: sum.splits)

lemma keyed_ok_new [simp]: "tls_crypto_ok c \<Longrightarrow> keyed_ok (Some (rc, iv_of c suite s, q))"
  by (simp add: keyed_ok_def)

lemma handshake_keys_keep:
  "tls_crypto_ok c \<Longrightarrow> client_ok st \<Longrightarrow>
     client_ok (snd (derive_handshake_keys c shared st)) \<and> fst (derive_handshake_keys c shared st) \<noteq> Inl Panic"
  by (cases "t_suite st") (auto simp: derive_handshake_keys_def client_ok_def Let_def)

lemma open_hs_keeps: "client_ok st \<Longrightarrow> client_ok (snd (open_hs_record c wire st))"
  using next_nonce_keyed
  by (auto simp: open_hs_record_def client_ok_def split: sum.splits prod.splits option.splits)

lemma open_hs_safe:
  "client_ok st \<Longrightarrow> key_room 1 (hs_read st) \<Longrightarrow> fst (open_hs_record c wire st) \<noteq> Inl Panic"
  using next_nonce_keyed next_nonce_safe
  by (auto simp: open_hs_record_def client_ok_def split: sum.splits prod.splits option.splits)

lemma open_app_keeps: "client_ok st \<Longrightarrow> client_ok (snd (open_app_record c wire st))"
  using next_nonce_keyed
  by (auto simp: open_app_record_def open_record_13_def abind_def [of "abind _ _"] client_ok_def
      split: sum.splits prod.splits option.splits)

lemma open_app_safe: "client_ok st \<Longrightarrow> key_room 1 (app_read st) \<Longrightarrow> fst (open_app_record c wire st) \<noteq> Inl Panic"
  using next_nonce_keyed next_nonce_safe
  by (auto simp: open_app_record_def open_record_13_def abind_def [of "abind _ _"] client_ok_def
      split: sum.splits prod.splits option.splits)

lemma seal_app_keeps: "client_ok st \<Longrightarrow> client_ok (snd (seal_app_record c data st))"
  using next_nonce_keyed
  by (auto simp: seal_app_record_def client_ok_def Let_def split: sum.splits prod.splits option.splits)

lemma seal_app_safe: "client_ok st \<Longrightarrow> key_room 1 (app_write st) \<Longrightarrow> fst (seal_app_record c data st) \<noteq> Inl Panic"
  using next_nonce_keyed next_nonce_safe
  by (auto simp: seal_app_record_def client_ok_def Let_def split: sum.splits prod.splits option.splits)

lemma finished_keeps: "tls_crypto_ok c \<Longrightarrow> client_ok st \<Longrightarrow> client_ok (snd (client_finished_record c st))"
  using next_nonce_keyed
  by (auto simp: client_finished_record_def client_ok_def transcript_update_def Let_def
      split: sum.splits prod.splits option.splits)

lemma finished_safe:
  "tls_crypto_ok c \<Longrightarrow> client_ok st \<Longrightarrow> key_room 1 (hs_write st) \<Longrightarrow> fst (client_finished_record c st) \<noteq> Inl Panic"
  using next_nonce_keyed next_nonce_safe
  by (auto simp: client_finished_record_def client_ok_def Let_def split: sum.splits prod.splits option.splits)

section \<open>The flight\<close>

lemma take_message_keeps: "client_ok st \<Longrightarrow> client_ok (snd (take_message c buf st))"
  by (auto simp: take_message_def client_ok_def transcript_update_def slice_def Let_def split: sum.splits option.splits)

lemma take_message_suite: "t_suite (snd (take_message c buf st)) = t_suite st \<and> hs_read (snd (take_message c buf st)) = hs_read st"
  by (auto simp: take_message_def Let_def split: sum.splits)

lemma take_message_safe: "client_ok st \<Longrightarrow> t_suite st \<noteq> None \<Longrightarrow> fst (take_message c buf st) \<noteq> Inl Panic"
  by (auto simp: take_message_def client_ok_def slice_def Let_def)

lemma handle_safe: "tls_crypto_ok c \<Longrightarrow> fst (flight_handle c h m fl) \<noteq> Inl Panic"
  using safe_not_Panic [OF safe_certificate_bodies]
  by (auto simp: flight_handle_def certificate_verify_def check_finished_def rbind_eq_Panic slice_def Let_def
      split: prod.splits sum.splits if_splits)

lemma open_hs_room:
  assumes "open_hs_record c wire st = (Inr x, st')" "key_room (Suc n) (hs_read st)"
  shows "key_room n (hs_read st') \<and> t_suite st' = t_suite st"
proof -
  have "key_room n (Some k')" if "next_nonce k = Inr (nc, k')" "key_room (Suc n) (Some k)" for k k' nc
    using that u64_room [of "snd (snd k)" n]
    by (auto simp: next_nonce_def key_room_def rbind_eq_Inr split: prod.splits if_splits)
  then show ?thesis
    using assms by (auto simp: open_hs_record_def split: sum.splits prod.splits option.splits)
qed

lemma key_room_mono: "m \<le> n \<Longrightarrow> key_room n k \<Longrightarrow> key_room m k"
  by (auto simp: key_room_def split: option.splits)

lemma flight_read_safe:
  assumes "flight_safe fl" "flight_read c fl = (x, fl')"
  shows "x \<noteq> Inl Panic \<and> client_ok (fl_client fl') \<and> (x = Inr () \<longrightarrow> flight_safe fl')"
proof (cases "length (fl_rest fl) < 5 + unat (from_be16 (fl_rest fl ! 3) (fl_rest fl ! 4)) \<or> length (fl_rest fl) < 5")
  case True
  then have "x = Inl (Err Truncated_13)" "fl' = fl"
    using assms(2) by (auto simp: flight_read_def Let_def simp del: unat_from_be16 split: if_splits)
  with assms(1) show ?thesis
    by (simp add: flight_safe_def)
next
  case False
  define n where "n = 5 + unat (from_be16 (fl_rest fl ! 3) (fl_rest fl ! 4))"
  obtain y st where opened: "open_hs_record c (take n (fl_rest fl)) (fl_client fl) = (y, st)"
    by fastforce
  have n: "5 \<le> n" "n \<le> length (fl_rest fl)"
    using False by (simp_all add: n_def)
  have read: "flight_read c fl = (if take n (fl_rest fl) ! 0 = 0x14 then (Inr (), fl\<lparr>fl_rest := drop n (fl_rest fl)\<rparr>)
      else case (y, st) of
        (Inl e, st) \<Rightarrow> (Inl e, fl\<lparr>fl_client := st\<rparr>)
      | (Inr (ct, payload), st) \<Rightarrow>
          if ct \<noteq> CONTENT_HANDSHAKE_13 then (Inl (Err UnexpectedRecord), fl\<lparr>fl_client := st\<rparr>)
          else (Inr (), fl\<lparr>fl_client := st, fl_pending := fl_pending fl @ payload, fl_rest := drop n (fl_rest fl)\<rparr>))"
    using False opened unfolding flight_read_def Let_def n_def [symmetric] by (auto simp: n_def [symmetric])
  have safe: "client_ok (fl_client fl)" "t_suite (fl_client fl) \<noteq> None" "key_room (length (fl_rest fl)) (hs_read (fl_client fl))"
    using assms(1) by (simp_all add: flight_safe_def)
  obtain l where l: "length (fl_rest fl) = Suc l"
    using n by (cases "length (fl_rest fl)") simp_all
  have "client_ok st" "y \<noteq> Inl Panic"
    using open_hs_keeps [OF safe(1), of c "take n (fl_rest fl)"] opened
      open_hs_safe [OF safe(1) key_room_mono [OF _ safe(3)], of c "take n (fl_rest fl)"] l by auto
  moreover have "t_suite st = t_suite (fl_client fl) \<and> key_room (length (fl_rest fl) - n) (hs_read st)" if "y = Inr z" for z
    using open_hs_room [of c "take n (fl_rest fl)" "fl_client fl" z st l] opened that safe(3) l n
      key_room_mono [of "length (fl_rest fl) - n" l "hs_read st"] by simp
  moreover have "key_room (length (fl_rest fl) - n) (hs_read (fl_client fl))"
    using key_room_mono [OF _ safe(3)] by simp
  ultimately show ?thesis
    using assms(2) safe(1,2) unfolding read
    by (cases y) (auto simp: flight_safe_def split: if_splits prod.splits)
qed

lemma flight_step_safe:
  assumes "tls_crypto_ok c" "flight_safe fl" "flight_step c h fl = (x, fl')"
  shows "x \<noteq> Inl Panic \<and> client_ok (fl_client fl') \<and> (x = Inr () \<longrightarrow> flight_safe fl')"
proof (cases "needs_record (fl_pending fl)")
  case True
  with flight_read_safe [OF assms(2)] assms(3) show ?thesis
    by (simp add: flight_step_def)
next
  case False
  have safe: "client_ok (fl_client fl)" "t_suite (fl_client fl) \<noteq> None" "key_room (length (fl_rest fl)) (hs_read (fl_client fl))"
    using assms(2) by (simp_all add: flight_safe_def)
  obtain y st where taken: "take_message c (fl_pending fl) (fl_client fl) = (y, st)"
    by fastforce
  then have st: "client_ok st" "t_suite st = t_suite (fl_client fl)" "hs_read st = hs_read (fl_client fl)" "y \<noteq> Inl Panic"
    using take_message_keeps [OF safe(1), of c "fl_pending fl"] take_message_suite [of c "fl_pending fl" "fl_client fl"]
      take_message_safe [OF safe(1,2), of c "fl_pending fl"] by simp_all
  have message: "flight_message c h fl = (x, fl')"
    using assms(3) False by (simp add: flight_step_def)
  consider (fail) e where "y = Inl e" "x = Inl e" "fl_client fl' = st"
    | (none) buf where "fl_client fl' = st" "x = Inr ()" "fl_rest fl' = fl_rest fl"
    | (some) m buf where "flight_handle c h m (fl\<lparr>fl_client := st, fl_pending := buf\<rparr>) = (x, fl')"
    using message taken by (auto simp: flight_message_def split: sum.splits prod.splits option.splits)
  then show ?thesis
  proof cases
    case some
    let ?in = "fl\<lparr>fl_client := st, fl_pending := buf\<rparr>"
    have "x = fst (flight_handle c h m ?in)" "fl' = snd (flight_handle c h m ?in)"
      using some by simp_all
    with handle_safe [OF assms(1), of h m ?in] st safe(2,3) show ?thesis
      by (simp add: flight_safe_def)
  qed (use st safe in \<open>auto simp: flight_safe_def\<close>)
qed

lemma flight_loop_safe:
  "tls_crypto_ok c \<Longrightarrow> flight_safe fl \<Longrightarrow> fst (flight_loop c h fl) \<noteq> Inl Panic \<and> client_ok (fl_client (snd (flight_loop c h fl))) \<and>
     (fst (flight_loop c h fl) = Inr () \<longrightarrow> t_suite (fl_client (snd (flight_loop c h fl))) \<noteq> None)"
proof (induction c h fl rule: flight_loop.induct)
  case (1 c h fl)
  show ?case
  proof (cases "fl_finished fl")
    case True
    with 1(3) show ?thesis
      by (simp add: flight_loop.simps flight_safe_def)
  next
    case False
    obtain x fl1 where step: "flight_step c h fl = (x, fl1)"
      by fastforce
    with flight_step_safe [OF 1(2,3) this] 1(1) [OF False step [symmetric]] False 1(2) show ?thesis
      by (cases x) (auto simp: flight_loop_step)
  qed
qed

lemma flight_done_safe:
  "tls_crypto_ok c \<Longrightarrow> client_ok st \<Longrightarrow> t_suite st \<noteq> None \<Longrightarrow>
     fst (flight_done c suite fl st) \<noteq> Inl Panic \<and> client_ok (snd (flight_done c suite fl st))"
  using safe_not_Panic [OF safe_verify]
  by (auto simp: flight_done_def client_ok_def split: sum.splits prod.splits)

lemma flight_keeps:
  assumes "tls_crypto_ok c" "client_ok st" "key_room (length records) (hs_read st)"
  shows "client_ok (snd (process_server_flight c records st)) \<and> fst (process_server_flight c records st) \<noteq> Inl Panic"
proof (cases "t_suite st")
  case None
  with assms(2) show ?thesis
    by (simp add: process_server_flight_def)
next
  case (Some suite)
  let ?fl = "flight_start records st"
  obtain x fl where loop: "flight_loop c (suite_hash suite) ?fl = (x, fl)"
    by fastforce
  have "flight_safe ?fl"
    using assms(2,3) Some by (simp add: flight_safe_def flight_start_def)
  from flight_loop_safe [OF assms(1) this, of "suite_hash suite"] loop
  have "x \<noteq> Inl Panic" "client_ok (fl_client fl)" "x = Inr () \<longrightarrow> t_suite (fl_client fl) \<noteq> None"
    by simp_all
  then show ?thesis
    using flight_done_safe [OF assms(1), of "fl_client fl" suite fl] Some loop
    by (cases x) (simp_all add: process_server_flight_def)
qed

lemma client_ok_step: "tls13_step c st st' \<Longrightarrow> tls_crypto_ok c \<Longrightarrow> client_ok st \<Longrightarrow> client_ok st'"
  by (induction rule: tls13_step.induct)
     (simp_all add: server_hello_keeps handshake_keys_keep flight_keeps finished_keeps seal_app_keeps open_app_keeps,
      simp add: client_ok_def set_client_hello_def)

lemma client_ok_run: "(tls13_step c)\<^sup>*\<^sup>* st st' \<Longrightarrow> tls_crypto_ok c \<Longrightarrow> client_ok st \<Longrightarrow> client_ok st'"
  by (induction rule: rtranclp_induct) (simp_all add: client_ok_step)

section \<open>Properties\<close>

text \<open>C25. The client's type invariant: after any sequence of calls, with any input, failed ones included, a
  negotiated suite comes with its early secret and a transcript over its hash, and every installed
  IV has 12 bytes.  So no later call panics on its state: not the key derivation, and, as long as
  sequence numbers are left, not the server flight, the client Finished, sealing or opening;
  \<open>process_server_hello\<close> panics in any state on exactly the inputs that are cut off within the header of a
  ServerHello, and on no other.\<close>

theorem tls13_client_invariant:
  assumes "tls_crypto_ok c" "(tls13_step c)\<^sup>*\<^sup>* tls13_new st"
  shows "client_ok st \<and> fst (derive_handshake_keys c shared st) \<noteq> Inl Panic \<and>
    (key_room (length records) (hs_read st) \<longrightarrow> fst (process_server_flight c records st) \<noteq> Inl Panic) \<and>
    (key_room 1 (hs_write st) \<longrightarrow> fst (client_finished_record c st) \<noteq> Inl Panic) \<and>
    (key_room 1 (app_write st) \<longrightarrow> fst (seal_app_record c data st) \<noteq> Inl Panic) \<and>
    (key_room 1 (app_read st) \<longrightarrow> fst (open_app_record c wire st) \<noteq> Inl Panic) \<and>
    (fst (process_server_hello c hello st) = Inl Panic \<longleftrightarrow> short_server_hello hello)"
proof -
  have "client_ok tls13_new"
    by (simp add: client_ok_def tls13_new_def keyed_ok_def)
  with client_ok_run assms have "client_ok st"
    by blast
  moreover have "fst (process_server_hello c hello st) = Inl Panic \<longleftrightarrow> short_server_hello hello"
    by (auto simp: process_server_hello_def Let_def simp flip: parse_server_hello_panics split: sum.splits)
  ultimately show ?thesis
    using assms(1) by (simp add: handshake_keys_keep flight_keeps finished_safe seal_app_safe open_app_safe)
qed

theorem tls13_client_invariant_witness:
  "\<exists>st. (tls13_step demo_tls)\<^sup>*\<^sup>* tls13_new st \<and> t_suite st = Some Aes256GcmSha384 \<and> client_ok st \<and>
    fst (derive_handshake_keys demo_tls [1] st) \<noteq> Inl Panic"
proof -
  let ?a = "set_client_hello [22, 3, 1, 0, 1, 1] tls13_new"
  let ?b = "snd (process_server_hello demo_tls (server_hello_wire demo_server_hello) ?a)"
  have run: "(tls13_step demo_tls)\<^sup>*\<^sup>* tls13_new ?b"
    by (blast intro: do_set_client_hello do_server_hello rtranclp.rtrancl_into_rtrancl)
  have "server_hello_ok demo_server_hello" "from_u16 (sh_suite demo_server_hello) = Some Aes256GcmSha384"
    by (simp_all add: server_hello_ok_def demo_server_hello_def server_hello_body_def server_ext_wire_def proto_defs from_u16_def)
  then have "t_suite ?b = Some Aes256GcmSha384"
    by (simp add: process_server_hello_def parse_server_hello_wire set_client_hello_def Let_def)
  with tls13_client_invariant [OF demo_tls_ok run, of "[1]" "[]" "[]" "[]" "[]"] run show ?thesis
    by blast
qed

end
