(* ===== verification/Session.thy ===== *)
theory Session
  imports Pump
begin

text \<open>
  \<open>native/src/lib.rs\<close>: the session shared by the JNI entry points and the entry points themselves.
  Reading a JNI string and decoding its JSON (\<open>read_profile\<close>) yields the argument \<open>profile\<close>; name
  resolution and TCP connect yield a \<open>connect_result\<close>; the codecs of the \<open>base64\<close> and \<open>hex\<close>
  crates, the cryptography, the ephemeral secret and the clock are arguments.  A returned JSON
  object is a \<open>reply\<close>.  Text is its UTF-8 bytes.

  All handles of the tunnel socket are clones of one socket.  The session's handle and the pump's
  handles share their streams from \<open>start\<close> until the next connect; \<open>s_shared\<close> says so, and
  \<open>streams\<close> reads the socket through the session's handle in either case.
\<close>

section \<open>Data\<close>

record reality_profile =
  rp_server_address :: bytes
  rp_server_port :: u16
  security :: bytes
  network :: bytes
  rp_sni :: "bytes option"
  public_key_present :: bool
  short_id_present :: bool
  public_key :: "bytes option"
  rp_short_id :: "bytes option"
  rp_uuid :: "bytes option"

record codecs =
  b64_url_decode :: "bytes \<Rightarrow> bytes option"
  b64_std_decode :: "bytes \<Rightarrow> bytes option"
  b64_std_encode :: "bytes \<Rightarrow> bytes"
  hex_decode :: "bytes \<Rightarrow> bytes option"
  hex_decode_to_slice :: "bytes \<Rightarrow> nat \<Rightarrow> bytes option"

record session =
  s_handshake :: "handshake_state option"
  s_pump :: pump
  next_out_seq :: u64
  next_in_seq :: u64
  s_socket :: "(sink \<times> source) option"
  s_shared :: bool

text \<open>The two statics \<open>SESSION\<close> and \<open>VLESS_TUNNEL\<close>.\<close>

record native =
  SESSION :: "session option"
  VLESS_TUNNEL :: "vless_params option"

datatype reason = Reason string | DnsFailed | NoAddress | ConnectFailed io_kind | SetupFailed io_kind
  | Hello frame_error | Response frame_error | ProbeSend frame_error | ProbeRead frame_error | CloneFailed

datatype connect_result = Dns_error | No_address | Refused io_kind | Setup_error io_kind | Connected sink source

text \<open>\<open>HandshakeError::reason\<close>.\<close>

fun hs_reason :: "handshake_error \<Rightarrow> string" where
  "hs_reason BadServerKey = ''server Reality public key is not a valid Curve25519 point''"
| "hs_reason BadShortId = ''short ID must be 1-8 bytes''"
| "hs_reason SessionAuthRejected = ''session authentication rejected''"
| "hs_reason SealFailed = ''AEAD seal failed''"
| "hs_reason EphemeralKeyFailed = ''ephemeral key generation failed''"

definition hs_err :: "(handshake_error, 'a) result \<Rightarrow> (reason, 'a) result" where
  "hs_err m = (case m of Inl (Err e) \<Rightarrow> Inl (Err (Reason (hs_reason e))) | Inl Panic \<Rightarrow> Inl Panic | Inr x \<Rightarrow> Inr x)"

definition empty_session :: session where
  "empty_session = \<lparr>s_handshake = None, s_pump = pump_new, next_out_seq = 0, next_in_seq = 0,
     s_socket = None, s_shared = False\<rparr>"

definition with_session :: "(session \<Rightarrow> 'a \<times> session) \<Rightarrow> native \<Rightarrow> 'a \<times> native" where
  "with_session f n =
     (let s = (case SESSION n of Some s \<Rightarrow> s | None \<Rightarrow> empty_session)
      in case f s of (x, s') \<Rightarrow> (x, n\<lparr>SESSION := Some s'\<rparr>))"

definition streams :: "session \<Rightarrow> (sink \<times> source) option" where
  "streams s = (case s_socket s of None \<Rightarrow> None
     | Some ws \<Rightarrow> Some (if s_shared s then (out_sock (s_pump s), in_sock (s_pump s)) else ws))"

definition set_streams :: "sink \<Rightarrow> source \<Rightarrow> session \<Rightarrow> session" where
  "set_streams w r s =
     (if s_shared s then s\<lparr>s_pump := (s_pump s)\<lparr>out_sock := w, in_sock := r\<rparr>\<rparr> else s\<lparr>s_socket := Some (w, r)\<rparr>)"

text \<open>\<open>teardown_session\<close> on the session; it also empties \<open>VLESS_TUNNEL\<close>.\<close>

definition teardown_session :: "session \<Rightarrow> session" where
  "teardown_session s =
     s\<lparr>s_pump := stop (s_pump s), s_handshake := None, s_socket := None, s_shared := False,
       next_out_seq := 0, next_in_seq := 0\<rparr>"

definition teardown :: "native \<Rightarrow> native" where
  "teardown n = (case with_session (\<lambda>s. ((), teardown_session s)) n of (_, n) \<Rightarrow> n\<lparr>VLESS_TUNNEL := None\<rparr>)"

section \<open>Profile checks\<close>

definition lower :: "byte \<Rightarrow> byte" where
  "lower b = (if 65 \<le> b \<and> b \<le> 90 then b + 32 else b)"

definition eq_ignore_ascii_case :: "bytes \<Rightarrow> bytes \<Rightarrow> bool" where
  "eq_ignore_ascii_case a b \<longleftrightarrow> map lower a = map lower b"

definition build_lane :: "(reason, reality_profile) result \<Rightarrow> (reason, bytes \<times> u16) result" where
  "build_lane profile =
     rbind profile (\<lambda>p.
       if \<not> eq_ignore_ascii_case (security p) (ascii ''reality'')
       then Inl (Err (Reason ''only Reality profiles are accepted''))
       else if network p \<notin> {ascii ''tcp'', ascii ''ws'', ascii ''xhttp''}
       then Inl (Err (Reason ''unsupported Reality network''))
       else if (case rp_sni p of None \<Rightarrow> [] | Some s \<Rightarrow> s) = []
       then Inl (Err (Reason ''Reality SNI is required''))
       else if \<not> public_key_present p \<or> \<not> short_id_present p
       then Inl (Err (Reason ''Reality public key and short ID are required''))
       else Inr (rp_server_address p, rp_server_port p))"

definition validate_profile :: "(reason, reality_profile) result \<Rightarrow> bool \<times> reason" where
  "validate_profile profile =
     (case profile of
        Inr p \<Rightarrow>
          (eq_ignore_ascii_case (security p) (ascii ''reality'') \<and> public_key_present p \<and> short_id_present p \<and>
             (case rp_sni p of None \<Rightarrow> False | Some v \<Rightarrow> v \<noteq> []),
           Reason (if eq_ignore_ascii_case (security p) (ascii ''reality'')
             then ''Reality profile parsed'' else ''security must be Reality''))
      | Inl (Err e) \<Rightarrow> (False, e)
      | Inl Panic \<Rightarrow> (False, Reason ''''))"

section \<open>Entry points\<close>

definition probe_control_plane :: "(reason, reality_profile) result \<Rightarrow> connect_result \<Rightarrow> (reason, unit) result" where
  "probe_control_plane profile net =
     rbind profile (\<lambda>_. case net of Dns_error \<Rightarrow> Inl (Err DnsFailed) | No_address \<Rightarrow> Inl (Err NoAddress)
       | Refused k \<Rightarrow> Inl (Err (ConnectFailed k)) | _ \<Rightarrow> Inr ())"

definition tcp_connect :: "connect_result \<Rightarrow> (reason, sink \<times> source) result" where
  "tcp_connect net = (case net of Dns_error \<Rightarrow> Inl (Err DnsFailed) | No_address \<Rightarrow> Inl (Err NoAddress)
     | Refused k \<Rightarrow> Inl (Err (ConnectFailed k)) | Setup_error k \<Rightarrow> Inl (Err (SetupFailed k))
     | Connected w r \<Rightarrow> Inr (w, r))"

definition profile_material :: "reality_profile \<Rightarrow> handshake_material" where
  "profile_material p =
     \<lparr>hm_server_address = rp_server_address p, hm_server_port = rp_server_port p,
      hm_sni = (case rp_sni p of None \<Rightarrow> [] | Some s \<Rightarrow> s),
      server_public_key_b64 = (case public_key p of None \<Rightarrow> [] | Some k \<Rightarrow> k),
      short_id_hex = (case rp_short_id p of None \<Rightarrow> [] | Some k \<Rightarrow> k)\<rparr>"

definition profile_vless :: "codecs \<Rightarrow> reality_profile \<Rightarrow> handshake_params \<Rightarrow> (reason, vless_params) result" where
  "profile_vless cd p params =
     rbind (ok_or (Reason ''profile UUID is required'')
              (case rp_uuid p of Some u \<Rightarrow> if u \<noteq> [] then Some u else None | None \<Rightarrow> None)) (\<lambda>uuid_raw.
     rbind (ok_or (Reason ''profile UUID is malformed'') (parse_uuid (hex_decode_to_slice cd) uuid_raw)) (\<lambda>uuid.
       Inr \<lparr>vp_uuid = uuid, vp_flow = Some (ascii ''xtls-rprx-vision''), vp_command = CMD_TCP,
            vp_address = Domain (hp_sni params), vp_port = server_port params\<rparr>))"

text \<open>\<open>run_connect\<close> up to the server's response (nothing is stored before it), and its effect.\<close>

definition hello_exchange ::
    "handshake_state \<Rightarrow> sink \<Rightarrow> source \<Rightarrow> (reason, handshake_state \<times> sink \<times> source \<times> bytes) result" where
  "hello_exchange hs w r =
     (case write_frame w (wire_hello hs) of
        (Inl e, _) \<Rightarrow> Inl (Err (Hello e))
      | (Inr _, w) \<Rightarrow>
          (case read_frame r of
             (Inl e, _) \<Rightarrow> Inl (Err (Response e))
           | (Inr None, _) \<Rightarrow> Inl (Err (Reason ''server closed before handshake response''))
           | (Inr (Some resp), r) \<Rightarrow> Inr (hs, w, r, resp)))"

definition connect_attempt ::
    "crypto \<Rightarrow> codecs \<Rightarrow> bytes \<Rightarrow> u32 \<Rightarrow> connect_result \<Rightarrow> (reason, reality_profile) result \<Rightarrow>
     (reason, vless_params \<times> handshake_state \<times> sink \<times> source \<times> bytes) result" where
  "connect_attempt c cd eph time net profile =
     rbind profile (\<lambda>p.
       if \<not> public_key_present p \<or> \<not> short_id_present p
       then Inl (Err (Reason ''publicKey and shortId are required''))
       else
         rbind (hs_err (into_params (b64_url_decode cd) (b64_std_decode cd) (hex_decode cd) (profile_material p))) (\<lambda>params.
         rbind (profile_vless cd p params) (\<lambda>vp.
         rbind (tcp_connect net) (\<lambda>(w, r).
         rbind (hs_err (initiate c eph time params)) (\<lambda>hs.
         rbind (hello_exchange hs w r) (\<lambda>x. Inr (vp, x)))))))"

definition run_connect ::
    "crypto \<Rightarrow> codecs \<Rightarrow> bytes \<Rightarrow> u32 \<Rightarrow> connect_result \<Rightarrow> (reason, reality_profile) result \<Rightarrow>
     native \<Rightarrow> (reason, bytes) result \<times> native" where
  "run_connect c cd eph time net profile n =
     (case connect_attempt c cd eph time net profile of
        Inl e \<Rightarrow> (Inl e, n)
      | Inr (vp, hs, w, r, resp) \<Rightarrow>
          (case with_session (\<lambda>s. ((), s\<lparr>s_handshake := Some hs, s_socket := Some (w, r), s_shared := False\<rparr>)) n of
             (_, n) \<Rightarrow> (Inr (b64_std_encode cd resp), n\<lparr>VLESS_TUNNEL := Some vp\<rparr>)))"

text \<open>\<open>nativeCompleteHandshake\<close>, on the result of decoding the base64 argument.  The handshake state is
  shared through an \<open>Arc\<close>, so what \<open>complete\<close> does to it is visible in the session.  The code takes the lock of
  the session twice, with \<open>complete\<close> in between; here the whole call is one step.\<close>

definition complete_handshake ::
    "crypto \<Rightarrow> codecs \<Rightarrow> bytes \<Rightarrow> native \<Rightarrow> (reason, unit) result \<times> native" where
  "complete_handshake c cd response_b64 n =
     (case with_session (\<lambda>s. (s_handshake s, s)) n of (state, n) \<Rightarrow>
        (case (b64_std_decode cd response_b64, state) of
           (Some bs, Some hs) \<Rightarrow>
             (case complete c hs bs of
                (Inr _, hs') \<Rightarrow>
                  (case with_session (\<lambda>s. ((), s\<lparr>s_handshake := Some hs'\<rparr>)) n of (_, n) \<Rightarrow> (Inr (), n))
              | (Inl e, _) \<Rightarrow> (hs_err (Inl e), teardown n))
         | (None, _) \<Rightarrow> (Inl (Err (Reason ''response is not valid base64'')), n)
         | (Some _, None) \<Rightarrow> (Inl (Err (Reason ''no handshake in progress'')), n)))"

definition probe_bytes :: bytes where
  "probe_bytes = ascii ''shadevpn-dataplane-probe''"

text \<open>\<open>handshake not completed\<close> is the answer both without a handshake and before its completion.\<close>

definition live_handshake :: "session \<Rightarrow> (reason, handshake_state) result" where
  "live_handshake s = rbind (ok_or (Reason ''handshake not completed'') (s_handshake s)) (\<lambda>hs.
     if \<not> completed hs then Inl (Err (Reason ''handshake not completed'')) else Inr hs)"

definition live_socket :: "bool \<Rightarrow> session \<Rightarrow> (reason, sink \<times> source) result" where
  "live_socket clone_ok s = rbind (ok_or (Reason ''tunnel socket not established'') (streams s)) (\<lambda>ws.
     if clone_ok then Inr ws else Inl (Err CloneFailed))"

definition probe_session :: "crypto \<Rightarrow> bool \<Rightarrow> session \<Rightarrow> (reason, unit) result \<times> session" where
  "probe_session c clone_ok s =
     (case rbind (live_handshake s) (\<lambda>hs. rbind (live_socket clone_ok s) (\<lambda>ws.
             rbind (hs_err (seal_record c hs (next_out_seq s) probe_bytes)) (\<lambda>sealed. Inr (hs, ws, sealed)))) of
        Inl e \<Rightarrow> (Inl e, s)
      | Inr (hs, (w, r), sealed) \<Rightarrow>
          (case write_frame w sealed of
             (Inl e, w) \<Rightarrow> (Inl (Err (ProbeSend e)), set_streams w r s)
           | (Inr _, w) \<Rightarrow>
               if next_out_seq s = -1 then (Inl Panic, set_streams w r s)
               else let s = s\<lparr>next_out_seq := next_out_seq s + 1\<rparr> in
               (case read_frame r of
                  (Inl e, r) \<Rightarrow> (Inl (Err (ProbeRead e)), set_streams w r s)
                | (Inr None, r) \<Rightarrow> (Inl (Err (Reason ''server closed during probe'')), set_streams w r s)
                | (Inr (Some echoed), r) \<Rightarrow>
                    let s = set_streams w r s in
                    (case hs_err (open_record c hs (next_in_seq s) echoed) of
                       Inl e \<Rightarrow> (Inl e, s)
                     | Inr opened \<Rightarrow>
                         if opened \<noteq> probe_bytes then (Inl (Err (Reason ''probe response mismatch'')), s)
                         else if next_in_seq s = -1 then (Inl Panic, s)
                         else (Inr (), s\<lparr>next_in_seq := next_in_seq s + 1\<rparr>)))))"

definition probe_data_plane :: "crypto \<Rightarrow> bool \<Rightarrow> native \<Rightarrow> (reason, unit) result \<times> native" where
  "probe_data_plane c clone_ok n = with_session (probe_session c clone_ok) n"

text \<open>\<open>nativeStartTunnelPump\<close>; the three booleans are the outcomes of the three \<open>try_clone\<close> calls.\<close>

definition start_session ::
    "bool \<Rightarrow> bool \<Rightarrow> bool \<Rightarrow> bool \<Rightarrow> vless_params option \<Rightarrow> session \<Rightarrow> (reason, unit) result \<times> session" where
  "start_session clone_ok clone2_ok halt_ok block vp s =
     (case rbind (live_handshake s) (\<lambda>hs. live_socket clone_ok s) of
        Inl e \<Rightarrow> (Inl e, s)
      | Inr (w, r) \<Rightarrow>
          (case start clone2_ok halt_ok w r \<lparr>block_ipv6 = block, pc_vless = vp\<rparr> (next_out_seq s) (next_in_seq s) (s_pump s) of
             (Inl AlreadyRunning, p) \<Rightarrow> (Inl (Err (Reason ''tunnel pump already running'')), s\<lparr>s_pump := p\<rparr>)
           | (Inl OutCloneFailed, p) \<Rightarrow> (Inl (Err CloneFailed), s\<lparr>s_pump := p\<rparr>)
           | (Inr _, p) \<Rightarrow> (Inr (), s\<lparr>s_pump := p, s_shared := True\<rparr>)))"

definition start_tunnel_pump :: "bool \<Rightarrow> bool \<Rightarrow> bool \<Rightarrow> bool \<Rightarrow> native \<Rightarrow> (reason, unit) result \<times> native" where
  "start_tunnel_pump clone_ok clone2_ok halt_ok block n =
     with_session (start_session clone_ok clone2_ok halt_ok block (VLESS_TUNNEL n)) n"

definition stop_pump :: "native \<Rightarrow> native" where
  "stop_pump n = snd (with_session (\<lambda>s. ((), s\<lparr>s_pump := stop (s_pump s)\<rparr>)) n)"

definition disconnect_tunnel :: "native \<Rightarrow> native" where
  "disconnect_tunnel n = teardown n"

definition native_pump_stats :: "native \<Rightarrow> pump_stats \<times> native" where
  "native_pump_stats n = with_session (\<lambda>s. (stats (s_pump s), s)) n"

section \<open>Sequences of calls\<close>

text \<open>The entry points in any order, interleaved with the pump's threads (which hold whatever handshake
  state they were started with).\<close>

inductive native_step :: "crypto \<Rightarrow> codecs \<Rightarrow> native \<Rightarrow> native \<Rightarrow> bool" for c cd where
  call_connect: "native_step c cd n (snd (run_connect c cd eph time net profile n))"
| call_complete: "native_step c cd n (snd (complete_handshake c cd response n))"
| call_probe: "native_step c cd n (snd (probe_data_plane c clone_ok n))"
| call_start: "native_step c cd n (snd (start_tunnel_pump clone_ok clone2_ok halt_ok block n))"
| call_stop: "native_step c cd n (stop_pump n)"
| call_disconnect: "native_step c cd n (disconnect_tunnel n)"
| call_stats: "native_step c cd n (snd (native_pump_stats n))"
| pump_thread: "SESSION n = Some s \<Longrightarrow> pump_step c hs (s_pump s) p \<Longrightarrow>
    native_step c cd n (n\<lparr>SESSION := Some (s\<lparr>s_pump := p\<rparr>)\<rparr>)"

definition native_init :: native where
  "native_init = \<lparr>SESSION = None, VLESS_TUNNEL = None\<rparr>"

definition keys_confirmed :: "native \<Rightarrow> bool" where
  "keys_confirmed n \<longleftrightarrow> (\<forall>s hs. SESSION n = Some s \<longrightarrow> s_handshake s = Some hs \<longrightarrow>
     (completed hs \<longleftrightarrow> hs_record_keys hs \<noteq> None))"

text \<open>A concrete profile, with codecs that leave text as it is.\<close>

definition demo_codecs :: codecs where
  "demo_codecs = \<lparr>b64_url_decode = (\<lambda>b. Some b), b64_std_decode = (\<lambda>b. if b = [0xff] then None else Some b),
     b64_std_encode = (\<lambda>b. b), hex_decode = (\<lambda>b. Some b), hex_decode_to_slice = (\<lambda>b n. Some (demo_fix n b))\<rparr>"

definition demo_profile :: reality_profile where
  "demo_profile = \<lparr>rp_server_address = [97], rp_server_port = 443, security = ascii ''reality'', network = ascii ''tcp'',
     rp_sni = Some [97, 46, 98], public_key_present = True, short_id_present = True, public_key = Some (replicate 32 7),
     rp_short_id = Some [1, 2], rp_uuid = Some (replicate 32 0x61)\<rparr>"

definition demo_net :: connect_result where
  "demo_net = Connected demo_sink (map Byte (frame_wire [1]))"

definition demo_live :: session where
  "demo_live = empty_session\<lparr>s_handshake := Some demo_keyed,
     s_socket := Some (demo_sink, map Byte (frame_wire
       (probe_bytes @ demo_tag [2] (derive_nonce demo_crypto (replicate 32 4) 0 Server NONCE_PURPOSE_DATA) probe_bytes [])))\<rparr>"

section \<open>Lemmas\<close>

lemma keys_confirmed_with:
  assumes "keys_confirmed n" "\<And>s. s_handshake (snd (f s)) = s_handshake s"
  shows "keys_confirmed (snd (with_session f n))"
proof -
  have "snd (with_session f n) = n\<lparr>SESSION := Some (snd (f (case SESSION n of Some s \<Rightarrow> s | None \<Rightarrow> empty_session)))\<rparr>"
    by (simp add: with_session_def Let_def case_prod_beta)
  with assms show ?thesis
    by (cases "SESSION n") (auto simp: keys_confirmed_def empty_session_def)
qed

lemma set_streams_simps [simp]:
  "s_handshake (set_streams w r s) = s_handshake s" "next_out_seq (set_streams w r s) = next_out_seq s"
  "next_in_seq (set_streams w r s) = next_in_seq s"
  by (simp_all add: set_streams_def)

lemma probe_keeps_handshake: "probe_session c ok s = (x, s') \<Longrightarrow> s_handshake s' = s_handshake s"
  unfolding probe_session_def by (auto simp: Let_def split: sum.splits prod.splits if_splits option.splits)

lemma start_keeps_handshake: "start_session a b h bl vp s = (x, s') \<Longrightarrow> s_handshake s' = s_handshake s"
  by (auto simp: start_session_def split: sum.splits prod.splits start_error.splits)

lemma teardown_session_of: "SESSION (teardown n) = Some (teardown_session (case SESSION n of Some s \<Rightarrow> s | None \<Rightarrow> empty_session))"
  "VLESS_TUNNEL (teardown n) = None"
  by (auto simp: teardown_def with_session_def Let_def split: prod.splits)

lemma teardown_no_handshake: "keys_confirmed (teardown n)"
  by (simp add: keys_confirmed_def teardown_session_of teardown_session_def)

lemma initiate_fresh: "initiate c eph time params = Inr hs \<Longrightarrow> \<not> completed hs \<and> hs_record_keys hs = None"
  by (auto simp: initiate_def Let_def rbind_eq_Inr split: if_splits)

lemma hs_err_Inr [simp]: "hs_err m = Inr x \<longleftrightarrow> m = Inr x"
  by (auto simp: hs_err_def split: sum.splits fault.splits)

text \<open>A successful connect installs a fresh handshake and the new socket and changes nothing else of the
  session, the sequence counters included.\<close>

lemma hello_exchange_hs: "hello_exchange hs w r = Inr (hs', x) \<Longrightarrow> hs' = hs"
  by (auto simp: hello_exchange_def split: prod.splits sum.splits option.splits)

lemma connect_attempt_fresh:
  "connect_attempt c cd eph time net profile = Inr (vp, hs, x) \<Longrightarrow> \<not> completed hs \<and> hs_record_keys hs = None"
  unfolding connect_attempt_def
  by (auto simp: rbind_eq_Inr split: if_splits dest!: hello_exchange_hs initiate_fresh)

lemma run_connect_ok:
  assumes "run_connect c cd eph time net profile n = (Inr b, n')"
  defines "s \<equiv> (case SESSION n of Some s \<Rightarrow> s | None \<Rightarrow> empty_session)"
  shows "\<exists>hs ws. \<not> completed hs \<and> hs_record_keys hs = None \<and>
    SESSION n' = Some (s\<lparr>s_handshake := Some hs, s_socket := Some ws, s_shared := False\<rparr>)"
proof -
  obtain vp hs w r resp where *: "connect_attempt c cd eph time net profile = Inr (vp, hs, w, r, resp)"
    using assms(1) by (auto simp: run_connect_def split: sum.splits)
  with assms(1) have "SESSION n' = Some (s\<lparr>s_handshake := Some hs, s_socket := Some (w, r), s_shared := False\<rparr>)"
    by (auto simp: run_connect_def with_session_def s_def)
  with connect_attempt_fresh [OF *] show ?thesis
    by blast
qed

lemma run_connect_fail: "run_connect c cd eph time net profile n = (Inl e, n') \<Longrightarrow> n' = n"
  by (auto simp: run_connect_def split: sum.splits prod.splits)

lemma complete_handshake_keeps:
  assumes "digest_lengths c" "keys_confirmed n"
  shows "keys_confirmed (snd (complete_handshake c cd resp n))"
proof -
  obtain st n1 where st: "with_session (\<lambda>s. (s_handshake s, s)) n = (st, n1)"
    by fastforce
  have n1: "keys_confirmed n1"
    using keys_confirmed_with [OF assms(2), of "\<lambda>s. (s_handshake s, s)"] st by simp
  show ?thesis
  proof (cases "\<exists>bs hs hs'. b64_std_decode cd resp = Some bs \<and> st = Some hs \<and> complete c hs bs = (Inr (), hs')")
    case True
    then obtain bs hs hs' where *: "b64_std_decode cd resp = Some bs" "st = Some hs" "complete c hs bs = (Inr (), hs')"
      by blast
    then have "completed hs'" "hs_record_keys hs' \<noteq> None"
      unfolding complete_spec [OF assms(1)] by (auto split: if_splits)
    moreover have "snd (complete_handshake c cd resp n) = snd (with_session (\<lambda>s. ((), s\<lparr>s_handshake := Some hs'\<rparr>)) n1)"
      unfolding complete_handshake_def st using * by (simp add: case_prod_beta)
    ultimately show ?thesis
      by (simp add: with_session_def [of _ n1] keys_confirmed_def Let_def)
  next
    case False
    then have "snd (complete_handshake c cd resp n) \<in> {n1, teardown n1}"
      unfolding complete_handshake_def st by (auto split: option.splits prod.splits sum.splits)
    then show ?thesis
      using n1 teardown_no_handshake by auto
  qed
qed

lemma keys_confirmed_step:
  assumes "native_step c cd n n'" "digest_lengths c" "keys_confirmed n"
  shows "keys_confirmed n'"
  using assms(1)
proof (cases rule: native_step.cases)
  case (call_connect eph time net profile)
  obtain x where "run_connect c cd eph time net profile n = (x, n')"
    using call_connect by (cases "run_connect c cd eph time net profile n") auto
  then show ?thesis
    using run_connect_ok [of c cd eph time net profile n _ n'] run_connect_fail [of c cd eph time net profile n _ n'] assms(3)
    by (cases x) (fastforce simp: keys_confirmed_def)+
next
  case (call_complete response)
  then show ?thesis
    using complete_handshake_keeps assms(2,3) by simp
next
  case (call_probe ok)
  have "s_handshake (snd (probe_session c ok s)) = s_handshake s" for s
    by (rule probe_keeps_handshake [OF surjective_pairing])
  from keys_confirmed_with [OF assms(3) this] call_probe show ?thesis
    by (simp add: probe_data_plane_def)
next
  case (call_start a b h bl)
  have "s_handshake (snd (start_session a b h bl (VLESS_TUNNEL n) s)) = s_handshake s" for s
    by (rule start_keeps_handshake [OF surjective_pairing])
  from keys_confirmed_with [OF assms(3) this] call_start show ?thesis
    by (simp add: start_tunnel_pump_def)
next
  case call_stop
  then show ?thesis
    using keys_confirmed_with [OF assms(3), of "\<lambda>s. ((), s\<lparr>s_pump := stop (s_pump s)\<rparr>)"] by (simp add: stop_pump_def)
next
  case call_disconnect
  then show ?thesis
    by (simp add: disconnect_tunnel_def teardown_no_handshake)
next
  case call_stats
  then show ?thesis
    using keys_confirmed_with [OF assms(3), of "\<lambda>s. (stats (s_pump s), s)"] by (simp add: native_pump_stats_def)
next
  case (pump_thread s hs p)
  then show ?thesis
    using assms(3) by (auto simp: keys_confirmed_def)
qed

lemma native_run_confirmed:
  "(native_step c cd)\<^sup>*\<^sup>* n n' \<Longrightarrow> digest_lengths c \<Longrightarrow> keys_confirmed n \<Longrightarrow> keys_confirmed n'"
  by (induction rule: rtranclp_induct) (auto simp: keys_confirmed_step)

lemma live_handshakeD: "live_handshake s = Inr hs \<Longrightarrow> s_handshake s = Some hs \<and> completed hs"
  by (auto simp: live_handshake_def rbind_eq_Inr split: if_splits)

lemma start_session_ok:
  assumes "start_session a b h bl vp s = (Inr (), s')"
  shows "\<exists>hs w r. s_handshake s = Some hs \<and> completed hs \<and> streams s = Some (w, r) \<and>
    start True h w r \<lparr>block_ipv6 = bl, pc_vless = vp\<rparr> (next_out_seq s) (next_in_seq s) (s_pump s) = (Inr (), s_pump s')"
proof -
  obtain w r where ws: "rbind (live_handshake s) (\<lambda>hs. live_socket a s) = Inr (w, r)"
    using assms by (auto simp: start_session_def split: sum.splits)
  then obtain hs where "live_handshake s = Inr hs" "streams s = Some (w, r)"
    by (auto simp: rbind_eq_Inr live_socket_def split: if_splits)
  moreover have "start b h w r \<lparr>block_ipv6 = bl, pc_vless = vp\<rparr> (next_out_seq s) (next_in_seq s) (s_pump s) = (Inr (), s_pump s')"
  proof -
    obtain y q where "start b h w r \<lparr>block_ipv6 = bl, pc_vless = vp\<rparr> (next_out_seq s) (next_in_seq s) (s_pump s) = (y, q)"
      by fastforce
    then show ?thesis
      using assms by (cases y) (auto simp: start_session_def ws split: start_error.splits)
  qed
  moreover from this have "b = True"
    by (auto simp: start_def Let_def split: if_splits)
  ultimately show ?thesis
    using live_handshakeD [of s hs] by (intro exI [of _ hs] exI [of _ w] exI [of _ r]) simp
qed

lemma start_session_shared:
  "start_session a b h bl vp s = (Inr (), s') \<Longrightarrow> s' = s\<lparr>s_pump := s_pump s', s_shared := True\<rparr>"
  by (auto simp: start_session_def split: sum.splits prod.splits start_error.splits)

lemma probe_session_ok:
  assumes "probe_session c ok s = (Inr (), s')"
  shows "\<exists>hs. s_handshake s = Some hs \<and> completed hs \<and> next_out_seq s \<noteq> -1 \<and>
    next_out_seq s' = next_out_seq s + 1 \<and> next_in_seq s' = next_in_seq s + 1"
proof -
  obtain hs w r sealed where m: "rbind (live_handshake s) (\<lambda>hs. rbind (live_socket ok s) (\<lambda>ws.
      rbind (hs_err (seal_record c hs (next_out_seq s) probe_bytes)) (\<lambda>sealed. Inr (hs, ws, sealed)))) = Inr (hs, (w, r), sealed)"
    using assms by (auto simp: probe_session_def split: sum.splits)
  have "live_handshake s = Inr hs"
    using m by (auto simp: rbind_eq_Inr)
  with live_handshakeD assms show ?thesis
    unfolding probe_session_def m
    by (auto simp: Let_def split: sum.splits prod.splits if_splits option.splits)
qed

lemma demo_connect: "\<exists>b n'. run_connect demo_crypto demo_codecs [3] 0 demo_net (Inr demo_profile) n = (Inr b, n')"
proof -
  define params where "params = \<lparr>server_address = [97], server_port = 443, hp_sni = [97, 46, 98 :: byte],
    server_public_key = replicate 32 7, hp_short_id = [1, 2], fingerprint = None\<rparr>"
  have into: "into_params (b64_url_decode demo_codecs) (b64_std_decode demo_codecs) (hex_decode demo_codecs)
      (profile_material demo_profile) = Inr params"
    by (simp add: into_params_def profile_material_def demo_profile_def demo_codecs_def params_def)
  obtain vp where vless: "profile_vless demo_codecs demo_profile params = Inr vp"
    by (simp add: profile_vless_def demo_profile_def parse_uuid_def demo_codecs_def)
  have "x25519 demo_crypto [3] (replicate 32 7) ! 0 = 10" "replicate 32 (7 :: byte) ! 0 = 7" "replicate 32 (0 :: byte) ! 0 = 0"
    by (simp_all add: demo_crypto_def demo_fix_def)
  then have ok: "params_ok demo_crypto [3] params"
    by (auto simp: params_ok_def params_def dest: arg_cong [of _ _ "\<lambda>xs. xs ! 0"])
  obtain hs sid where hs: "initiate demo_crypto [3] 0 params = Inr hs"
    and wire: "length sid = 32" "wire_hello hs = session_hello demo_crypto [3] (hp_sni params)
      (x25519 demo_crypto [3] (server_public_key params)) sid"
    using initiate_spec [OF demo_crypto_ok ok, of 0] by auto
  have "length (wire_hello hs) \<le> MAX_FRAME_LEN"
    unfolding wire(2) MAX_FRAME_LEN_def using demo_crypto_ok wire(1)
    by (intro length_session_hello) (simp_all add: crypto_ok_def params_def)
  then have "\<exists>w. write_frame demo_sink (wire_hello hs) = (Inr (), w)"
    by (simp add: write_frame_def write_all_def flush_def demo_sink_def MAX_FRAME_LEN_def)
  moreover have "read_frame (map Byte (frame_wire [1])) = (Inr (Some [1]), [])"
    using read_frame_wire [of "[1]" "[]"] by (simp add: MAX_FRAME_LEN_def)
  ultimately obtain w where "hello_exchange hs demo_sink (map Byte (frame_wire [1])) = Inr (hs, w, [], [1])"
    by (auto simp: hello_exchange_def)
  then have "connect_attempt demo_crypto demo_codecs [3] 0 demo_net (Inr demo_profile) = Inr (vp, hs, w, [], [1])"
    unfolding connect_attempt_def
    by (simp add: into vless hs hs_err_def tcp_connect_def demo_net_def) (simp add: demo_profile_def)
  then show ?thesis
    by (simp add: run_connect_def case_prod_beta)
qed

lemma demo_probe: "\<exists>s. probe_session demo_crypto True demo_live = (Inr (), s) \<and> s_handshake s = Some demo_keyed \<and>
    s_socket s \<noteq> None \<and> s_pump s = pump_new"
proof -
  let ?ct = "probe_bytes @ demo_tag [1] (derive_nonce demo_crypto (replicate 32 4) 0 Client NONCE_PURPOSE_DATA) probe_bytes []"
  let ?nonce = "derive_nonce demo_crypto (replicate 32 4) 0 Server NONCE_PURPOSE_DATA"
  let ?re = "probe_bytes @ demo_tag [2] ?nonce probe_bytes []"
  have len: "length probe_bytes = 24" "length (demo_tag k n m a) = 16" for k n m a
    by (simp_all add: probe_bytes_def demo_tag_def)
  have crypto: "aes256_encrypt demo_crypto = demo_encrypt" "aes256_decrypt demo_crypto = demo_decrypt"
    by (simp_all add: demo_crypto_def)
  have seal: "seal_record demo_crypto demo_keyed 0 probe_bytes = Inr ?ct"
    by (simp add: seal_record_def hs_keys_def demo_keyed_def demo_state_def crypto demo_encrypt_def)
  obtain w where w: "write_frame demo_sink ?ct = (Inr (), w)"
    by (simp add: write_frame_def write_all_def flush_def demo_sink_def MAX_FRAME_LEN_def len)
  have read: "read_frame (map Byte (frame_wire ?re)) = (Inr (Some ?re), [])"
    using read_frame_wire [of ?re "[]"] by (simp add: MAX_FRAME_LEN_def len)
  have "demo_decrypt [2] ?nonce ?re [] = Some probe_bytes"
    unfolding demo_aead by (simp add: demo_encrypt_def)
  then have opn: "open_record demo_crypto demo_keyed 0 ?re = Inr probe_bytes"
    by (simp add: open_record_def hs_keys_def demo_keyed_def demo_state_def crypto)
  have "live_handshake demo_live = Inr demo_keyed"
    by (simp add: live_handshake_def demo_live_def demo_keyed_def)
  moreover have "live_socket True demo_live = Inr (demo_sink, map Byte (frame_wire ?re))"
    by (simp add: live_socket_def streams_def demo_live_def empty_session_def)
  moreover have "next_out_seq demo_live = 0" "next_in_seq demo_live = 0" "\<not> s_shared demo_live"
    by (simp_all add: demo_live_def empty_session_def)
  ultimately have "probe_session demo_crypto True demo_live =
      (Inr (), demo_live\<lparr>next_out_seq := 1, s_socket := Some (w, []), next_in_seq := 1\<rparr>)"
    using w read opn by (simp add: probe_session_def seal hs_err_def set_streams_def Let_def)
  then show ?thesis
    by (simp add: demo_live_def empty_session_def)
qed

section \<open>Properties\<close>

text \<open>C10. Keys are never left unconfirmed in a session: after any sequence of entry points, with any
  arguments and network behaviour, interleaved with the pump's threads, the session's handshake has
  record keys exactly when it is completed (a failed completion, which installs keys, tears the
  session down); and only a completed handshake lets the probe pass or the pump start.\<close>

theorem session_keys_confirmed:
  assumes "digest_lengths c" "(native_step c cd)\<^sup>*\<^sup>* native_init n" "SESSION n = Some s"
  shows "(\<forall>hs. s_handshake s = Some hs \<longrightarrow> (completed hs \<longleftrightarrow> hs_record_keys hs \<noteq> None)) \<and>
    (fst (probe_session c clone_ok s) = Inr () \<or> fst (start_session clone_ok clone2_ok halt_ok block vp s) = Inr () \<longrightarrow>
      (\<exists>hs keys. s_handshake s = Some hs \<and> completed hs \<and> hs_record_keys hs = Some keys))"
proof -
  have "keys_confirmed n"
    using native_run_confirmed [OF assms(2,1)] by (simp add: keys_confirmed_def native_init_def)
  with assms(3) have *: "s_handshake s = Some hs \<Longrightarrow> completed hs \<longleftrightarrow> hs_record_keys hs \<noteq> None" for hs
    by (auto simp: keys_confirmed_def)
  obtain x s1 y s2 where "probe_session c clone_ok s = (x, s1)" "start_session clone_ok clone2_ok halt_ok block vp s = (y, s2)"
    by fastforce
  with * probe_session_ok [of c clone_ok s s1] start_session_ok [of clone_ok clone2_ok halt_ok block vp s s2] show ?thesis
    by (cases x; cases y) auto
qed

theorem session_keys_confirmed_witness:
  "\<exists>n s. (native_step demo_crypto demo_codecs)\<^sup>*\<^sup>* native_init n \<and> SESSION n = Some s \<and> s_handshake s \<noteq> None \<and>
    fst (start_session True True True True None s) \<noteq> Inr ()"
proof -
  obtain b n where n: "run_connect demo_crypto demo_codecs [3] 0 demo_net (Inr demo_profile) native_init = (Inr b, n)"
    using demo_connect by blast
  then obtain s hs where s: "SESSION n = Some s" "s_handshake s = Some hs" "hs_record_keys hs = None"
    using run_connect_ok by fastforce
  have "native_step demo_crypto demo_codecs native_init n"
    using call_connect [of demo_crypto demo_codecs native_init "[3]" 0 demo_net "Inr demo_profile"] n by simp
  then have run: "(native_step demo_crypto demo_codecs)\<^sup>*\<^sup>* native_init n"
    by blast
  have "digest_lengths demo_crypto"
    using demo_crypto_ok by (simp add: crypto_ok_def)
  from session_keys_confirmed [OF this run s(1)] s run show ?thesis
    by (intro exI [of _ n] exI [of _ s]) auto
qed

text \<open>C17. The probe and the pump never share a nonce: when a probe has passed and the pump is then
  started, every record the pump seals, in any interleaving, has a sequence number different
  from the probe's.\<close>

theorem probe_then_pump:
  assumes "probe_session c ok s = (Inr (), s1)" "start_session a b h block vp s1 = (Inr (), s2)"
    "pump_run c hs (s_pump s2) p" "length (sealed_log p) < 2 ^ 64 - 1"
  shows "next_out_seq s \<notin> set (map fst (sealed_log p))"
proof
  let ?n = "next_out_seq s"
  assume in_log: "?n \<in> set (map fst (sealed_log p))"
  have "next_out_seq s1 = ?n + 1"
    using probe_session_ok [OF assms(1)] by blast
  then obtain w r q where "start True h w r \<lparr>block_ipv6 = block, pc_vless = vp\<rparr> (?n + 1) q (s_pump s1) = (Inr (), s_pump s2)"
    using start_session_ok [OF assms(2)] by metis
  from started(2) [OF this] have "numbered (?n + 1) p"
    using pump_run_inv(2) [OF assms(3)] by blast
  then obtain i where i: "i < length (sealed_log p)" "?n = ?n + 1 + word_of_nat i"
    using in_log by (auto simp: numbered_def)
  have "(word_of_nat (Suc i) :: u64) = 1 + word_of_nat i"
    by simp
  with i(2) have "(word_of_nat (Suc i) :: u64) = 0"
    by (simp add: add.assoc)
  then have "unat (word_of_nat (Suc i) :: u64) = 0"
    by simp
  with i(1) assms(4) show False
    by (simp add: unat_of_nat del: of_nat_Suc)
qed

theorem probe_then_pump_witness:
  "\<exists>s1 s2. probe_session demo_crypto True demo_live = (Inr (), s1) \<and>
    start_session True True True True None s1 = (Inr (), s2) \<and>
    next_out_seq demo_live \<notin> set (map fst (sealed_log (s_pump s2)))"
proof -
  obtain s1 where s1: "probe_session demo_crypto True demo_live = (Inr (), s1)" "s_handshake s1 = Some demo_keyed"
    "s_socket s1 \<noteq> None" "s_pump s1 = pump_new"
    using demo_probe by blast
  obtain w r where "streams s1 = Some (w, r)"
    using s1(3) by (cases "s_shared s1") (auto simp: streams_def)
  then obtain s2 where s2: "start_session True True True True None s1 = (Inr (), s2)"
    using s1(2,4) by (simp add: start_session_def live_handshake_def live_socket_def demo_keyed_def start_def pump_new_def Let_def)
  then have "sealed_log (s_pump s2) = []"
    using start_session_ok [OF s2] started_log by blast
  with probe_then_pump [OF s1(1) s2 rtranclp.rtrancl_refl] s1(1) s2 show ?thesis
    by auto
qed

text \<open>C18. The probe and a running pump do share a nonce: the session's counter is handed to the pump by
  value and not advanced by it, so once the pump has sealed a record, a probe over the live tunnel
  seals and sends its own plaintext under the sequence number, hence the key and nonce, of
  the pump's first record.\<close>

theorem probe_while_pumping_reuses_nonce:
  assumes "start_session a b h block vp s = (Inr (), s1)" "s_handshake s = Some hs"
    "pump_run c hs (s_pump s1) p" "sealed_log p \<noteq> []"
    "seal_record c hs (next_out_seq s) probe_bytes = Inr ct" "write_frame (out_sock p) ct = (Inr (), w)"
  shows "fst (hd (sealed_log p)) = next_out_seq s \<and>
    out_sock (s_pump (snd (probe_session c True (s1\<lparr>s_pump := p\<rparr>)))) = w"
proof -
  obtain w0 r0 where start: "completed hs" "streams s = Some (w0, r0)"
    "start True h w0 r0 \<lparr>block_ipv6 = block, pc_vless = vp\<rparr> (next_out_seq s) (next_in_seq s) (s_pump s) = (Inr (), s_pump s1)"
    using start_session_ok [OF assms(1)] assms(2) by auto
  have num: "numbered (next_out_seq s) p"
    using pump_run_inv(2) [OF assms(3) started(2) [OF start(3)]] .
  have "hd (map fst (sealed_log p)) = next_out_seq s"
    using num assms(4) by (simp add: numbered_def hd_map)
  moreover have "out_sock (s_pump (snd (probe_session c True (s1\<lparr>s_pump := p\<rparr>)))) = w"
  proof -
    let ?s = "s1\<lparr>s_pump := p\<rparr>"
    have s1: "s_handshake s1 = s_handshake s" "next_out_seq s1 = next_out_seq s" "s_socket s1 = s_socket s" "s_shared s1"
      using start_session_shared [OF assms(1)] by (metis session.select_convs session.surjective session.update_convs)+
    have "live_handshake ?s = Inr hs" "live_socket True ?s = Inr (out_sock p, in_sock p)"
      using s1 assms(2) start(1,2)
      by (auto simp: live_handshake_def live_socket_def streams_def split: option.splits)
    then show ?thesis
      using s1 assms(5,6)
      by (auto simp: probe_session_def hs_err_def set_streams_def Let_def split: sum.splits prod.splits option.splits)
  qed
  ultimately show ?thesis
    using assms(4) by (simp add: hd_map)
qed

theorem probe_while_pumping_reuses_nonce_witness:
  "\<exists>s1 p ct w. start_session True True True True None demo_live = (Inr (), s1) \<and>
    pump_run demo_crypto demo_keyed (s_pump s1) p \<and> map snd (sealed_log p) = [[0x45]] \<and>
    seal_record demo_crypto demo_keyed (fst (hd (sealed_log p))) probe_bytes = Inr ct \<and>
    write_frame (out_sock p) ct = (Inr (), w) \<and>
    out_sock (s_pump (snd (probe_session demo_crypto True (s1\<lparr>s_pump := p\<rparr>)))) = w"
proof -
  obtain s1 where s1: "start_session True True True True None demo_live = (Inr (), s1)" "out_live (s_pump s1)"
    "\<not> stop_flag (s_pump s1)" "sealed_log (s_pump s1) = []" "vless_o (s_pump s1) = None"
    "block_ipv6 (config (s_pump s1))" "out_sock (s_pump s1) = demo_sink"
    by (simp add: start_session_def live_handshake_def live_socket_def streams_def demo_live_def empty_session_def
        demo_keyed_def start_def pump_new_def new_vless_out_def Let_def)
  define p where "p = outbound demo_crypto demo_keyed (TunData [0x45] no_draw) (s_pump s1)"
  have run: "pump_run demo_crypto demo_keyed (s_pump s1) p"
    unfolding p_def using s1(2) by (blast intro: step_out r_into_rtranclp)
  have p: "map snd (sealed_log p) = [[0x45]]" "room (out_sock p) = None" "flush_error (out_sock p) = None"
    unfolding p_def using demo_outbound [OF s1(2-6)] s1(7) by simp_all
  obtain ct where ct: "seal_record demo_crypto demo_keyed (next_out_seq demo_live) probe_bytes = Inr ct" "length ct = 40"
    using seal_record_some [of demo_crypto probe_bytes demo_keyed _ "next_out_seq demo_live"] demo_crypto_ok
    by (auto simp: demo_keyed_def probe_bytes_def crypto_ok_def)
  obtain w where w: "write_frame (out_sock p) ct = (Inr (), w)"
    using p(2,3) ct(2) by (simp add: write_frame_def write_all_def flush_def MAX_FRAME_LEN_def)
  have "s_handshake demo_live = Some demo_keyed" "sealed_log p \<noteq> []"
    using p(1) by (auto simp: demo_live_def)
  from probe_while_pumping_reuses_nonce [OF s1(1) this(1) run this(2) ct(1) w] s1(1) run p(1) ct(1) w show ?thesis
    by (intro exI [of _ s1] exI [of _ p]) auto
qed

text \<open>A rejected completion tears the session down: the keys, the socket, the counters and the inner
  identity are gone and the pump is told to stop.  An argument that is not base64 is the
  exception: it is refused and the session stays as it is.\<close>

theorem failed_completion_teardown:
  assumes "SESSION n = Some s" "s_handshake s = Some hs"
  shows "(b64_std_decode cd resp = Some bs \<and> complete c hs bs = (Inl (Err e), hs') \<longrightarrow>
      (\<exists>s'. complete_handshake c cd resp n = (Inl (Err (Reason (hs_reason e))), \<lparr>SESSION = Some s', VLESS_TUNNEL = None\<rparr>) \<and>
        s_handshake s' = None \<and> s_socket s' = None \<and> next_out_seq s' = 0 \<and> next_in_seq s' = 0 \<and> stop_flag (s_pump s'))) \<and>
    (b64_std_decode cd resp = None \<longrightarrow>
      complete_handshake c cd resp n = (Inl (Err (Reason ''response is not valid base64'')), n))"
proof -
  have w: "with_session (\<lambda>s. (s_handshake s, s)) n = (Some hs, n)"
    using assms by (cases n) (simp add: with_session_def)
  have t: "teardown n = \<lparr>SESSION = Some (teardown_session s), VLESS_TUNNEL = None\<rparr>"
    using assms(1) by (cases n) (simp add: teardown_def with_session_def)
  show ?thesis
    unfolding complete_handshake_def w
    by (auto simp: t hs_err_def teardown_session_def)
qed

theorem failed_completion_teardown_witness:
  "\<exists>s'. complete_handshake demo_crypto demo_codecs [9] \<lparr>SESSION = Some demo_live, VLESS_TUNNEL = None\<rparr> =
      (Inl (Err (Reason (hs_reason SessionAuthRejected))), \<lparr>SESSION = Some s', VLESS_TUNNEL = None\<rparr>) \<and> s_handshake s' = None"
proof -
  have "complete demo_crypto demo_keyed [9] = (Inl (Err SessionAuthRejected), demo_keyed)"
    by (simp add: complete_def demo_keyed_def)
  with failed_completion_teardown [of "\<lparr>SESSION = Some demo_live, VLESS_TUNNEL = None\<rparr>" demo_live demo_keyed
      demo_codecs "[9]" "[9]" demo_crypto SessionAuthRejected demo_keyed]
  show ?thesis
    by (auto simp: demo_live_def demo_codecs_def)
qed

text \<open>Reconnecting does not restart the record sequences: a second successful connect stores a
  fresh handshake, with fresh keys to come, but keeps the counters of the previous session, so its
  first record is not numbered 0 unless the tunnel was disconnected before; disconnecting resets
  them.\<close>

theorem reconnect_keeps_counters:
  assumes "SESSION n = Some s" "run_connect c cd eph time net profile n = (Inr b, n')"
  shows "(\<exists>s' hs. SESSION n' = Some s' \<and> s_handshake s' = Some hs \<and> \<not> completed hs \<and> hs_record_keys hs = None \<and>
      next_out_seq s' = next_out_seq s \<and> next_in_seq s' = next_in_seq s) \<and>
    (\<exists>s'. SESSION (disconnect_tunnel n) = Some s' \<and> next_out_seq s' = 0 \<and> next_in_seq s' = 0)"
  using run_connect_ok [OF assms(2)] assms(1)
  by (auto simp: disconnect_tunnel_def teardown_session_of teardown_session_def)

theorem reconnect_keeps_counters_witness:
  "\<exists>b n' s'. run_connect demo_crypto demo_codecs [3] 0 demo_net (Inr demo_profile)
      \<lparr>SESSION = Some (demo_live\<lparr>next_out_seq := 5\<rparr>), VLESS_TUNNEL = None\<rparr> = (Inr b, n') \<and>
    SESSION n' = Some s' \<and> next_out_seq s' = 5"
proof -
  obtain b n' where *: "run_connect demo_crypto demo_codecs [3] 0 demo_net (Inr demo_profile)
      \<lparr>SESSION = Some (demo_live\<lparr>next_out_seq := 5\<rparr>), VLESS_TUNNEL = None\<rparr> = (Inr b, n')"
    using demo_connect by blast
  from reconnect_keeps_counters [OF _ this, of "demo_live\<lparr>next_out_seq := 5\<rparr>"] * show ?thesis
    by auto
qed

end
