(* ===== verification/Replies.thy ===== *)
theory Replies
  imports Session
begin

text \<open>
  What the JNI entry points of \<open>native/src/lib.rs\<close> return: the JSON objects, the texts of the errors in them,
  and \<open>read_profile\<close>.  A JSON object is the list of its members; text is UTF-8 bytes.  The \<open>Display\<close>
  and \<open>Debug\<close> texts of \<open>std::io::Error\<close>, which depend on the operating system, are the fields of
  \<open>os_texts\<close>, and \<open>serde_json::from_str\<close> is an argument.  \<open>None\<close> is the process that a panic behind
  the C interface aborts.
\<close>

section \<open>Texts\<close>

record os_texts =
  os_display :: "io_kind \<Rightarrow> string"
  os_debug :: "io_kind \<Rightarrow> string"
  os_clone :: string

fun decimal :: "nat \<Rightarrow> string" where
  "decimal n = (if n < 10 then [] else decimal (n div 10)) @ [char_of (48 + n mod 10)]"

declare decimal.simps [simp del]

text \<open>The derived \<open>Debug\<close> of \<open>FrameError\<close> and its \<open>Display\<close>.\<close>

fun frame_debug :: "os_texts \<Rightarrow> frame_error \<Rightarrow> string" where
  "frame_debug os (Io k) = ''Io('' @ os_debug os k @ '')''"
| "frame_debug os (TooLarge n) = ''TooLarge('' @ decimal n @ '')''"
| "frame_debug os ClosedMidFrame = ''ClosedMidFrame''"

fun frame_display :: "os_texts \<Rightarrow> frame_error \<Rightarrow> string" where
  "frame_display os (Io k) = ''frame i/o error: '' @ os_display os k"
| "frame_display os (TooLarge n) = ''frame length '' @ decimal n @ '' exceeds limit''"
| "frame_display os ClosedMidFrame = ''connection closed mid-frame''"

fun reason_text :: "os_texts \<Rightarrow> reason \<Rightarrow> string" where
  "reason_text os (Reason t) = t"
| "reason_text os DnsFailed = ''DNS resolution failed''"
| "reason_text os NoAddress = ''no resolved address''"
| "reason_text os (ConnectFailed k) = ''TCP connect failed: '' @ os_display os k"
| "reason_text os (SetupFailed k) = ''socket setup failed: '' @ os_display os k"
| "reason_text os (Hello e) = ''hello send failed: '' @ frame_debug os e"
| "reason_text os (Response e) = ''response read failed: '' @ frame_debug os e"
| "reason_text os (ProbeSend e) = ''probe send failed: '' @ frame_debug os e"
| "reason_text os (ProbeRead e) = ''probe response read failed: '' @ frame_debug os e"
| "reason_text os CloneFailed = ''socket clone failed: '' @ os_clone os"

section \<open>Replies\<close>

datatype json = JBool bool | JNum nat | JText bytes

type_synonym reply = "(string \<times> json) list"

definition rejected :: "os_texts \<Rightarrow> reason \<Rightarrow> reply" where
  "rejected os e = [(''ok'', JBool False), (''reason'', JText (ascii (reason_text os e)))]"

definition answer :: "os_texts \<Rightarrow> reply \<Rightarrow> (reason, 'a) result \<Rightarrow> reply option" where
  "answer os accepted x =
     (case x of Inr _ \<Rightarrow> Some accepted | Inl (Err e) \<Rightarrow> Some (rejected os e) | Inl Panic \<Rightarrow> None)"

definition read_profile :: "(bytes \<Rightarrow> reality_profile option) \<Rightarrow> bytes option \<Rightarrow> (reason, reality_profile) result" where
  "read_profile from_str raw =
     rbind (ok_or (Reason ''unable to read profile payload'') raw) (\<lambda>raw.
       ok_or (Reason ''invalid sanitized profile JSON'') (from_str raw))"

section \<open>Entry points\<close>

definition nativeVersion :: bytes where
  "nativeVersion = ascii ''shadevpn-native/0.7.0''"

definition nativeBuildLane :: "os_texts \<Rightarrow> (bytes \<Rightarrow> reality_profile option) \<Rightarrow> bytes option \<Rightarrow> reply option" where
  "nativeBuildLane os from_str raw =
     (case build_lane (read_profile from_str raw) of
        Inr (host, port) \<Rightarrow> Some
          [(''lane'', JText (ascii ''vless-reality'')), (''transport'', JText (ascii ''tcp'')), (''host'', JText host),
           (''port'', JNum (unat port)), (''status'', JText (ascii ''validated''))]
      | Inl (Err e) \<Rightarrow> Some
          [(''lane'', JText (ascii ''invalid'')), (''status'', JText (ascii ''rejected'')),
           (''reason'', JText (ascii (reason_text os e)))]
      | Inl Panic \<Rightarrow> None)"

definition nativeValidateProfile :: "os_texts \<Rightarrow> (bytes \<Rightarrow> reality_profile option) \<Rightarrow> bytes option \<Rightarrow> reply option" where
  "nativeValidateProfile os from_str raw =
     (case validate_profile (read_profile from_str raw) of
        (valid, e) \<Rightarrow> Some [(''valid'', JBool valid), (''reason'', JText (ascii (reason_text os e)))])"

definition nativeProbeControlPlane ::
    "os_texts \<Rightarrow> (bytes \<Rightarrow> reality_profile option) \<Rightarrow> connect_result \<Rightarrow> bytes option \<Rightarrow> reply option" where
  "nativeProbeControlPlane os from_str net raw =
     (case probe_control_plane (read_profile from_str raw) net of
        Inr _ \<Rightarrow> Some [(''reachable'', JBool True)]
      | Inl (Err e) \<Rightarrow> Some [(''reachable'', JBool False), (''reason'', JText (ascii (reason_text os e)))]
      | Inl Panic \<Rightarrow> None)"

definition nativeConnectTunnel ::
    "crypto \<Rightarrow> codecs \<Rightarrow> os_texts \<Rightarrow> (bytes \<Rightarrow> reality_profile option) \<Rightarrow> bytes \<Rightarrow> u32 \<Rightarrow> connect_result \<Rightarrow> bytes option \<Rightarrow>
     native \<Rightarrow> reply option \<times> native" where
  "nativeConnectTunnel c cd os from_str eph time net raw n =
     (case run_connect c cd eph time net (read_profile from_str raw) n of
        (Inr response_b64, n) \<Rightarrow> (Some [(''ok'', JBool True), (''serverResponseB64'', JText response_b64)], n)
      | (Inl e, n) \<Rightarrow> (answer os [] (Inl e :: (reason, bytes) result), n))"

text \<open>A string the JNI cannot read counts as empty.\<close>

definition nativeCompleteHandshake :: "crypto \<Rightarrow> codecs \<Rightarrow> os_texts \<Rightarrow> bytes option \<Rightarrow> native \<Rightarrow> reply option \<times> native" where
  "nativeCompleteHandshake c cd os response_b64 n =
     (case complete_handshake c cd (case response_b64 of Some raw \<Rightarrow> raw | None \<Rightarrow> []) n of
        (x, n) \<Rightarrow> (answer os [(''ok'', JBool True), (''handshake'', JText (ascii ''completed''))] x, n))"

definition nativeProbeDataPlane :: "crypto \<Rightarrow> os_texts \<Rightarrow> bool \<Rightarrow> native \<Rightarrow> reply option \<times> native" where
  "nativeProbeDataPlane c os clone_ok n =
     (case probe_data_plane c clone_ok n of
        (x, n) \<Rightarrow> (answer os [(''ok'', JBool True), (''probe'', JText (ascii ''passed''))] x, n))"

definition nativeStartTunnelPump :: "os_texts \<Rightarrow> bool \<Rightarrow> bool \<Rightarrow> bool \<Rightarrow> bool \<Rightarrow> native \<Rightarrow> reply option \<times> native" where
  "nativeStartTunnelPump os clone_ok clone2_ok halt_ok block n =
     (case start_tunnel_pump clone_ok clone2_ok halt_ok block n of
        (x, n) \<Rightarrow> (answer os [(''ok'', JBool True), (''pump'', JText (ascii ''started''))] x, n))"

definition nativeStopPump :: "native \<Rightarrow> reply option \<times> native" where
  "nativeStopPump n = (Some [(''ok'', JBool True), (''pump'', JText (ascii ''stopped''))], stop_pump n)"

definition nativeDisconnectTunnel :: "native \<Rightarrow> reply option \<times> native" where
  "nativeDisconnectTunnel n = (Some [(''ok'', JBool True), (''tunnel'', JText (ascii ''disconnected''))], disconnect_tunnel n)"

definition nativePumpStats :: "native \<Rightarrow> reply option \<times> native" where
  "nativePumpStats n =
     (case native_pump_stats n of
        (st, n) \<Rightarrow> (Some
          [(''packetsIn'', JNum (packets_in st)), (''packetsOut'', JNum (packets_out st)), (''bytesIn'', JNum (bytes_in st)),
           (''bytesOut'', JNum (bytes_out st)), (''deliveredPackets'', JNum (delivered_packets st)),
           (''deliveredBytes'', JNum (delivered_bytes st)), (''sealErrors'', JNum (seal_errors st)),
           (''openErrors'', JNum (open_errors st)), (''droppedPackets'', JNum (dropped_packets st))], n))"

section \<open>The vocabulary of the replies\<close>

text \<open>Every fixed error text of the session's entry points; nothing in it depends on a session.\<close>

definition fixed_texts :: "string list" where
  "fixed_texts =
     [''unable to read profile payload'', ''invalid sanitized profile JSON'', ''publicKey and shortId are required'',
      ''profile UUID is required'', ''profile UUID is malformed'', ''server closed before handshake response'',
      ''response is not valid base64'', ''no handshake in progress'', ''handshake not completed'',
      ''tunnel socket not established'', ''server closed during probe'', ''probe response mismatch'',
      ''tunnel pump already running''] @
     map hs_reason [BadServerKey, BadShortId, SessionAuthRejected, SealFailed, EphemeralKeyFailed]"

text \<open>\<open>ns\<close> holds the lengths of the frames that an error may name.\<close>

fun frame_length :: "frame_error \<Rightarrow> nat option" where
  "frame_length (TooLarge k) = Some k"
| "frame_length _ = None"

fun worded :: "nat set \<Rightarrow> reason \<Rightarrow> bool" where
  "worded ns (Reason t) = (t \<in> set fixed_texts)"
| "worded ns (Hello e) = (\<forall>k. frame_length e = Some k \<longrightarrow> k \<in> ns)"
| "worded ns (Response e) = (\<forall>k. frame_length e = Some k \<longrightarrow> k \<in> ns)"
| "worded ns (ProbeSend e) = (\<forall>k. frame_length e = Some k \<longrightarrow> k \<in> ns)"
| "worded ns (ProbeRead e) = (\<forall>k. frame_length e = Some k \<longrightarrow> k \<in> ns)"
| "worded ns _ = True"

definition plain :: "nat set \<Rightarrow> (reason, 'a) result \<Rightarrow> bool" where
  "plain ns m \<longleftrightarrow> (\<forall>e. m = Inl (Err e) \<longrightarrow> worded ns e)"

fun texts :: "reply option \<Rightarrow> bytes set" where
  "texts None = {}"
| "texts (Some r) = {t. JText t \<in> snd ` set r}"

text \<open>What an outsider can predict: the fixed texts, alone, with a text of the operating system, or with the
  length of an oversized frame.  Such a length is one the peer has announced, or that of the frame the client
  has tried to send, cut off at 32 bits.\<close>

definition public_texts :: "os_texts \<Rightarrow> nat set \<Rightarrow> bytes set" where
  "public_texts os ns = {ascii (reason_text os e) | e. worded ns e} \<union>
     ascii ` {''completed'', ''passed'', ''started'', ''stopped'', ''disconnected''}"

definition announced :: "source \<Rightarrow> nat set" where
  "announced r = {k. fst (read_frame r) = Inl (TooLarge k)}"

definition hello_lengths :: "crypto \<Rightarrow> codecs \<Rightarrow> bytes \<Rightarrow> u32 \<Rightarrow> (reason, reality_profile) result \<Rightarrow> nat set" where
  "hello_lengths c cd eph time profile = {min (length (wire_hello hs)) (2 ^ 32 - 1) | p params hs. profile = Inr p \<and>
     into_params (b64_url_decode cd) (b64_std_decode cd) (hex_decode cd) (profile_material p) = Inr params \<and>
     initiate c eph time params = Inr hs}"

definition connect_lengths :: "crypto \<Rightarrow> codecs \<Rightarrow> bytes \<Rightarrow> u32 \<Rightarrow> connect_result \<Rightarrow> (reason, reality_profile) result \<Rightarrow> nat set" where
  "connect_lengths c cd eph time net profile =
     hello_lengths c cd eph time profile \<union> (case net of Connected w r \<Rightarrow> announced r | _ \<Rightarrow> {})"

abbreviation current :: "native \<Rightarrow> session" where
  "current n \<equiv> (case SESSION n of Some s \<Rightarrow> s | None \<Rightarrow> empty_session)"

definition probe_lengths :: "crypto \<Rightarrow> session \<Rightarrow> nat set" where
  "probe_lengths c s =
     {min (length ct) (2 ^ 32 - 1) | hs ct. s_handshake s = Some hs \<and> seal_record c hs (next_out_seq s) probe_bytes = Inr ct} \<union>
     (case streams s of Some (w, r) \<Rightarrow> announced r | None \<Rightarrow> {})"

section \<open>Lemmas\<close>

named_theorems plain_intros

lemma plain_Inr [plain_intros]: "plain ns (Inr x)"
  by (simp add: plain_def)

lemma plain_Err [plain_intros]: "worded ns e \<Longrightarrow> plain ns (Inl (Err e))"
  by (simp add: plain_def)

lemma plain_ok_or [plain_intros]: "worded ns e \<Longrightarrow> plain ns (ok_or e m)"
  by (cases m) (simp_all add: plain_def)

lemma plain_rbind [plain_intros]: "plain ns m \<Longrightarrow> (\<And>x. m = Inr x \<Longrightarrow> plain ns (f x)) \<Longrightarrow> plain ns (rbind m f)"
  by (cases m) (auto simp: plain_def)

lemma plain_if [plain_intros]: "(b \<Longrightarrow> plain ns x) \<Longrightarrow> (\<not> b \<Longrightarrow> plain ns y) \<Longrightarrow> plain ns (if b then x else y)"
  by simp

lemma hs_reason_fixed: "hs_reason e \<in> set fixed_texts"
  by (cases e) (simp_all add: fixed_texts_def)

lemma plain_hs_err [plain_intros]: "plain ns (hs_err m)"
  by (auto simp: plain_def hs_err_def hs_reason_fixed split: sum.split fault.split)

lemma worded_fixed [plain_intros]: "t \<in> set fixed_texts \<Longrightarrow> worded ns (Reason t)"
  by simp

lemma plain_read_profile [plain_intros]: "plain ns (read_profile from_str raw)"
  unfolding read_profile_def by (intro plain_intros) (simp_all add: fixed_texts_def)

lemma plain_live [plain_intros]: "plain ns (live_handshake s)" "plain ns (live_socket clone_ok s)"
  unfolding live_handshake_def live_socket_def by (intro plain_intros; simp add: fixed_texts_def)+

lemma write_frame_length:
  "write_frame w p = (Inl e, w') \<Longrightarrow> frame_length e = Some k \<Longrightarrow> k = min (length p) (2 ^ 32 - 1)"
  by (auto simp: write_frame_def Let_def min_def split: if_splits prod.splits sum.splits)

lemma read_frame_length:
  "read_frame r = (Inl e, r') \<Longrightarrow> frame_length e = Some k \<Longrightarrow> k \<in> announced r"
  by (cases e) (auto simp: announced_def)

lemma plain_probe:
  assumes "probe_lengths c s \<subseteq> ns"
  shows "plain ns (fst (probe_session c clone_ok s))"
proof (cases "rbind (live_handshake s) (\<lambda>hs. rbind (live_socket clone_ok s) (\<lambda>ws.
      rbind (hs_err (seal_record c hs (next_out_seq s) probe_bytes)) (\<lambda>sealed. Inr (hs, ws, sealed))))")
  case (Inl e)
  have "plain ns (rbind (live_handshake s) (\<lambda>hs. rbind (live_socket clone_ok s) (\<lambda>ws.
      rbind (hs_err (seal_record c hs (next_out_seq s) probe_bytes)) (\<lambda>sealed. Inr (hs, ws, sealed)))))"
    by (intro plain_intros)
  with Inl show ?thesis
    by (simp add: probe_session_def plain_def)
next
  case (Inr x)
  obtain hs w r ct where x: "x = (hs, (w, r), ct)"
    by (cases x) auto
  with Inr have parts: "s_handshake s = Some hs" "streams s = Some (w, r)" "seal_record c hs (next_out_seq s) probe_bytes = Inr ct"
    by (auto simp: rbind_eq_Inr live_handshake_def live_socket_def ok_or_eq_Inr split: if_splits)
  then have "min (length ct) (2 ^ 32 - 1) \<in> ns" "announced r \<subseteq> ns"
    using assms by (auto simp: probe_lengths_def)
  then have frames: "worded ns (ProbeSend e)" if "write_frame w ct = (Inl e, w')" for e w'
    using write_frame_length [OF that] by auto
  have "worded ns (ProbeRead e)" if "read_frame r = (Inl e, r')" for e r'
    using read_frame_length [OF that] \<open>announced r \<subseteq> ns\<close> by auto
  with frames show ?thesis
    using plain_hs_err [of ns "open_record c hs _ _"]
    by (auto simp: probe_session_def Inr [unfolded x] Let_def fixed_texts_def plain_def simp del: worded.simps(4,5)
        split: sum.split prod.split option.split)
qed

lemma plain_start: "plain ns (fst (start_session clone_ok clone2_ok halt_ok block vp s))"
proof -
  have "plain ns (rbind (live_handshake s) (\<lambda>hs. live_socket clone_ok s))"
    by (intro plain_intros)
  then show ?thesis
    by (auto simp: start_session_def fixed_texts_def plain_def split: sum.split prod.split start_error.split)
qed

lemma plain_complete: "plain ns (fst (complete_handshake c cd raw n))"
  using plain_hs_err
  by (auto simp: complete_handshake_def fixed_texts_def plain_def split: sum.split prod.split option.split)

lemma plain_tcp_connect [plain_intros]: "plain ns (tcp_connect net)"
  by (auto simp: tcp_connect_def plain_def split: connect_result.split)

lemma plain_hello_exchange:
  assumes "min (length (wire_hello hs)) (2 ^ 32 - 1) \<in> ns" "announced r \<subseteq> ns"
  shows "plain ns (hello_exchange hs w r)"
proof -
  have "worded ns (Hello e)" if "write_frame w (wire_hello hs) = (Inl e, w')" for e w'
    using write_frame_length [OF that] assms(1) by auto
  moreover have "worded ns (Response e)" if "read_frame r = (Inl e, r')" for e r'
    using read_frame_length [OF that] assms(2) by auto
  ultimately show ?thesis
    by (auto simp: hello_exchange_def plain_def fixed_texts_def simp del: worded.simps(2,3) split: sum.split prod.split option.split)
qed

lemma plain_profile_vless [plain_intros]: "plain ns (profile_vless cd p params)"
  unfolding profile_vless_def by (intro plain_intros) (simp_all add: fixed_texts_def)

lemma plain_prod [plain_intros]: "(\<And>a b. x = (a, b) \<Longrightarrow> plain ns (f a b)) \<Longrightarrow> plain ns (case x of (a, b) \<Rightarrow> f a b)"
  by (cases x) simp

lemma tcp_connect_Inr: "tcp_connect net = Inr (w, r) \<longleftrightarrow> net = Connected w r"
  by (auto simp: tcp_connect_def split: connect_result.splits)

lemma plain_connect:
  assumes "plain ns profile" "connect_lengths c cd eph time net profile \<subseteq> ns"
  shows "plain ns (connect_attempt c cd eph time net profile)"
  unfolding connect_attempt_def
proof (intro plain_intros assms)
  fix p params vp x w r hs
  assume "profile = Inr p" "hs_err (initiate c eph time params) = Inr hs" "tcp_connect net = Inr x" "x = (w, r)"
    "hs_err (into_params (b64_url_decode cd) (b64_std_decode cd) (hex_decode cd) (profile_material p)) = Inr params"
  then have "min (length (wire_hello hs)) (2 ^ 32 - 1) \<in> connect_lengths c cd eph time net profile"
    "announced r \<subseteq> connect_lengths c cd eph time net profile"
    by (auto simp: connect_lengths_def hello_lengths_def tcp_connect_Inr)
  with assms(2) show "plain ns (hello_exchange hs w r)"
    by (intro plain_hello_exchange) auto
qed (simp add: fixed_texts_def)

lemma texts_rejected: "worded ns e \<Longrightarrow> texts (Some (rejected os e)) \<subseteq> public_texts os ns"
  by (auto simp: rejected_def public_texts_def)

lemma texts_answer:
  assumes "plain ns x" "texts (Some accepted) \<subseteq> public_texts os ns"
  shows "texts (answer os accepted x) \<subseteq> public_texts os ns"
  using assms texts_rejected [of ns _ os] by (auto simp: answer_def plain_def split: sum.split fault.split)

lemma texts_word:
  assumes "plain ns x" "t \<in> {''completed'', ''passed'', ''started'', ''stopped'', ''disconnected''}"
  shows "texts (answer os [(''ok'', JBool True), (k, JText (ascii t))] x) \<subseteq> public_texts os ns"
  using assms by (intro texts_answer) (auto simp: public_texts_def)

lemma fst_with_session: "fst (with_session f n) = fst (f (current n))"
  by (simp add: with_session_def Let_def split: prod.split)

lemma plain_probe_data_plane: "plain (probe_lengths c (current n)) (fst (probe_data_plane c clone_ok n))"
  by (simp add: probe_data_plane_def fst_with_session plain_probe)

lemma plain_start_tunnel_pump: "plain ns (fst (start_tunnel_pump clone_ok clone2_ok halt_ok block n))"
  by (simp add: start_tunnel_pump_def fst_with_session plain_start)

lemma hello_exchange_response: "hello_exchange hs w r = Inr (hs', w', r', resp) \<Longrightarrow> fst (read_frame r) = Inr (Some resp)"
  by (auto simp: hello_exchange_def split: prod.splits sum.splits option.splits)

lemma connect_attempt_response:
  "connect_attempt c cd eph time net profile = Inr (vp, hs, w, r, resp) \<Longrightarrow>
    \<exists>w0 r0. net = Connected w0 r0 \<and> fst (read_frame r0) = Inr (Some resp)"
  by (auto simp: connect_attempt_def rbind_eq_Inr tcp_connect_Inr split: if_splits prod.splits dest!: hello_exchange_response)

lemma texts_connect:
  "texts (fst (nativeConnectTunnel c cd os from_str eph time net raw n)) \<subseteq>
    public_texts os (connect_lengths c cd eph time net (read_profile from_str raw)) \<union>
    {b64_std_encode cd resp | resp w r. net = Connected w r \<and> fst (read_frame r) = Inr (Some resp)}"
proof (cases "connect_attempt c cd eph time net (read_profile from_str raw)")
  case (Inl e)
  then have "plain (connect_lengths c cd eph time net (read_profile from_str raw)) (Inl e :: (reason, bytes) result)"
    using plain_connect [OF plain_read_profile order_refl, of c cd eph time net from_str raw] by (simp add: plain_def)
  from texts_answer [OF this, of "[]" os] show ?thesis
    using Inl by (simp add: nativeConnectTunnel_def run_connect_def le_supI1)
next
  case (Inr x)
  then show ?thesis
    by (cases x) (auto simp: nativeConnectTunnel_def run_connect_def split: prod.split dest: connect_attempt_response)
qed

text \<open>C21. The replies give nothing away: whatever the keys, the handshake, the profile and the sockets hold,
  every text in a reply of the session's entry points is one of a fixed list, alone or with a text of the
  operating system.  The only other ones are the server's response in the reply to a successful connect, as it
  came from the network, and, in the replies to a connect and to a probe, the length of a frame that is too long:
  the one the peer has announced, or that of the hello or the probe record the client could not send.\<close>

theorem replies_reveal_nothing:
  "texts (fst (nativeCompleteHandshake c cd os raw n)) \<union>
   texts (fst (nativeStartTunnelPump os clone_ok clone2_ok halt_ok block n)) \<union> texts (fst (nativeStopPump n)) \<union>
   texts (fst (nativeDisconnectTunnel n)) \<union> texts (fst (nativePumpStats n)) \<subseteq> public_texts os {} \<and>
   texts (fst (nativeProbeDataPlane c os clone_ok n)) \<subseteq> public_texts os (probe_lengths c (current n)) \<and>
   texts (fst (nativeConnectTunnel c cd os from_str eph time net raw n)) \<subseteq>
     public_texts os (connect_lengths c cd eph time net (read_profile from_str raw)) \<union>
     {b64_std_encode cd resp | resp w r. net = Connected w r \<and> fst (read_frame r) = Inr (Some resp)}"
proof -
  have "texts (fst (nativeCompleteHandshake c cd os raw n)) \<subseteq> public_texts os {}"
    by (simp add: nativeCompleteHandshake_def split_def texts_word plain_complete)
  moreover have "texts (fst (nativeProbeDataPlane c os clone_ok n)) \<subseteq> public_texts os (probe_lengths c (current n))"
    by (simp add: nativeProbeDataPlane_def split_def texts_word plain_probe_data_plane)
  moreover have "texts (fst (nativeStartTunnelPump os clone_ok clone2_ok halt_ok block n)) \<subseteq> public_texts os {}"
    by (simp add: nativeStartTunnelPump_def split_def texts_word plain_start_tunnel_pump)
  moreover have "texts (fst (nativeStopPump n)) \<union> texts (fst (nativeDisconnectTunnel n)) \<union> texts (fst (nativePumpStats n)) \<subseteq> public_texts os {}"
    by (auto simp: nativeStopPump_def nativeDisconnectTunnel_def nativePumpStats_def public_texts_def split: prod.split)
  ultimately show ?thesis
    using texts_connect by blast
qed

end
