(* ===== verification/ErrorTexts.thy ===== *)
theory ErrorTexts
  imports Replies KeySchedule "HOL-Library.Sublist"
begin

text \<open>
  The texts of the other error types: \<open>VlessError::reason\<close>, \<open>RealityError::reason\<close> and the \<open>Display\<close>
  instances of \<open>TlsError\<close> and \<open>Tls13Error\<close> (those of \<open>HandshakeError\<close> and \<open>FrameError\<close> are \<open>hs_reason\<close> and
  \<open>frame_display\<close>).
\<close>

fun vless_reason :: "vless_error \<Rightarrow> string" where
  "vless_reason Layout = ''vless fixed-layout overflow''"
| "vless_reason BadResponse = ''vless response rejected''"
| "vless_reason UuidMismatch = ''padding identity mismatch''"
| "vless_reason BadFrame = ''padding frame out of bounds''"

fun reality_reason :: "reality_error \<Rightarrow> string" where
  "reality_reason SidShortIdTooLong = ''short id exceeds 8 bytes''"
| "reality_reason SessionIdRejected = ''session id rejected''"
| "reality_reason CertRejected = ''certificate rejected''"
| "reality_reason SidLayout = ''fixed-layout overflow''"

fun tls_display :: "tls_error \<Rightarrow> string" where
  "tls_display Truncated = ''TLS record is truncated''"
| "tls_display BadRecordType = ''not a TLS ClientHello record''"
| "tls_display BadRecordVersion = ''unexpected legacy record version''"
| "tls_display LengthMismatch = ''declared length does not match payload''"
| "tls_display TrailingBytes = ''trailing bytes after ClientHello''"
| "tls_display BadServerName = ''malformed server_name extension''"
| "tls_display ShortIdTooLong = ''session id exceeds 32 bytes''"
| "tls_display NoX25519KeyShare = ''no x25519 share offered''"

fun tls13_display :: "tls13_error \<Rightarrow> string" where
  "tls13_display Truncated_13 = ''TLS record is truncated''"
| "tls13_display BadRecord = ''malformed TLS record''"
| "tls13_display BadHandshake = ''malformed TLS handshake message''"
| "tls13_display NoKeyShare_13 = ''server offered no x25519 key share''"
| "tls13_display BadCipherSuite = ''server negotiated an unsupported suite''"
| "tls13_display DecryptFailed = ''record failed to decrypt''"
| "tls13_display FinishedMismatch = ''server Finished verification failed''"
| "tls13_display CertVerifyRejected = ''certificate signature rejected''"
| "tls13_display BadScheme = ''unsupported signature scheme''"
| "tls13_display UnexpectedRecord = ''unexpected record type''"

lemmas sublist_eval = sublist_Nil_left sublist_Cons_right

text \<open>The texts tell the errors of a type apart, and those of the ClientHello never name a key or a secret.\<close>

lemma error_texts_distinct: "inj vless_reason \<and> inj reality_reason \<and> inj tls_display \<and> inj tls13_display \<and> inj hs_reason"
  by (intro conjI; rule injI; case_tac x; case_tac y; simp)

lemma tls_display_no_secret: "\<not> sublist ''secret'' (tls_display e) \<and> \<not> sublist ''key'' (tls_display e)"
  by (cases e) (simp_all add: sublist_eval)

end
