(* ===== verification/Orchestrator.thy ===== *)
theory Orchestrator
  imports Replies
begin

text \<open>
  The connection state of the Android application on top of the native library: \<open>model/ConnectionModels.kt\<close>,
  the JSON payloads of \<open>parser/VlessProfileParser.kt\<close>, and every method of
  \<open>service/ConnectionOrchestrator.kt\<close>.

  The state \<open>app\<close> is the native library's state, the published snapshot and the pending server response.
  A method is one function from a state to its \<open>Result\<close> (\<open>Inl\<close> the message of a failure) and
  the new state: its native call holds the session mutex, its update of the snapshot is a compare-and-set
  loop, and the two together are one step here.  \<open>world\<close> holds what does not change (cryptography, codecs,
  texts of the system, the JSON decoder), \<open>env\<close> what the system answers during one call: \<open>e_fault\<close> is the
  message of an exception of the call itself.  \<open>None\<close> is the process aborted by a native panic.
  Text is UTF-8 bytes; \<open>blank\<close> knows the ASCII white space.
\<close>

section \<open>Models\<close>

datatype phase = IDLE | REQUESTING_PERMISSION | PREPARING | CONNECTING_CONTROL | PROBING_DATA | CONNECTED
  | DISCONNECTED | FAILED

datatype failure_reason = NONE | PERMISSION_DENIED | INVALID_PROFILE | JNI_ERROR | CONTROL_PLANE_FAILED
  | DATA_PLANE_FAILED | VPN_REVOKED | TUN_SETUP_FAILED | UNKNOWN

record vless_profile =
  pf_name :: bytes
  pf_server_address :: bytes
  pf_server_port :: nat
  pf_uuid :: bytes
  pf_flow :: "bytes option"
  pf_security :: bytes
  pf_network :: bytes
  pf_host :: "bytes option"
  pf_path :: "bytes option"
  pf_sni :: "bytes option"
  pf_public_key :: "bytes option"
  pf_short_id :: "bytes option"
  pf_fingerprint :: "bytes option"

record snapshot =
  s_phase :: phase
  active_lane :: bytes
  status_line :: bytes
  failure :: failure_reason
  failure_detail :: bytes
  permission_granted :: bool
  tun_established :: bool
  control_plane_ready :: bool
  data_plane_ready :: bool
  handshake_initiated :: bool
  handshake_completed :: bool
  pump_running :: bool
  retry_attempt :: int
  native_version :: bytes
  selected_profile :: "vless_profile option"

definition new_snapshot :: "bytes \<Rightarrow> snapshot" where
  "new_snapshot version =
     \<lparr>s_phase = IDLE, active_lane = ascii ''none'', status_line = ascii ''Not connected'', failure = NONE,
      failure_detail = [], permission_granted = False, tun_established = False, control_plane_ready = False,
      data_plane_ready = False, handshake_initiated = False, handshake_completed = False, pump_running = False,
      retry_attempt = 0, native_version = version, selected_profile = None\<rparr>"

record app =
  a_native :: native
  a_snap :: snapshot
  a_pending :: "bytes option"

record world =
  w_crypto :: crypto
  w_codecs :: codecs
  w_os :: os_texts
  w_json :: "bytes \<Rightarrow> reality_profile option"

record env =
  e_fault :: "bytes option"
  e_ephemeral :: bytes
  e_time :: u32
  e_net :: connect_result
  e_clone :: bool
  e_clone_out :: bool
  e_clone_halt :: bool

section \<open>Payloads\<close>

definition replace_byte :: "byte \<Rightarrow> bytes \<Rightarrow> bytes \<Rightarrow> bytes" where
  "replace_byte b r t = concat (map (\<lambda>x. if x = b then r else [x]) t)"

definition escape :: "bytes \<Rightarrow> bytes" where
  "escape v = replace_byte 0x22 [0x5c, 0x22] (replace_byte 0x5c [0x5c, 0x5c] v)"

definition quoted :: "bytes \<Rightarrow> bytes" where
  "quoted v = [0x22] @ escape v @ [0x22]"

definition nullable :: "bytes option \<Rightarrow> bytes" where
  "nullable v = (case v of Some t \<Rightarrow> quoted t | None \<Rightarrow> ascii ''null'')"

definition member :: "string \<Rightarrow> bytes \<Rightarrow> bytes" where
  "member k v = [0x22] @ ascii k @ [0x22, 0x3a] @ v"

definition bool_text :: "bool \<Rightarrow> bytes" where
  "bool_text b = ascii (if b then ''true'' else ''false'')"

fun comma_separated :: "bytes list \<Rightarrow> bytes" where
  "comma_separated [] = []"
| "comma_separated [m] = m"
| "comma_separated (m # ms) = m @ ascii '','' @ comma_separated ms"

definition json_object :: "bytes list \<Rightarrow> bytes" where
  "json_object ms = ascii ''{'' @ comma_separated ms @ ascii ''}''"

definition to_sanitized_json :: "vless_profile \<Rightarrow> bytes" where
  "to_sanitized_json p = json_object
     [member ''name'' (quoted (pf_name p)), member ''serverAddress'' (quoted (pf_server_address p)),
      member ''serverPort'' (ascii (decimal (pf_server_port p))), member ''network'' (quoted (pf_network p)),
      member ''security'' (quoted (pf_security p)), member ''sni'' (nullable (pf_sni p)), member ''host'' (nullable (pf_host p)),
      member ''path'' (nullable (pf_path p)), member ''flow'' (nullable (pf_flow p)),
      member ''publicKeyPresent'' (bool_text (pf_public_key p \<noteq> None)),
      member ''shortIdPresent'' (bool_text (pf_short_id p \<noteq> None)), member ''fingerprint'' (nullable (pf_fingerprint p))]"

definition to_handshake_json :: "vless_profile \<Rightarrow> bytes" where
  "to_handshake_json p = json_object
     [member ''serverAddress'' (quoted (pf_server_address p)), member ''uuid'' (quoted (pf_uuid p)),
      member ''serverPort'' (ascii (decimal (pf_server_port p))), member ''network'' (quoted (pf_network p)),
      member ''security'' (quoted (pf_security p)), member ''sni'' (nullable (pf_sni p)),
      member ''publicKeyPresent'' (bool_text (pf_public_key p \<noteq> None)),
      member ''shortIdPresent'' (bool_text (pf_short_id p \<noteq> None)),
      member ''publicKey'' (nullable (pf_public_key p)), member ''shortId'' (nullable (pf_short_id p))]"

section \<open>Native calls\<close>

text \<open>\<open>JSONObject.optBoolean\<close> and \<open>optString\<close> on the members the replies have.\<close>

definition opt_boolean :: "string \<Rightarrow> reply \<Rightarrow> bool" where
  "opt_boolean k r = (case map_of r k of Some (JBool b) \<Rightarrow> b | _ \<Rightarrow> False)"

definition opt_string :: "string \<Rightarrow> bytes \<Rightarrow> reply \<Rightarrow> bytes" where
  "opt_string k d r = (case map_of r k of Some (JText t) \<Rightarrow> t | _ \<Rightarrow> d)"

definition native_call :: "env \<Rightarrow> (native \<Rightarrow> reply option \<times> native) \<Rightarrow> app \<Rightarrow> ((bytes + reply) \<times> app) option" where
  "native_call e f a =
     (case e_fault e of
        Some msg \<Rightarrow> Some (Inl msg, a)
      | None \<Rightarrow>
          (case f (a_native a) of
             (None, n) \<Rightarrow> None
           | (Some r, n) \<Rightarrow> Some (Inr r, a\<lparr>a_native := n\<rparr>)))"

definition require_ok :: "string \<Rightarrow> bytes + reply \<Rightarrow> bytes + reply" where
  "require_ok d x =
     (case x of
        Inl msg \<Rightarrow> Inl msg
      | Inr r \<Rightarrow> if opt_boolean ''ok'' r then Inr r else Inl (opt_string ''reason'' (ascii d) r))"

definition mutate :: "(snapshot \<Rightarrow> snapshot) \<Rightarrow> app \<Rightarrow> app" where
  "mutate f a = a\<lparr>a_snap := f (a_snap a)\<rparr>"

definition is_space :: "byte \<Rightarrow> bool" where
  "is_space b \<longleftrightarrow> b = 0x20 \<or> 0x09 \<le> b \<and> b \<le> 0x0d \<or> 0x1c \<le> b \<and> b \<le> 0x1f"

definition blank :: "bytes \<Rightarrow> bool" where
  "blank t \<longleftrightarrow> (\<forall>b \<in> set t. is_space b)"

section \<open>Methods\<close>

definition mark_permission_requested :: "app \<Rightarrow> app" where
  "mark_permission_requested =
     mutate (\<lambda>s. s\<lparr>s_phase := REQUESTING_PERMISSION, status_line := ascii ''VPN permission requested''\<rparr>)"

definition on_permission_result :: "bool \<Rightarrow> app \<Rightarrow> app" where
  "on_permission_result granted =
     mutate (\<lambda>s. s\<lparr>permission_granted := granted, s_phase := (if granted then PREPARING else FAILED),
       status_line := ascii (if granted then ''Permission granted, preparing tunnel'' else ''VPN permission denied''),
       failure := (if granted then NONE else PERMISSION_DENIED)\<rparr>)"

text \<open>\<open>loadProfile\<close>, on the result of \<open>VlessProfileParser.parse\<close> (the message of a failure may be null).\<close>

definition load_profile :: "bytes option + vless_profile \<Rightarrow> app \<Rightarrow> app" where
  "load_profile parsed =
     (case parsed of
        Inr p \<Rightarrow> mutate (\<lambda>s. s\<lparr>selected_profile := Some p, active_lane := ascii ''vless-reality'',
          status_line := ascii ''Profile loaded: '' @ pf_name p, failure := NONE\<rparr>)
      | Inl msg \<Rightarrow> mutate (\<lambda>s. s\<lparr>s_phase := FAILED, status_line := ascii ''Invalid Reality profile'',
          failure := INVALID_PROFILE, failure_detail := (case msg of Some t \<Rightarrow> t | None \<Rightarrow> [])\<rparr>))"

definition establish_tun :: "int \<Rightarrow> app \<Rightarrow> app" where
  "establish_tun fd =
     mutate (\<lambda>s. s\<lparr>tun_established := 0 \<le> fd, s_phase := (if 0 \<le> fd then CONNECTING_CONTROL else FAILED),
       status_line := ascii (if 0 \<le> fd then ''TUN established, checking control plane'' else ''Failed to establish TUN''),
       failure := (if 0 \<le> fd then NONE else TUN_SETUP_FAILED)\<rparr>)"

definition no_profile :: "bytes + 'a" where
  "no_profile = Inl (ascii ''No profile selected'')"

definition build_reality_lane :: "world \<Rightarrow> env \<Rightarrow> app \<Rightarrow> ((bytes + reply) \<times> app) option" where
  "build_reality_lane w e a =
     (case selected_profile (a_snap a) of
        None \<Rightarrow> Some (no_profile, a)
      | Some p \<Rightarrow>
          (case native_call e (\<lambda>n. (nativeBuildLane (w_os w) (w_json w) (Some (to_sanitized_json p)), n)) a of
             None \<Rightarrow> None
           | Some (Inr r, a) \<Rightarrow> Some (Inr r, a)
           | Some (Inl msg, a) \<Rightarrow> Some (Inl msg, mutate (\<lambda>s. s\<lparr>s_phase := FAILED,
               status_line := ascii ''Native lane build failed'', failure := JNI_ERROR\<rparr>) a)))"

definition probe_control :: "world \<Rightarrow> env \<Rightarrow> app \<Rightarrow> ((bytes + bool) \<times> app) option" where
  "probe_control w e a =
     (case selected_profile (a_snap a) of
        None \<Rightarrow> Some (no_profile, a)
      | Some p \<Rightarrow>
          (case native_call e (\<lambda>n. (nativeProbeControlPlane (w_os w) (w_json w) (e_net e) (Some (to_sanitized_json p)), n)) a of
             None \<Rightarrow> None
           | Some (Inl msg, a) \<Rightarrow> Some (Inl msg, a)
           | Some (Inr r, a) \<Rightarrow>
               let reachable = opt_boolean ''reachable'' r in
               Some (Inr reachable, mutate (\<lambda>s.
                 if reachable then s\<lparr>status_line := ascii ''Server reachable, initiating Reality handshake''\<rparr>
                 else s\<lparr>s_phase := FAILED, status_line := ascii ''Server unreachable'', failure := CONTROL_PLANE_FAILED\<rparr>) a)))"

text \<open>The native teardown a method makes under \<open>runCatching\<close>: an exception of the call itself is dropped.\<close>

definition quiet_disconnect :: "env \<Rightarrow> app \<Rightarrow> app" where
  "quiet_disconnect e a = (case native_call e nativeDisconnectTunnel a of Some (_, a') \<Rightarrow> a' | None \<Rightarrow> a)"

definition staged_response :: "bytes + reply \<Rightarrow> bytes + bytes" where
  "staged_response x =
     (case x of
        Inl msg \<Rightarrow> Inl msg
      | Inr r \<Rightarrow>
          let b64 = opt_string ''serverResponseB64'' [] r in
          if blank b64 then Inl (ascii ''server response missing from tunnel payload'') else Inr b64)"

definition connect_tunnel :: "world \<Rightarrow> env \<Rightarrow> env \<Rightarrow> app \<Rightarrow> ((bytes + unit) \<times> app) option" where
  "connect_tunnel w e e' a =
     (case selected_profile (a_snap a) of
        None \<Rightarrow> Some (no_profile, a)
      | Some p \<Rightarrow>
          (case native_call e (nativeConnectTunnel (w_crypto w) (w_codecs w) (w_os w) (w_json w) (e_ephemeral e) (e_time e)
                  (e_net e) (Some (to_handshake_json p))) a of
             None \<Rightarrow> None
           | Some (x, a) \<Rightarrow>
               (case staged_response (require_ok ''tunnel connection rejected'' x) of
                  Inr b64 \<Rightarrow> Some (Inr (), mutate (\<lambda>s. s\<lparr>handshake_initiated := True, control_plane_ready := True,
                    status_line := ascii ''Reality hello sent, session awaiting authentication''\<rparr>) (a\<lparr>a_pending := Some b64\<rparr>))
                | Inl msg \<Rightarrow> Some (Inl msg, mutate (\<lambda>s. s\<lparr>s_phase := FAILED,
                    status_line := ascii ''Reality tunnel connection failed'', failure := CONTROL_PLANE_FAILED,
                    failure_detail := msg, handshake_initiated := False\<rparr>) ((quiet_disconnect e' a)\<lparr>a_pending := None\<rparr>)))))"

text \<open>\<open>completeHandshake\<close>; \<open>arg\<close> is the argument, whose default is the pending response.\<close>

definition complete_connection :: "world \<Rightarrow> env \<Rightarrow> bytes option \<Rightarrow> app \<Rightarrow> ((bytes + unit) \<times> app) option" where
  "complete_connection w e arg a =
     (case arg of
        None \<Rightarrow> Some (Inl (ascii ''No server response to authenticate''), a)
      | Some b64 \<Rightarrow>
          if blank b64 then Some (Inl (ascii ''No server response to authenticate''), a)
          else case native_call e (nativeCompleteHandshake (w_crypto w) (w_codecs w) (w_os w) (Some b64)) a of
            None \<Rightarrow> None
          | Some (x, a) \<Rightarrow>
              (case require_ok ''session auth rejected'' x of
                 Inr _ \<Rightarrow> Some (Inr (), mutate (\<lambda>s. s\<lparr>handshake_completed := True, s_phase := PROBING_DATA,
                   status_line := ascii ''Handshake authenticated, probing data plane''\<rparr>) (a\<lparr>a_pending := None\<rparr>))
               | Inl msg \<Rightarrow> Some (Inl msg, mutate (\<lambda>s. s\<lparr>s_phase := FAILED, status_line := ascii ''Server response rejected'',
                   failure := CONTROL_PLANE_FAILED, failure_detail := msg, handshake_completed := False\<rparr>) (a\<lparr>a_pending := None\<rparr>))))"

text \<open>The dash in the status line is U+2014.\<close>

definition run_data_plane_probe :: "world \<Rightarrow> env \<Rightarrow> app \<Rightarrow> ((bytes + unit) \<times> app) option" where
  "run_data_plane_probe w e a =
     (case native_call e (nativeProbeDataPlane (w_crypto w) (w_os w) (e_clone e)) a of
        None \<Rightarrow> None
      | Some (x, a) \<Rightarrow>
          (case require_ok ''probe failed'' x of
             Inr _ \<Rightarrow> Some (Inr (), mutate (\<lambda>s. s\<lparr>s_phase := CONNECTED, data_plane_ready := True, retry_attempt := 0,
               status_line := ascii ''Connected '' @ [0xe2, 0x80, 0x94] @ ascii '' data-plane probe passed'', failure := NONE\<rparr>) a)
           | Inl msg \<Rightarrow> Some (Inl msg, mutate (\<lambda>s. s\<lparr>s_phase := FAILED, status_line := ascii ''Data-plane probe failed'',
               failure := DATA_PLANE_FAILED, failure_detail := msg\<rparr>) a)))"

definition start_pump :: "world \<Rightarrow> env \<Rightarrow> bool \<Rightarrow> app \<Rightarrow> ((bytes + unit) \<times> app) option" where
  "start_pump w e block a =
     (case native_call e (nativeStartTunnelPump (w_os w) (e_clone e) (e_clone_out e) (e_clone_halt e) block) a of
        None \<Rightarrow> None
      | Some (x, a) \<Rightarrow>
          (case require_ok ''pump start rejected'' x of
             Inr _ \<Rightarrow> Some (Inr (), mutate (\<lambda>s. s\<lparr>pump_running := True,
               status_line := ascii (''Tunnel pump running'' @ (if block then '' (IPv6 blocked)'' else []))\<rparr>) a)
           | Inl msg \<Rightarrow> Some (Inl msg, mutate (\<lambda>s. s\<lparr>pump_running := False, failure := JNI_ERROR, failure_detail := msg\<rparr>) a)))"

definition begin_retry :: "nat \<Rightarrow> app \<Rightarrow> app" where
  "begin_retry n a = mutate (\<lambda>s. s\<lparr>s_phase := PREPARING, status_line := ascii (''Reconnect attempt '' @ decimal n),
     failure := NONE, failure_detail := [], retry_attempt := int n, control_plane_ready := False, handshake_initiated := False,
     handshake_completed := False, data_plane_ready := False, pump_running := False\<rparr>) (a\<lparr>a_pending := None\<rparr>)"

definition report_retry_exhausted :: "app \<Rightarrow> app" where
  "report_retry_exhausted = mutate (\<lambda>s. s\<lparr>s_phase := FAILED, status_line := ascii ''Reconnect abandoned after retries'',
     failure := CONTROL_PLANE_FAILED, retry_attempt := 0, handshake_completed := False, data_plane_ready := False\<rparr>)"

definition report_retry_delay :: "nat \<Rightarrow> nat \<Rightarrow> app \<Rightarrow> app" where
  "report_retry_delay n delay = mutate (\<lambda>s. s\<lparr>status_line :=
     ascii (''Reconnecting in '' @ decimal delay @ ''ms (attempt '' @ decimal (n + 1) @ '')'')\<rparr>)"

definition disconnect :: "env \<Rightarrow> app \<Rightarrow> app" where
  "disconnect e a = mutate (\<lambda>s. s\<lparr>pump_running := False\<rparr>) ((quiet_disconnect e a)\<lparr>a_pending := None\<rparr>)"

text \<open>\<open>pumpStats\<close>; no caller in the application yet.\<close>

definition pump_stats_json :: "env \<Rightarrow> app \<Rightarrow> reply \<times> app" where
  "pump_stats_json e a =
     (case native_call e nativePumpStats a of Some (Inr r, a') \<Rightarrow> (r, a') | Some (Inl _, a') \<Rightarrow> ([], a') | None \<Rightarrow> ([], a))"

definition fail_with :: "failure_reason \<Rightarrow> string \<Rightarrow> app \<Rightarrow> app" where
  "fail_with reason message = mutate (\<lambda>s. s\<lparr>s_phase := FAILED, status_line := ascii message, failure := reason,
     control_plane_ready := False, data_plane_ready := False\<rparr>)"

definition revoke :: "app \<Rightarrow> app" where
  "revoke = mutate (\<lambda>s. s\<lparr>s_phase := DISCONNECTED, status_line := ascii ''VPN permission revoked'', failure := VPN_REVOKED,
     tun_established := False, control_plane_ready := False, data_plane_ready := False, handshake_initiated := False,
     handshake_completed := False, pump_running := False\<rparr>)"

definition reset_app :: "app \<Rightarrow> app" where
  "reset_app a = a\<lparr>a_pending := None, a_snap := (new_snapshot (native_version (a_snap a)))
     \<lparr>selected_profile := selected_profile (a_snap a), permission_granted := permission_granted (a_snap a)\<rparr>\<rparr>"

section \<open>What the methods do to the native library\<close>

lemma mutate_simps [simp]: "a_native (mutate f a) = a_native a" "a_pending (mutate f a) = a_pending a" "a_snap (mutate f a) = f (a_snap a)"
  by (simp_all add: mutate_def)

text \<open>Calls of the native library, and steps of its threads, that do not start the pump.\<close>

inductive calm_step :: "world \<Rightarrow> native \<Rightarrow> native \<Rightarrow> bool" for w where
  calm_connect: "calm_step w n (snd (run_connect (w_crypto w) (w_codecs w) eph time net profile n))"
| calm_complete: "calm_step w n (snd (complete_handshake (w_crypto w) (w_codecs w) response n))"
| calm_probe: "calm_step w n (snd (probe_data_plane (w_crypto w) clone_ok n))"
| calm_disconnect: "calm_step w n (disconnect_tunnel n)"
| calm_pump: "SESSION n = Some s \<Longrightarrow> pump_step (w_crypto w) hs (s_pump s) p \<Longrightarrow> calm_step w n (n\<lparr>SESSION := Some (s\<lparr>s_pump := p\<rparr>)\<rparr>)"

abbreviation calm_run :: "world \<Rightarrow> native \<Rightarrow> native \<Rightarrow> bool" where
  "calm_run w \<equiv> (calm_step w)\<^sup>*\<^sup>*"

abbreviation native_run :: "world \<Rightarrow> native \<Rightarrow> native \<Rightarrow> bool" where
  "native_run w \<equiv> (native_step (w_crypto w) (w_codecs w))\<^sup>*\<^sup>*"

lemma calm_native: "calm_run w n n' \<Longrightarrow> native_run w n n'"
  by (erule rtranclp_mono [THEN predicate2D, rotated]) (auto elim!: calm_step.cases intro: native_step.intros)

lemma native_calls:
  "snd (nativeConnectTunnel c cd os from_str eph time net raw n) = snd (run_connect c cd eph time net (read_profile from_str raw) n)"
  "snd (nativeCompleteHandshake c cd os b64 n) = snd (complete_handshake c cd (case b64 of Some raw \<Rightarrow> raw | None \<Rightarrow> []) n)"
  "snd (nativeProbeDataPlane c os clone_ok n) = snd (probe_data_plane c clone_ok n)"
  "snd (nativeStartTunnelPump os clone_ok clone2_ok halt_ok block n) = snd (start_tunnel_pump clone_ok clone2_ok halt_ok block n)"
  "snd (nativeDisconnectTunnel n) = disconnect_tunnel n"
  by (simp_all add: nativeConnectTunnel_def nativeCompleteHandshake_def nativeProbeDataPlane_def nativeStartTunnelPump_def
      nativeDisconnectTunnel_def split: prod.split sum.split)

lemma native_call_native:
  "native_call e f a = Some (x, a') \<Longrightarrow> a_native a' = a_native a \<or> a_native a' = snd (f (a_native a))"
  by (auto simp: native_call_def split: option.splits prod.splits)

lemma native_call_keeps:
  "native_call e f a = Some (x, a') \<Longrightarrow> a_snap a' = a_snap a \<and> a_pending a' = a_pending a"
  by (auto simp: native_call_def split: option.splits prod.splits)

lemma quiet_disconnect_native:
  "a_native (quiet_disconnect e a) = a_native a \<or> a_native (quiet_disconnect e a) = disconnect_tunnel (a_native a)"
  using native_call_native [of e nativeDisconnectTunnel a] by (auto simp: quiet_disconnect_def native_calls split: option.splits)

lemma quiet_disconnect_keeps [simp]: "a_snap (quiet_disconnect e a) = a_snap a"
  by (auto simp: quiet_disconnect_def dest: native_call_keeps split: option.splits)

lemma lane_native: "build_reality_lane w e a = Some (x, a') \<Longrightarrow> a_native a' = a_native a \<and>
    (s_phase (a_snap a') = s_phase (a_snap a) \<or> s_phase (a_snap a') = FAILED)"
  by (auto simp: build_reality_lane_def native_call_def split: option.splits sum.splits prod.splits)

lemma control_native: "probe_control w e a = Some (x, a') \<Longrightarrow> a_native a' = a_native a \<and>
    (s_phase (a_snap a') = s_phase (a_snap a) \<or> s_phase (a_snap a') = FAILED)"
  by (auto simp: probe_control_def native_call_def Let_def split: option.splits sum.splits prod.splits)

lemma disconnect_run: "calm_run w (a_native a) (a_native (quiet_disconnect e a))"
  using quiet_disconnect_native [of e a] calm_step.calm_disconnect by (metis r_into_rtranclp rtranclp.rtrancl_refl)

lemma connect_native:
  assumes "connect_tunnel w e e' a = Some (x, a')"
  shows "calm_run w (a_native a) (a_native a') \<and> (s_phase (a_snap a') = s_phase (a_snap a) \<or> s_phase (a_snap a') = FAILED)"
proof (cases "selected_profile (a_snap a)")
  case (Some p)
  let ?f = "nativeConnectTunnel (w_crypto w) (w_codecs w) (w_os w) (w_json w) (e_ephemeral e) (e_time e) (e_net e) (Some (to_handshake_json p))"
  obtain y a1 where call: "native_call e ?f a = Some (y, a1)"
    using assms Some by (auto simp: connect_tunnel_def split: option.splits)
  have "calm_run w (a_native a) (a_native a1)"
    using native_call_native [OF call] calm_step.calm_connect unfolding native_calls by (metis r_into_rtranclp rtranclp.rtrancl_refl)
  then have "calm_run w (a_native a) (a_native (quiet_disconnect e' a1))"
    using disconnect_run by (metis rtranclp_trans)
  with \<open>calm_run w (a_native a) (a_native a1)\<close> show ?thesis
    using assms Some call native_call_keeps [OF call] by (auto simp: connect_tunnel_def split: sum.splits)
qed (use assms in \<open>simp add: connect_tunnel_def\<close>)

lemma complete_native:
  assumes "complete_connection w e arg a = Some (x, a')"
  shows "calm_run w (a_native a) (a_native a') \<and>
    (s_phase (a_snap a') = s_phase (a_snap a) \<or> s_phase (a_snap a') \<in> {PROBING_DATA, FAILED})"
proof (cases "\<exists>b64. arg = Some b64 \<and> \<not> blank b64")
  case True
  then obtain b64 where b64: "arg = Some b64" "\<not> blank b64" by blast
  obtain y a1 where call: "native_call e (nativeCompleteHandshake (w_crypto w) (w_codecs w) (w_os w) (Some b64)) a = Some (y, a1)"
    using assms b64 by (auto simp: complete_connection_def split: option.splits)
  have "calm_run w (a_native a) (a_native a1)"
    using native_call_native [OF call] calm_step.calm_complete unfolding native_calls by (metis r_into_rtranclp rtranclp.rtrancl_refl)
  then show ?thesis
    using assms b64 call by (auto simp: complete_connection_def split: sum.splits)
qed (use assms in \<open>auto simp: complete_connection_def split: option.splits if_splits\<close>)

lemma require_ok_answer:
  assumes "native_call e f a = Some (y, a1)" "require_ok d y = Inr r"
    "\<And>n. f n = (answer os [(''ok'', JBool True), m] (fst (g n)), snd (g n))"
  shows "\<exists>z. g (a_native a) = (Inr z, a_native a1)"
proof -
  obtain z n where g: "g (a_native a) = (z, n)"
    by fastforce
  show ?thesis
    using assms(1,2) assms(3) [of "a_native a"] g
    by (cases z) (auto simp: native_call_def require_ok_def answer_def rejected_def opt_boolean_def
        split: option.splits sum.splits if_splits fault.splits)
qed

lemma probe_native:
  assumes "run_data_plane_probe w e a = Some (x, a')"
  shows "calm_run w (a_native a) (a_native a') \<and> s_phase (a_snap a') \<in> {CONNECTED, FAILED} \<and>
    (s_phase (a_snap a') = CONNECTED \<longrightarrow> probe_data_plane (w_crypto w) (e_clone e) (a_native a) = (Inr (), a_native a'))"
proof -
  obtain y a1 where call: "native_call e (nativeProbeDataPlane (w_crypto w) (w_os w) (e_clone e)) a = Some (y, a1)"
    using assms by (auto simp: run_data_plane_probe_def split: option.splits)
  have "calm_run w (a_native a) (a_native a1)"
    using native_call_native [OF call] calm_step.calm_probe unfolding native_calls by (metis r_into_rtranclp rtranclp.rtrancl_refl)
  moreover have "probe_data_plane (w_crypto w) (e_clone e) (a_native a) = (Inr (), a_native a1)" if "require_ok ''probe failed'' y = Inr r" for r
    using require_ok_answer [OF call that, where g = "probe_data_plane (w_crypto w) (e_clone e)" and os = "w_os w"]
    by (simp add: nativeProbeDataPlane_def split_def)
  ultimately show ?thesis
    using assms call by (auto simp: run_data_plane_probe_def split: sum.splits)
qed

lemma start_native:
  assumes "start_pump w e block a = Some (x, a')"
  shows "(a_native a' = a_native a \<or>
      a_native a' = snd (start_tunnel_pump (e_clone e) (e_clone_out e) (e_clone_halt e) block (a_native a))) \<and>
    s_phase (a_snap a') = s_phase (a_snap a)"
proof -
  obtain y a1 where call: "native_call e (nativeStartTunnelPump (w_os w) (e_clone e) (e_clone_out e) (e_clone_halt e) block) a = Some (y, a1)"
    using assms by (auto simp: start_pump_def split: option.splits)
  show ?thesis
    using native_call_native [OF call] native_call_keeps [OF call] assms call unfolding native_calls
    by (auto simp: start_pump_def split: sum.splits)
qed

end
