(* ===== verification/Backoff.thy ===== *)
theory Backoff
  imports Prelude
begin

text \<open>
  \<open>service/BackoffPolicy.kt\<close>: the delays between the connect attempts of the service.  \<open>Long\<close> arithmetic
  wraps at 64 bits.  \<open>(random.nextDouble() * capped).toLong()\<close> is the argument \<open>jitter\<close> applied to
  \<open>capped\<close>; of it the theorems use that the result lies between 0 and its argument.
\<close>

definition wrap64 :: "int \<Rightarrow> int" where
  "wrap64 x = (x + 2 ^ 63) mod 2 ^ 64 - 2 ^ 63"

record backoff =
  base_ms :: int
  max_delay_ms :: int
  max_attempts :: int
  attempt :: int

definition backoff_policy :: backoff where
  "backoff_policy = \<lparr>base_ms = 500, max_delay_ms = 15000, max_attempts = 5, attempt = 0\<rparr>"

definition next_delay_ms :: "(int \<Rightarrow> int) \<Rightarrow> backoff \<Rightarrow> int option \<times> backoff" where
  "next_delay_ms jitter b =
     (if max_attempts b \<le> attempt b then (None, b)
      else let exp = wrap64 (base_ms b * wrap64 (2 ^ nat (min (attempt b) 30)));
               capped = max (min exp (max_delay_ms b)) 0
           in (Some (if capped \<le> 0 then 0 else jitter capped), b\<lparr>attempt := attempt b + 1\<rparr>))"

definition can_retry :: "backoff \<Rightarrow> bool" where
  "can_retry b \<longleftrightarrow> attempt b < max_attempts b"

definition reset_backoff :: "backoff \<Rightarrow> backoff" where
  "reset_backoff b = b\<lparr>attempt := 0\<rparr>"

text \<open>The delays of a run of retries.\<close>

fun delays :: "(int \<Rightarrow> int) list \<Rightarrow> backoff \<Rightarrow> int option list" where
  "delays [] b = []"
| "delays (j # js) b = (case next_delay_ms j b of (d, b') \<Rightarrow> d # delays js b')"

definition fair_jitter :: "(int \<Rightarrow> int) \<Rightarrow> bool" where
  "fair_jitter j \<longleftrightarrow> (\<forall>x \<ge> 0. 0 \<le> j x \<and> j x \<le> x)"

section \<open>Properties\<close>

lemma wrap64_id: "- (2 ^ 63) \<le> x \<Longrightarrow> x < 2 ^ 63 \<Longrightarrow> wrap64 x = x"
  by (simp add: wrap64_def)

lemma next_delay_in_budget:
  assumes "fair_jitter j" "0 \<le> base_ms b" "base_ms b < 2 ^ 33" "0 \<le> attempt b" "attempt b < max_attempts b" "0 \<le> max_delay_ms b"
  shows "\<exists>d. next_delay_ms j b = (Some d, b\<lparr>attempt := attempt b + 1\<rparr>) \<and>
    0 \<le> d \<and> d \<le> min (base_ms b * 2 ^ nat (min (attempt b) 30)) (max_delay_ms b)"
proof -
  let ?k = "nat (min (attempt b) 30)"
  have k: "(2 :: int) ^ ?k \<le> 2 ^ 30" "(0 :: int) < 2 ^ ?k"
    using power_increasing [of ?k 30 "2 :: int"] by simp_all
  have "base_ms b * 2 ^ ?k \<le> (2 ^ 33 - 1) * 2 ^ 30"
    using assms(2,3) k by (intro mult_mono) auto
  then have "wrap64 (base_ms b * 2 ^ ?k) = base_ms b * 2 ^ ?k"
    using assms(2) by (intro wrap64_id) (simp_all add: order_trans [of _ 0])
  moreover have "wrap64 (2 ^ ?k) = 2 ^ ?k"
    using k by (intro wrap64_id) (auto intro: order_trans [of _ 0])
  moreover define m where "m = min (base_ms b * 2 ^ ?k) (max_delay_ms b)"
  have m: "0 \<le> m"
    using assms(2,6) by (simp add: m_def)
  ultimately have "next_delay_ms j b = (Some (if m \<le> 0 then 0 else j m), b\<lparr>attempt := attempt b + 1\<rparr>)"
    using assms(5) by (simp add: next_delay_ms_def Let_def max_def flip: m_def)
  moreover have "0 \<le> j m \<and> j m \<le> m"
    using assms(1) m by (simp add: fair_jitter_def)
  ultimately show ?thesis
    using m unfolding m_def by (auto split: if_splits)
qed

lemma delays_from:
  assumes "\<forall>j \<in> set js. fair_jitter j" "i < length js"
  shows "if k + i < 5
    then \<exists>d. delays js (backoff_policy\<lparr>attempt := int k\<rparr>) ! i = Some d \<and> 0 \<le> d \<and> d \<le> min (500 * 2 ^ (k + i)) 15000
    else delays js (backoff_policy\<lparr>attempt := int k\<rparr>) ! i = None"
  using assms
proof (induction js arbitrary: i k)
  case (Cons j js)
  let ?b = "backoff_policy\<lparr>attempt := int k\<rparr>"
  show ?case
  proof (cases "k < 5")
    case True
    then have "\<exists>d. next_delay_ms j ?b = (Some d, backoff_policy\<lparr>attempt := int (Suc k)\<rparr>) \<and> 0 \<le> d \<and> d \<le> min (500 * 2 ^ k) 15000"
      using next_delay_in_budget [of j ?b] Cons.prems(1) by (simp add: backoff_policy_def add.commute)
    then show ?thesis
      using Cons.IH [of "i - 1" "Suc k"] Cons.prems True by (cases i) auto
  next
    case False
    then have "next_delay_ms j ?b = (None, ?b)"
      by (simp add: next_delay_ms_def backoff_policy_def)
    then show ?thesis
      using Cons.IH [of "i - 1" k] Cons.prems False by (cases i) auto
  qed
qed simp

text \<open>The service's retries are bounded in number and time: with the default policy the first five delays lie
  between 0 and the smaller of \<open>500 * 2 ^ i\<close> and 15000 milliseconds, and there is no sixth.\<close>

theorem backoff_bounded:
  assumes "\<forall>j \<in> set js. fair_jitter j" "i < length js"
  shows "if i < 5 then \<exists>d. delays js backoff_policy ! i = Some d \<and> 0 \<le> d \<and> d \<le> min (500 * 2 ^ i) 15000
    else delays js backoff_policy ! i = None"
proof -
  have start: "backoff_policy\<lparr>attempt := int 0\<rparr> = backoff_policy"
    by (simp add: backoff_policy_def)
  from delays_from [OF assms, of 0] show ?thesis
    unfolding start by (simp only: add_0)
qed

theorem backoff_bounded_witness:
  "delays (replicate 6 (\<lambda>x. x)) backoff_policy ! 5 = None \<and>
   (\<exists>d. delays (replicate 6 (\<lambda>x. x)) backoff_policy ! 4 = Some d \<and> d \<le> 8000)"
proof -
  have "\<forall>j \<in> set (replicate 6 (\<lambda>x. x)). fair_jitter j"
    by (simp add: fair_jitter_def)
  from backoff_bounded [OF this, of 5] backoff_bounded [OF this, of 4] show ?thesis
    by auto
qed

text \<open>The shift is capped, but the multiplication is not: a base of \<open>2 ^ 33\<close> milliseconds or more still wraps, and
  the delay becomes 0.\<close>

lemma backoff_overflow:
  "next_delay_ms j \<lparr>base_ms = 2 ^ 33, max_delay_ms = 15000, max_attempts = 40, attempt = 30\<rparr> =
    (Some 0, \<lparr>base_ms = 2 ^ 33, max_delay_ms = 15000, max_attempts = 40, attempt = 31\<rparr>)"
  by (simp add: next_delay_ms_def wrap64_def)

end
