(* ===== verification/Service.thy ===== *)
theory Service
  imports Orchestrator Backoff
begin

text \<open>
  \<open>ShadeVpnService.kt\<close>: the service that drives the orchestrator, and the buttons of \<open>MainActivity.kt\<close> that call
  it at the same time.  A start command spawns a connect thread; \<open>conn_step\<close> is what the thread does at one
  stage of \<open>startTunnel\<close> and \<open>attemptConnect\<close>, a method of the orchestrator being one step.  Other threads come in
  between two stages; that they can also come in between the native call of a method and its update of the
  snapshot is not modelled.  A stop
  command spawns a thread that tears the tunnel down.  \<open>service_step\<close> lets all of them, the user interface and
  the pump's threads interleave.  What Android's \<open>VpnService.Builder\<close> returns, and the sleep between two
  attempts, are inputs; \<open>connectGeneration\<close> is taken not to wrap around.
\<close>

section \<open>The connect thread\<close>

datatype stage = Entering | Looping | Lane | Control | Connecting | Completing | Probing | Checking | Starting
  | Failed_attempt | Sleeping | Retrying | Ended

record connect_thread =
  c_generation :: int
  c_block :: bool
  c_fd :: int
  c_backoff :: backoff
  c_stage :: stage

text \<open>\<open>startTunnel\<close> up to its loop: the profile text (and what the parser makes of it), whether the app's own UID could be
  excluded from the TUN, and the descriptor of the TUN (-1 if none was established).\<close>

definition start_tunnel :: "bytes option \<Rightarrow> bytes option + vless_profile \<Rightarrow> bool \<Rightarrow> int \<Rightarrow> app \<Rightarrow> stage \<times> app" where
  "start_tunnel raw parsed excluded fd a =
     (if (case raw of None \<Rightarrow> True | Some t \<Rightarrow> blank t)
      then (Ended, fail_with INVALID_PROFILE ''No profile supplied to service'' a)
      else let a = load_profile parsed (on_permission_result True a) in
        case parsed of
          Inl _ \<Rightarrow> (Ended, a)
        | Inr _ \<Rightarrow>
            if \<not> excluded then (Ended, fail_with TUN_SETUP_FAILED ''Could not exclude own UID from TUN'' a)
            else if fd < 0 then (Ended, establish_tun fd a) else (Looping, establish_tun fd a))"

definition proceed :: "stage \<Rightarrow> connect_thread \<Rightarrow> ((bytes + 'a) \<times> app) option \<Rightarrow> (connect_thread \<times> app) option" where
  "proceed next k res =
     (case res of
        None \<Rightarrow> None
      | Some (Inr _, a) \<Rightarrow> Some (k\<lparr>c_stage := next\<rparr>, a)
      | Some (Inl _, a) \<Rightarrow> Some (k\<lparr>c_stage := Failed_attempt\<rparr>, a))"

text \<open>One step of a thread that has entered the loop; \<open>gen\<close> is the current generation.\<close>

definition conn_step ::
    "world \<Rightarrow> env \<Rightarrow> env \<Rightarrow> (int \<Rightarrow> int) \<Rightarrow> int \<Rightarrow> connect_thread \<Rightarrow> app \<Rightarrow> (connect_thread \<times> app) option" where
  "conn_step w e e' jitter gen k a =
     (case c_stage k of
        Entering \<Rightarrow> None
      | Looping \<Rightarrow> Some (k\<lparr>c_stage := (if tun_established (a_snap a) then Lane else Ended)\<rparr>, a)
      | Lane \<Rightarrow>
          (case build_reality_lane w e a of
             None \<Rightarrow> None
           | Some (Inr _, a) \<Rightarrow> Some (k\<lparr>c_stage := Control\<rparr>, a)
           | Some (Inl _, a) \<Rightarrow>
               Some (k\<lparr>c_stage := Ended\<rparr>, disconnect e' (fail_with JNI_ERROR ''Failed to build Reality lane'' a)))
      | Control \<Rightarrow> proceed Connecting k (probe_control w e a)
      | Connecting \<Rightarrow> proceed Completing k (connect_tunnel w e e' a)
      | Completing \<Rightarrow> proceed Probing k (complete_connection w e (a_pending a) a)
      | Probing \<Rightarrow> proceed Checking k (run_data_plane_probe w e a)
      | Checking \<Rightarrow> Some (k\<lparr>c_stage := (if c_generation k \<noteq> gen then Ended else Starting)\<rparr>, a)
      | Starting \<Rightarrow> map_option (\<lambda>(_, a). (k\<lparr>c_stage := Ended\<rparr>, a)) (start_pump w e (c_block k) a)
      | Failed_attempt \<Rightarrow>
          if c_generation k \<noteq> gen then Some (k\<lparr>c_stage := Ended\<rparr>, a)
          else (case next_delay_ms jitter (c_backoff k) of
                  (None, _) \<Rightarrow> Some (k\<lparr>c_stage := Ended\<rparr>, report_retry_exhausted a)
                | (Some delay, b) \<Rightarrow> Some (k\<lparr>c_backoff := b, c_stage := Sleeping\<rparr>,
                    report_retry_delay (nat (attempt b)) (nat delay) a))
      | Sleeping \<Rightarrow> Some (k\<lparr>c_stage := (if c_generation k \<noteq> gen then Ended else Retrying)\<rparr>, a)
      | Retrying \<Rightarrow> Some (k\<lparr>c_stage := Looping\<rparr>, begin_retry (nat (attempt (c_backoff k)) + 1) a)
      | Ended \<Rightarrow> None)"

section \<open>The service\<close>

record service =
  sv_app :: app
  sv_generation :: int
  sv_threads :: "connect_thread list"
  sv_stopping :: nat

definition service_init :: "bytes \<Rightarrow> service" where
  "service_init version =
     \<lparr>sv_app = \<lparr>a_native = native_init, a_snap = new_snapshot version, a_pending = None\<rparr>, sv_generation = 0,
      sv_threads = [], sv_stopping = 0\<rparr>"

text \<open>\<open>onStartCommand\<close>, \<open>stopTunnel\<close>, \<open>onRevoke\<close>, \<open>onDestroy\<close>.\<close>

definition command_start :: "bool \<Rightarrow> service \<Rightarrow> service" where
  "command_start block s =
     (let g = sv_generation s + 1 in
      s\<lparr>sv_generation := g, sv_threads := sv_threads s @
        [\<lparr>c_generation = g, c_block = block, c_fd = -1, c_backoff = backoff_policy, c_stage = Entering\<rparr>]\<rparr>)"

definition command_stop :: "service \<Rightarrow> service" where
  "command_stop s = s\<lparr>sv_generation := sv_generation s + 1, sv_stopping := sv_stopping s + 1\<rparr>"

definition stop_tunnel :: "env \<Rightarrow> service \<Rightarrow> service" where
  "stop_tunnel e s = s\<lparr>sv_app := disconnect e (sv_app s)\<rparr>"

definition on_revoke :: "env \<Rightarrow> service \<Rightarrow> service" where
  "on_revoke e s = (case stop_tunnel e (s\<lparr>sv_generation := sv_generation s + 1\<rparr>) of s \<Rightarrow> s\<lparr>sv_app := revoke (sv_app s)\<rparr>)"

definition on_destroy :: "env \<Rightarrow> service \<Rightarrow> service" where
  "on_destroy e s = stop_tunnel e (s\<lparr>sv_generation := sv_generation s + 1\<rparr>)"

definition enter_thread :: "nat \<Rightarrow> bytes option \<Rightarrow> bytes option + vless_profile \<Rightarrow> bool \<Rightarrow> int \<Rightarrow> service \<Rightarrow> service" where
  "enter_thread i raw parsed excluded fd s =
     (case start_tunnel raw parsed excluded fd (sv_app s) of
        (st, a) \<Rightarrow> s\<lparr>sv_app := a, sv_threads := (sv_threads s)[i := (sv_threads s ! i)\<lparr>c_fd := fd, c_stage := st\<rparr>]\<rparr>)"

definition set_app :: "app \<Rightarrow> service \<Rightarrow> service" where
  "set_app a s = s\<lparr>sv_app := a\<rparr>"

inductive service_step :: "world \<Rightarrow> service \<Rightarrow> service \<Rightarrow> bool" for w where
  sv_start: "service_step w s (command_start block s)"
| sv_stop: "service_step w s (command_stop s)"
| sv_stop_thread: "0 < sv_stopping s \<Longrightarrow> service_step w s (stop_tunnel e (s\<lparr>sv_stopping := sv_stopping s - 1\<rparr>))"
| sv_revoke: "service_step w s (on_revoke e s)"
| sv_destroy: "service_step w s (on_destroy e s)"
| sv_enter: "i < length (sv_threads s) \<Longrightarrow> c_stage (sv_threads s ! i) = Entering \<Longrightarrow>
    service_step w s (enter_thread i raw parsed excluded fd s)"
| sv_thread: "i < length (sv_threads s) \<Longrightarrow>
    conn_step w e e' jitter (sv_generation s) (sv_threads s ! i) (sv_app s) = Some (k, a) \<Longrightarrow>
    service_step w s (s\<lparr>sv_app := a, sv_threads := (sv_threads s)[i := k]\<rparr>)"
| ui_permission: "service_step w s (set_app (mark_permission_requested (sv_app s)) s)"
| ui_permission_result: "service_step w s (set_app (on_permission_result granted (sv_app s)) s)"
| ui_load: "service_step w s (set_app (load_profile parsed (sv_app s)) s)"
| ui_control: "probe_control w e (sv_app s) = Some (x, a) \<Longrightarrow> service_step w s (set_app a s)"
| ui_probe: "handshake_completed (a_snap (sv_app s)) \<Longrightarrow> run_data_plane_probe w e (sv_app s) = Some (x, a) \<Longrightarrow>
    service_step w s (set_app a s)"
| ui_disconnect: "service_step w s (set_app (disconnect e (sv_app s)) s)"
| native_threads: "SESSION (a_native (sv_app s)) = Some t \<Longrightarrow> pump_step (w_crypto w) hs (s_pump t) p \<Longrightarrow>
    service_step w s (set_app ((sv_app s)\<lparr>a_native := (a_native (sv_app s))\<lparr>SESSION := Some (t\<lparr>s_pump := p\<rparr>)\<rparr>\<rparr>) s)"

abbreviation service_run :: "world \<Rightarrow> service \<Rightarrow> service \<Rightarrow> bool" where
  "service_run w \<equiv> (service_step w)\<^sup>*\<^sup>*"

abbreviation sv_native :: "service \<Rightarrow> native" where
  "sv_native s \<equiv> a_native (sv_app s)"

abbreviation sv_phase :: "service \<Rightarrow> phase" where
  "sv_phase s \<equiv> s_phase (a_snap (sv_app s))"

section \<open>Effects on the native library and on the phase\<close>

text \<open>What one step may do: calls other than \<open>start\<close>, or a start of the pump with the shield as \<open>block\<close>; and it
  publishes CONNECTED only if it was published before or a probe passed in this very step.\<close>

definition connects :: "world \<Rightarrow> app \<Rightarrow> app \<Rightarrow> bool" where
  "connects w a a' \<longleftrightarrow> (s_phase (a_snap a') = CONNECTED \<longrightarrow> s_phase (a_snap a) = CONNECTED \<or>
     (\<exists>clone_ok. probe_data_plane (w_crypto w) clone_ok (a_native a) = (Inr (), a_native a')))"

definition started :: "bool \<Rightarrow> app \<Rightarrow> app \<Rightarrow> bool" where
  "started block a a' \<longleftrightarrow> (\<exists>ok out_ok halt_ok. a_native a' = snd (start_tunnel_pump ok out_ok halt_ok block (a_native a)))"

lemma disconnect_effect: "calm_run w (a_native a) (a_native (disconnect e a)) \<and> s_phase (a_snap (disconnect e a)) = s_phase (a_snap a)"
  using disconnect_run [of w a e] by (simp add: disconnect_def)

lemma proceedE:
  assumes "proceed next k res = Some (k', a')"
  obtains x where "res = Some (x, a')" "k' = k\<lparr>c_stage := next\<rparr> \<or> k' = k\<lparr>c_stage := Failed_attempt\<rparr>"
  using assms by (auto simp: proceed_def split: option.splits sum.splits prod.splits)

lemma conn_step_keeps:
  assumes "conn_step w e e' jitter gen k a = Some (k', a')"
  shows "c_block k' = c_block k \<and> c_generation k' = c_generation k \<and> c_fd k' = c_fd k"
  using assms unfolding conn_step_def
  by (auto elim!: proceedE split: stage.splits option.splits sum.splits prod.splits if_splits)

lemma fail_effect: "a_native (fail_with r m a) = a_native a \<and> s_phase (a_snap (fail_with r m a)) = FAILED"
  by (simp add: fail_with_def)

lemma conn_step_effect:
  assumes "conn_step w e e' jitter gen k a = Some (k', a')"
  shows "connects w a a' \<and> (calm_run w (a_native a) (a_native a') \<or> started (c_block k) a a')"
proof (cases "c_stage k")
  case Lane
  obtain x a1 where l: "build_reality_lane w e a = Some (x, a1)"
    using assms Lane by (auto simp: conn_step_def split: option.splits)
  show ?thesis
    using assms Lane l lane_native [OF l] disconnect_effect [of w "fail_with JNI_ERROR ''Failed to build Reality lane'' a1" e']
    by (cases x) (auto simp: conn_step_def connects_def fail_effect)
next
  case Control
  then obtain x where "probe_control w e a = Some (x, a')"
    using assms by (auto simp: conn_step_def elim: proceedE)
  from control_native [OF this] show ?thesis
    by (auto simp: connects_def)
next
  case Connecting
  then obtain x where "connect_tunnel w e e' a = Some (x, a')"
    using assms by (auto simp: conn_step_def elim: proceedE)
  from connect_native [OF this] show ?thesis
    by (auto simp: connects_def)
next
  case Completing
  then obtain x where "complete_connection w e (a_pending a) a = Some (x, a')"
    using assms by (auto simp: conn_step_def elim: proceedE)
  from complete_native [OF this] show ?thesis
    by (auto simp: connects_def)
next
  case Probing
  then obtain x where "run_data_plane_probe w e a = Some (x, a')"
    using assms by (auto simp: conn_step_def elim: proceedE)
  from probe_native [OF this] show ?thesis
    by (auto simp: connects_def)
next
  case Starting
  then obtain x where "start_pump w e (c_block k) a = Some (x, a')"
    using assms by (auto simp: conn_step_def)
  from start_native [OF this] show ?thesis
    by (auto simp: connects_def started_def)
next
  case Failed_attempt
  then have "a_native a' = a_native a \<and> (s_phase (a_snap a') = s_phase (a_snap a) \<or> s_phase (a_snap a') = FAILED)"
    using assms by (cases "next_delay_ms jitter (c_backoff k)"; cases "fst (next_delay_ms jitter (c_backoff k))"; cases "c_generation k = gen")
      (auto simp: conn_step_def report_retry_exhausted_def report_retry_delay_def)
  then show ?thesis
    by (auto simp: connects_def)
next
  case Retrying
  then have "a_native a' = a_native a \<and> s_phase (a_snap a') = PREPARING"
    using assms by (auto simp: conn_step_def begin_retry_def)
  then show ?thesis
    by (simp add: connects_def)
next
  case Looping
  then have "a' = a"
    using assms by (simp add: conn_step_def)
  then show ?thesis
    by (simp add: connects_def)
next
  case Checking
  then have "a' = a"
    using assms by (simp add: conn_step_def)
  then show ?thesis
    by (simp add: connects_def)
next
  case Sleeping
  then have "a' = a"
    using assms by (simp add: conn_step_def)
  then show ?thesis
    by (simp add: connects_def)
qed (use assms in \<open>simp_all add: conn_step_def\<close>)

lemma start_tunnel_effect:
  "start_tunnel raw parsed excluded fd a = (st, a') \<Longrightarrow> a_native a' = a_native a \<and> s_phase (a_snap a') \<noteq> CONNECTED"
  by (auto simp: start_tunnel_def Let_def fail_effect load_profile_def on_permission_result_def establish_tun_def
      split: if_splits sum.splits option.splits)

lemma service_step_effect:
  assumes "service_step w s s'"
  shows "connects w (sv_app s) (sv_app s') \<and>
    (calm_run w (sv_native s) (sv_native s') \<or> (\<exists>k \<in> set (sv_threads s). started (c_block k) (sv_app s) (sv_app s')))"
  using assms
proof (cases rule: service_step.cases)
  case (sv_enter i raw parsed excluded fd)
  obtain st a where a: "start_tunnel raw parsed excluded fd (sv_app s) = (st, a)"
    by fastforce
  then have "sv_app s' = a"
    using sv_enter(1) by (simp add: enter_thread_def)
  then show ?thesis
    using start_tunnel_effect [OF a] by (simp add: connects_def)
next
  case (sv_thread i e e' jitter k a)
  from conn_step_effect [OF sv_thread(3)] sv_thread(1,2) show ?thesis
    by auto
next
  case (ui_control e x a)
  from control_native [OF ui_control(2)] ui_control(1) show ?thesis
    by (auto simp: connects_def set_app_def)
next
  case (ui_probe e x a)
  from probe_native [OF ui_probe(3)] ui_probe(1) show ?thesis
    by (auto simp: connects_def set_app_def)
next
  case (native_threads t hs p)
  then have "calm_step w (sv_native s) (sv_native s')"
    by (auto simp: set_app_def intro: calm_step.calm_pump)
  with native_threads show ?thesis
    by (auto simp: set_app_def connects_def)
next
  case (sv_stop_thread e)
  then show ?thesis
    using disconnect_effect [of w "sv_app s" e] by (simp add: stop_tunnel_def connects_def)
next
  case (sv_revoke e)
  then show ?thesis
    using disconnect_effect [of w "sv_app s" e] by (simp add: on_revoke_def stop_tunnel_def revoke_def connects_def)
next
  case (sv_destroy e)
  then show ?thesis
    using disconnect_effect [of w "sv_app s" e] by (simp add: on_destroy_def stop_tunnel_def connects_def)
next
  case (ui_disconnect e)
  then show ?thesis
    using disconnect_effect [of w "sv_app s" e] by (simp add: set_app_def connects_def)
qed (simp_all add: command_start_def command_stop_def set_app_def Let_def connects_def mark_permission_requested_def
    on_permission_result_def load_profile_def split: sum.split)

section \<open>The leak shield\<close>

text \<open>A pump that is running has the shield up, and no pump has sealed an IPv6 packet.\<close>

definition shield_up :: "pump \<Rightarrow> bool" where
  "shield_up p \<longleftrightarrow> (out_live p \<longrightarrow> block_ipv6 (config p)) \<and> (\<forall>x \<in> set (sealed_log p). ip_version (snd x) \<noteq> 6)"

definition all_shielded :: "native \<Rightarrow> bool" where
  "all_shielded n \<longleftrightarrow> (\<forall>t. SESSION n = Some t \<longrightarrow> shield_up (s_pump t))"

lemma shield_up_step:
  assumes "pump_step c hs p p'" "shield_up p"
  shows "shield_up p'"
  using assms(1)
proof (cases rule: pump_step.cases)
  case (step_out ev)
  then show ?thesis
    using assms(2) by (cases rule: outbound_cases [of c hs ev p]) (auto simp: shield_up_def config_outbound)
qed (use assms(2) in \<open>auto simp: shield_up_def\<close>)

lemma shield_up_fresh: "shield_up pump_new"
  by (simp add: shield_up_def pump_new_def)

lemma shielded_with:
  assumes "all_shielded n" "\<And>s. shield_up (s_pump s) \<Longrightarrow> shield_up (s_pump (snd (f s)))"
  shows "all_shielded (snd (with_session f n))"
  using assms shield_up_fresh
  by (auto simp: all_shielded_def with_session_def Let_def empty_session_def split: option.split prod.splits)
    (metis session.select_convs(2) snd_conv)+

lemma shield_up_streams: "shield_up (s_pump (set_streams w r s)) = shield_up (s_pump s)"
  by (simp add: set_streams_def shield_up_def)

lemma shield_up_probe: "shield_up (s_pump s) \<Longrightarrow> shield_up (s_pump (snd (probe_session c ok s)))"
  by (auto simp: probe_session_def Let_def shield_up_streams split: sum.split prod.split option.split)

lemma shield_up_start: "shield_up (s_pump s) \<Longrightarrow> shield_up (s_pump (snd (start_session a b h True vp s)))"
  by (auto simp: start_session_def start_def shield_up_def Let_def split: sum.split prod.split)

lemma shield_up_stop [simp]: "shield_up (stop p) = shield_up p"
  by (simp add: shield_up_def)

lemma complete_pump:
  assumes "all_shielded n"
  shows "all_shielded (snd (complete_handshake c cd raw n))"
proof -
  obtain st n1 where st: "with_session (\<lambda>s. (s_handshake s, s)) n = (st, n1)"
    by fastforce
  have n1: "all_shielded n1"
    using shielded_with [OF assms, of "\<lambda>s. (s_handshake s, s)"] st by simp
  have keep: "all_shielded (snd (with_session (\<lambda>s. ((), s\<lparr>s_handshake := h\<rparr>)) n1))" for h
    by (rule shielded_with [OF n1]) simp
  have tear: "all_shielded (teardown n1)"
    using n1 shield_up_fresh
    by (auto simp: all_shielded_def teardown_session_of teardown_session_def empty_session_def split: option.split)
  show ?thesis
    using n1 keep tear unfolding complete_handshake_def st by (auto simp: case_prod_beta split: option.split sum.split)
qed

lemma calm_step_shield:
  assumes "calm_step w n n'" "all_shielded n"
  shows "all_shielded n'"
  using assms(1)
proof (cases rule: calm_step.cases)
  case (calm_connect eph time net profile)
  obtain x where x: "run_connect (w_crypto w) (w_codecs w) eph time net profile n = (x, n')"
    using calm_connect by (cases "run_connect (w_crypto w) (w_codecs w) eph time net profile n") auto
  show ?thesis
  proof (cases x)
    case (Inl e)
    then show ?thesis
      using run_connect_fail x assms(2) by metis
  next
    case (Inr b)
    with run_connect_ok [of "w_crypto w" "w_codecs w" eph time net profile n b n'] x assms(2) shield_up_fresh show ?thesis
      by (auto simp: all_shielded_def empty_session_def split: option.splits)
  qed
next
  case (calm_complete response)
  then show ?thesis
    using complete_pump [OF assms(2)] by simp
next
  case (calm_probe ok)
  then show ?thesis
    using shielded_with [OF assms(2), of "probe_session (w_crypto w) ok"] shield_up_probe by (simp add: probe_data_plane_def)
next
  case calm_disconnect
  then show ?thesis
    using assms(2) shield_up_fresh
    by (auto simp: all_shielded_def disconnect_tunnel_def teardown_session_of teardown_session_def empty_session_def split: option.split)
next
  case (calm_pump s hs p)
  then show ?thesis
    using assms(2) shield_up_step [of "w_crypto w" hs "s_pump s" p] by (auto simp: all_shielded_def)
qed

lemma calm_run_shield: "calm_run w n n' \<Longrightarrow> all_shielded n \<Longrightarrow> all_shielded n'"
  by (induction rule: rtranclp_induct) (auto simp: calm_step_shield)

lemma started_shield: "started True a a' \<Longrightarrow> all_shielded (a_native a) \<Longrightarrow> all_shielded (a_native a')"
  using shielded_with [of "a_native a" "start_session _ _ _ True (VLESS_TUNNEL (a_native a))"] shield_up_start
  by (auto simp: started_def start_tunnel_pump_def)

text \<open>Threads are never forgotten, and keep the switch they were started with.\<close>

lemma map_block_update: "i < length ks \<Longrightarrow> c_block k = c_block (ks ! i) \<Longrightarrow> map c_block (ks[i := k]) = map c_block ks"
  by (rule nth_equalityI) (auto simp: nth_list_update)

lemma threads_grow:
  assumes "service_step w s s'"
  shows "\<exists>new. map c_block (sv_threads s') = map c_block (sv_threads s) @ new"
  using assms
proof (cases rule: service_step.cases)
  case (sv_enter i raw parsed excluded fd)
  obtain st a where "start_tunnel raw parsed excluded fd (sv_app s) = (st, a)"
    by fastforce
  with sv_enter(1,2) show ?thesis
    by (simp add: enter_thread_def map_block_update)
next
  case (sv_thread i e e' jitter k a)
  then show ?thesis
    using conn_step_keeps [OF sv_thread(3)] by (simp add: map_block_update)
qed (auto simp: command_start_def command_stop_def stop_tunnel_def on_revoke_def on_destroy_def set_app_def Let_def)

lemma threads_shielded_before:
  assumes "service_step w s s'" "\<forall>k \<in> set (sv_threads s'). c_block k"
  shows "\<forall>k \<in> set (sv_threads s). c_block k"
proof -
  obtain new where new: "map c_block (sv_threads s') = map c_block (sv_threads s) @ new"
    using threads_grow [OF assms(1)] by blast
  have "c_block ` set (sv_threads s) \<subseteq> c_block ` set (sv_threads s')"
    using arg_cong [OF new, of set] by auto
  with assms(2) show ?thesis
    by auto
qed

lemma service_run_shield:
  "service_run w s0 s \<Longrightarrow> all_shielded (sv_native s0) \<Longrightarrow> \<forall>k \<in> set (sv_threads s). c_block k \<Longrightarrow> all_shielded (sv_native s)"
proof (induction rule: rtranclp_induct)
  case (step s s')
  have before: "\<forall>k \<in> set (sv_threads s). c_block k"
    using threads_shielded_before [OF step.hyps(2) step.prems(2)] .
  then have "all_shielded (sv_native s)"
    using step by blast
  then show ?case
    using service_step_effect [OF step.hyps(2)] before calm_run_shield started_shield by metis
qed simp

section \<open>The life of a connect thread\<close>

text \<open>The rank counts the steps a thread has left: those of the running attempt, and at most twelve for each retry its
  backoff still allows.\<close>

fun stage_rank :: "stage \<Rightarrow> nat" where
  "stage_rank Entering = 11"
| "stage_rank Looping = 10"
| "stage_rank Lane = 9"
| "stage_rank Control = 8"
| "stage_rank Connecting = 7"
| "stage_rank Completing = 6"
| "stage_rank Probing = 5"
| "stage_rank Checking = 4"
| "stage_rank Starting = 3"
| "stage_rank Failed_attempt = 1"
| "stage_rank Sleeping = 12"
| "stage_rank Retrying = 11"
| "stage_rank Ended = 0"

definition thread_rank :: "connect_thread \<Rightarrow> nat" where
  "thread_rank k = stage_rank (c_stage k) + 12 * nat (max_attempts (c_backoff k) - attempt (c_backoff k))"

lemma next_delay_budget:
  "next_delay_ms j b = (Some d, b') \<Longrightarrow> attempt b < max_attempts b \<and> b' = b\<lparr>attempt := attempt b + 1\<rparr>"
  by (auto simp: next_delay_ms_def Let_def split: if_splits)

lemma proceed_rank:
  "proceed next k res = Some (k', a') \<Longrightarrow> 1 < stage_rank (c_stage k) \<Longrightarrow> stage_rank next < stage_rank (c_stage k) \<Longrightarrow>
    thread_rank k' < thread_rank k"
  by (auto elim!: proceedE simp: thread_rank_def)

lemma conn_step_rank:
  assumes "conn_step w e e' jitter gen k a = Some (k', a')"
  shows "thread_rank k' < thread_rank k"
proof (cases "c_stage k")
  case Failed_attempt
  obtain d b where d: "next_delay_ms jitter (c_backoff k) = (d, b)"
    by fastforce
  show ?thesis
  proof (cases "c_generation k = gen \<and> d \<noteq> None")
    case True
    then show ?thesis
      using assms Failed_attempt d next_delay_budget [of jitter "c_backoff k"]
      by (auto simp: conn_step_def thread_rank_def)
  next
    case False
    then have "k' = k\<lparr>c_stage := Ended\<rparr>"
      using assms Failed_attempt d by (auto simp: conn_step_def split: if_splits)
    then show ?thesis
      using Failed_attempt by (simp add: thread_rank_def)
  qed
next
  case Lane
  then have "k' = k\<lparr>c_stage := Control\<rparr> \<or> k' = k\<lparr>c_stage := Ended\<rparr>"
    using assms by (auto simp: conn_step_def split: option.splits prod.splits sum.splits)
  then show ?thesis
    using Lane by (auto simp: thread_rank_def)
qed (use assms in \<open>auto simp: conn_step_def thread_rank_def elim!: proceedE\<close>)

text \<open>What one thread does while everything else goes on around it: each element is what the thread finds at one
  of its steps.\<close>

type_synonym surroundings = "env \<times> env \<times> (int \<Rightarrow> int) \<times> int \<times> app"

fun thread_steps :: "world \<Rightarrow> surroundings list \<Rightarrow> connect_thread \<Rightarrow> connect_thread option" where
  "thread_steps w [] k = Some k"
| "thread_steps w ((e, e', jitter, gen, a) # xs) k =
     (case conn_step w e e' jitter gen k a of None \<Rightarrow> None | Some (k', _) \<Rightarrow> thread_steps w xs k')"

lemma thread_steps_rank: "thread_steps w xs k = Some k' \<Longrightarrow> length xs + thread_rank k' \<le> thread_rank k"
proof (induction xs arbitrary: k)
  case (Cons x xs)
  obtain e e' jitter gen a where x: "x = (e, e', jitter, gen, a)"
    by (cases x)
  with Cons.prems obtain k1 a1 where "conn_step w e e' jitter gen k a = Some (k1, a1)" "thread_steps w xs k1 = Some k'"
    by (auto split: option.splits)
  with Cons.IH [of k1] conn_step_rank show ?case
    by fastforce
qed simp

lemma conn_step_entered: "conn_step w e e' jitter gen k a = Some (k', a') \<Longrightarrow> c_stage k' \<noteq> Entering"
  by (cases "c_stage k") (auto simp: conn_step_def elim!: proceedE split: option.splits prod.splits sum.splits if_splits)

lemma thread_steps_entered: "thread_steps w xs k = Some k' \<Longrightarrow> c_stage k \<noteq> Entering \<Longrightarrow> c_stage k' \<noteq> Entering"
proof (induction xs arbitrary: k)
  case (Cons x xs)
  obtain e e' jitter gen a where x: "x = (e, e', jitter, gen, a)"
    by (cases x)
  with Cons.prems(1) obtain k1 a1 where "conn_step w e e' jitter gen k a = Some (k1, a1)" "thread_steps w xs k1 = Some k'"
    by (auto split: option.splits)
  with Cons.IH [of k1] conn_step_entered show ?case
    by blast
qed simp

lemma conn_step_progress:
  "conn_step w e e' jitter gen k a = None \<Longrightarrow>
    c_stage k \<in> {Entering, Ended} \<or> e_fault e = None \<and> c_stage k \<in> {Lane, Control, Connecting, Completing, Probing, Starting}"
  by (cases "c_stage k"; cases "e_fault e")
    (auto simp: conn_step_def proceed_def build_reality_lane_def probe_control_def connect_tunnel_def complete_connection_def
      run_data_plane_probe_def start_pump_def native_call_def Let_def split: option.splits sum.splits prod.splits if_splits)

lemma service_step_native: "service_step w s s' \<Longrightarrow> native_run w (sv_native s) (sv_native s')"
  using service_step_effect [of w s s'] calm_native [of w "sv_native s" "sv_native s'"]
  by (auto simp: started_def) (metis native_step.call_start r_into_rtranclp)

lemma service_run_native: "service_run w s s' \<Longrightarrow> native_run w (sv_native s) (sv_native s')"
proof (induction rule: rtranclp_induct)
  case (step s' s'')
  then show ?case
    using service_step_native [of w s' s''] by (meson rtranclp_trans)
qed simp

lemma passed_probe:
  assumes "probe_data_plane c ok n = (Inr (), n')"
  shows "\<exists>t hs. SESSION n' = Some t \<and> s_handshake t = Some hs \<and> completed hs"
proof -
  define t where "t = (case SESSION n of Some s \<Rightarrow> s | None \<Rightarrow> empty_session)"
  obtain x t' where t': "probe_session c ok t = (x, t')"
    by fastforce
  then have "x = Inr ()" "SESSION n' = Some t'"
    using assms by (auto simp: probe_data_plane_def with_session_def Let_def simp flip: t_def)
  then show ?thesis
    using probe_session_ok [of c ok t t'] probe_keeps_handshake [OF t'] t' by auto
qed

end
