(* ===== verification/Honest.thy ===== *)
theory Honest
  imports TestServer
begin

text \<open>
  A client whose profile belongs to the honest server of \<open>native/src/test_server.rs\<close>: the parameters of
  \<open>open_tunnel\<close>, the handshake between the two, and the mirror of a server in raw mode.
\<close>

text \<open>The client's parameters for a server whose static secret is \<open>server_secret\<close>, as the integration
  tests set them up.\<close>

definition tunnel_params :: "crypto \<Rightarrow> bytes \<Rightarrow> u16 \<Rightarrow> bytes \<Rightarrow> handshake_params" where
  "tunnel_params c server_secret port sni =
     \<lparr>server_address = ascii ''127.0.0.1'', server_port = port, hp_sni = sni,
      server_public_key = x25519_base c server_secret, hp_short_id = [1, 2], fingerprint = None\<rparr>"

definition tunnel_ok :: "crypto \<Rightarrow> bytes \<Rightarrow> u16 \<Rightarrow> bytes \<Rightarrow> bytes \<Rightarrow> bytes \<Rightarrow> bool" where
  "tunnel_ok c server_secret port eph eph_secret sni \<longleftrightarrow>
     params_ok c eph (tunnel_params c server_secret port sni) \<and> utf8_valid sni \<and>
     x25519 c eph (x25519_base c eph_secret) \<noteq> replicate 32 0"

lemma tunnel_ok_demo: "tunnel_ok demo_crypto [7] 443 [3] [5] [97, 46, 98]"
proof -
  have "x25519_base demo_crypto [7] ! 0 = 7" "x25519 demo_crypto [3] (x25519_base demo_crypto [7]) ! 0 = 10"
    "x25519 demo_crypto [3] (x25519_base demo_crypto [5]) ! 0 = 8" "replicate 32 (0 :: byte) ! 0 = 0"
    by (simp_all add: demo_crypto_def demo_fix_def)
  then show ?thesis
    by (auto simp: tunnel_ok_def params_ok_def tunnel_params_def dest: arg_cong [of _ _ "\<lambda>xs. xs ! 0"])
qed

lemma length_wire_hello:
  assumes "crypto_ok c" "params_ok c eph params" "initiate c eph time params = Inr hs"
  shows "length (wire_hello hs) \<le> MAX_FRAME_LEN"
proof -
  have c: "digest_lengths c"
    using assms(1) by (simp add: crypto_ok_def)
  obtain sid where "length sid = 32"
    and hello: "wire_hello hs = session_hello c eph (hp_sni params) (x25519 c eph (server_public_key params)) sid"
    using initiate_spec [OF assms(1,2), of time] assms(3) by auto
  then have "length (wire_hello hs) \<le> 9 + (251 + 64 + (9 + length (hp_sni params)) + 284)"
    using c by (simp add: session_hello_def hello_wire_def length_chrome_body pad_for_def hello_random_def hkdf_expand_def)
  with assms(2) show ?thesis
    by (simp add: params_ok_def MAX_FRAME_LEN_def)
qed

lemma tunnel_handshake:
  assumes "crypto_ok c" "tunnel_ok c server_secret port eph eph_secret sni"
  shows "\<exists>hs resp s hs'. initiate c eph time (tunnel_params c server_secret port sni) = Inr hs \<and>
    server_accept c server_secret eph_secret signing expect (wire_hello hs) = Inr (sni, resp, s) \<and>
    complete c hs resp = (Inr (), hs') \<and> completed hs' \<and> linked hs' s \<and> ss_seq_in s = 0 \<and> ss_seq_out s = 0 \<and>
    ss_uuid s = expect \<and> ss_reader s = map_option vision_reader_new expect \<and>
    ss_writer s = map_option vision_writer_new expect \<and> ss_request s = None \<and> ss_payload_bytes s = 0 \<and>
    length resp \<le> MAX_FRAME_LEN \<and> length (wire_hello hs) \<le> MAX_FRAME_LEN"
proof -
  let ?p = "tunnel_params c server_secret port sni"
  have p: "params_ok c eph ?p" "utf8_valid (hp_sni ?p)" "x25519 c eph (x25519_base c eph_secret) \<noteq> replicate 32 0"
    using assms(2) by (simp_all add: tunnel_ok_def) (simp add: tunnel_params_def)
  obtain hs where hs: "initiate c eph time ?p = Inr hs"
    using initiate_spec [OF assms(1) p(1)] by blast
  have eqs: "server_public_key ?p = x25519_base c server_secret" "hp_short_id ?p = [1, 2]" "hp_sni ?p = sni"
    by (simp_all add: tunnel_params_def)
  obtain resp s hs' where "server_accept c server_secret eph_secret signing expect (wire_hello hs) = Inr (sni, resp, s)"
    "complete c hs resp = (Inr (), hs')" "completed hs'" "linked hs' s" "ss_seq_in s = 0" "ss_seq_out s = 0"
    "ss_uuid s = expect" "ss_reader s = map_option vision_reader_new expect"
    "ss_writer s = map_option vision_writer_new expect" "ss_request s = None" "ss_payload_bytes s = 0"
    "length resp = length (temporary_certificate c (hs_auth_key hs) signing) + 66"
    using handshake_completes [OF assms(1) p(1) eqs(1,2) p(2) hs p(3), of signing expect] eqs(3) by auto
  moreover have "length (temporary_certificate c (hs_auth_key hs) signing) = 96"
    using assms(1) by (simp add: temporary_certificate_def Let_def copy_into_def crypto_ok_def)
  ultimately show ?thesis
    using hs length_wire_hello [OF assms(1) p(1) hs] by (auto simp: MAX_FRAME_LEN_def)
qed

text \<open>A server in raw mode mirrors what it opens.\<close>

lemma raw_mirror:
  assumes "crypto_ok c" "linked hs s" "ss_seq_in s = seq" "seq \<noteq> -1" "ss_seq_out s \<noteq> -1" "length pt < 2 ^ 32" "ss_reader s = None"
  shows "\<exists>ct re s'. seal_record c hs seq pt = Inr ct \<and> length ct = length pt + 16 \<and> length re = length pt + 16 \<and>
    server_record c ct rnd s = Inr (Some re, s') \<and> open_record c hs (ss_seq_out s) re = Inr pt"
proof -
  have aead: "aead_exact c"
    using assms(1) by (simp add: crypto_ok_def)
  obtain ct where ct: "seal_record c hs seq pt = Inr ct" "length ct = length pt + 16"
    "aes256_decrypt c (ss_recv_key s) (derive_nonce c (ss_sid s) seq Client NONCE_PURPOSE_DATA) ct [] = Some pt"
    using seal_record_some [OF aead assms(6), of hs _ seq] assms(2) by (auto simp: linked_def)
  obtain re where re: "aes256_encrypt c (ss_send_key s) (derive_nonce c (ss_sid s) (ss_seq_out s) Server NONCE_PURPOSE_DATA) pt [] = Some re"
    "length re = length pt + 16"
    "aes256_decrypt c (ss_send_key s) (derive_nonce c (ss_sid s) (ss_seq_out s) Server NONCE_PURPOSE_DATA) re [] = Some pt"
    by (rule encrypt_some [OF aead assms(6), of "ss_send_key s" "derive_nonce c (ss_sid s) (ss_seq_out s) Server NONCE_PURPOSE_DATA" "[]"])
  have "ct \<noteq> []"
    using ct(2) by auto
  with ct assms re have "\<exists>s'. server_record c ct rnd s = Inr (Some re, s')"
    by (simp add: server_record_def u64_inc_def server_reply_def)
  moreover have "open_record c hs (ss_seq_out s) re = Inr pt"
    using assms(2) re(3) by (simp add: open_record_def hs_keys_def linked_def)
  ultimately show ?thesis
    using ct(1,2) re(2) by blast
qed

end
