(* ===== verification/AppRun.thy ===== *)
theory AppRun
  imports Service Honest
begin

text \<open>
  The service against the honest server: what a whole connect attempt of a connect thread comes to.
  \<open>conn_steps\<close> lets one thread make its steps; \<open>fair_env\<close> is what the system answers during the attempt:
  every call succeeds, and the server's bytes are the ones given.
\<close>

fun conn_steps :: "world \<Rightarrow> env \<Rightarrow> env \<Rightarrow> (int \<Rightarrow> int) \<Rightarrow> int \<Rightarrow> nat \<Rightarrow> connect_thread \<Rightarrow> app \<Rightarrow> (connect_thread \<times> app) option" where
  "conn_steps w e e' jitter gen 0 k a = Some (k, a)"
| "conn_steps w e e' jitter gen (Suc n) k a =
     (case conn_step w e e' jitter gen k a of None \<Rightarrow> None | Some (k, a) \<Rightarrow> conn_steps w e e' jitter gen n k a)"

definition fair_env :: "bytes \<Rightarrow> u32 \<Rightarrow> sink \<Rightarrow> bytes \<Rightarrow> env" where
  "fair_env eph time z answers =
     \<lparr>e_fault = None, e_ephemeral = eph, e_time = time, e_net = Connected z (map Byte answers),
      e_clone = True, e_clone_out = True, e_clone_halt = True\<rparr>"

lemma fair_env_simps [simp]:
  "e_fault (fair_env eph time z answers) = None" "e_ephemeral (fair_env eph time z answers) = eph"
  "e_time (fair_env eph time z answers) = time" "e_net (fair_env eph time z answers) = Connected z (map Byte answers)"
  "e_clone (fair_env eph time z answers)" "e_clone_out (fair_env eph time z answers)" "e_clone_halt (fair_env eph time z answers)"
  by (simp_all add: fair_env_def)

text \<open>The base64 of the response is text, and decodes to it.\<close>

definition codecs_ok :: "codecs \<Rightarrow> bool" where
  "codecs_ok cd \<longleftrightarrow> (\<forall>bs. b64_std_decode cd (b64_std_encode cd bs) = Some bs \<and> (bs \<noteq> [] \<longrightarrow> \<not> blank (b64_std_encode cd bs)))"

text \<open>The profile the user has loaded names the honest server.\<close>

definition honest_profile :: "world \<Rightarrow> vless_profile \<Rightarrow> bytes \<Rightarrow> u16 \<Rightarrow> bytes \<Rightarrow> vless_params \<Rightarrow> bool" where
  "honest_profile w p server_secret port sni vp \<longleftrightarrow>
     (\<exists>rp. w_json w (to_handshake_json p) = Some rp \<and> public_key_present rp \<and> short_id_present rp \<and>
       into_params (b64_url_decode (w_codecs w)) (b64_std_decode (w_codecs w)) (hex_decode (w_codecs w)) (profile_material rp) =
         Inr (tunnel_params (w_crypto w) server_secret port sni) \<and>
       profile_vless (w_codecs w) rp (tunnel_params (w_crypto w) server_secret port sni) = Inr vp)"

section \<open>The native calls of an attempt\<close>

lemma connect_honest:
  assumes "initiate c eph time (tunnel_params c server_secret port sni) = Inr hs" "reliable z"
    "length (wire_hello hs) \<le> MAX_FRAME_LEN" "length resp \<le> MAX_FRAME_LEN"
    "public_key_present rp" "short_id_present rp"
    "into_params (b64_url_decode cd) (b64_std_decode cd) (hex_decode cd) (profile_material rp) = Inr (tunnel_params c server_secret port sni)"
    "profile_vless cd rp (tunnel_params c server_secret port sni) = Inr vp"
  shows "run_connect c cd eph time (Connected z (map Byte (frame_wire resp @ rest))) (Inr rp) n =
    (Inr (b64_std_encode cd resp),
     n\<lparr>SESSION := Some ((current n)\<lparr>s_handshake := Some hs,
         s_socket := Some (z\<lparr>sent := sent z @ frame_wire (wire_hello hs)\<rparr>, map Byte rest), s_shared := False\<rparr>),
       VLESS_TUNNEL := Some vp\<rparr>)"
  using assms read_frame_wire [OF assms(4), of "map Byte rest"] write_frame_reliable [OF assms(2,3)]
  by (simp add: run_connect_def connect_attempt_def tcp_connect_def hello_exchange_def hs_err_def with_session_def Let_def
      split: option.split)

lemma complete_honest:
  assumes "SESSION n = Some t" "s_handshake t = Some hs" "codecs_ok cd" "complete c hs resp = (Inr (), hs')"
  shows "complete_handshake c cd (b64_std_encode cd resp) n = (Inr (), n\<lparr>SESSION := Some (t\<lparr>s_handshake := Some hs'\<rparr>)\<rparr>)"
  using assms by (simp add: complete_handshake_def with_session_def codecs_ok_def)

lemma probe_honest:
  assumes "SESSION n = Some t" "s_handshake t = Some hs" "completed hs" "s_shared t = False"
    "s_socket t = Some (z, map Byte (frame_wire re))" "reliable z" "length ct \<le> MAX_FRAME_LEN" "length re \<le> MAX_FRAME_LEN"
    "seal_record c hs (next_out_seq t) probe_bytes = Inr ct" "open_record c hs (next_in_seq t) re = Inr probe_bytes"
    "next_out_seq t \<noteq> -1" "next_in_seq t \<noteq> -1"
  shows "probe_data_plane c True n = (Inr (), n\<lparr>SESSION := Some (t\<lparr>s_socket := Some (z\<lparr>sent := sent z @ frame_wire ct\<rparr>, []),
    next_out_seq := next_out_seq t + 1, next_in_seq := next_in_seq t + 1\<rparr>)\<rparr>)"
  using assms read_frame_wire [OF assms(8), of "[]"] write_frame_reliable [OF assms(6,7)]
  by (simp add: probe_data_plane_def with_session_def probe_session_def live_handshake_def live_socket_def streams_def
      ok_or_def hs_err_def set_streams_def Let_def)

lemma probe_closed:
  assumes "SESSION n = Some t" "s_handshake t = Some hs" "completed hs" "s_shared t = False"
    "s_socket t = Some (z, [])" "reliable z" "length ct \<le> MAX_FRAME_LEN"
    "seal_record c hs (next_out_seq t) probe_bytes = Inr ct" "next_out_seq t \<noteq> -1"
  shows "probe_data_plane c True n = (Inl (Err (Reason ''server closed during probe'')),
    n\<lparr>SESSION := Some (t\<lparr>s_socket := Some (z\<lparr>sent := sent z @ frame_wire ct\<rparr>, []), next_out_seq := next_out_seq t + 1\<rparr>)\<rparr>)"
  using assms read_frame_empty write_frame_reliable [OF assms(6,7)]
  by (simp add: probe_data_plane_def with_session_def probe_session_def live_handshake_def live_socket_def streams_def
      ok_or_def hs_err_def set_streams_def Let_def)

lemma start_honest:
  assumes "SESSION n = Some t" "s_handshake t = Some hs" "completed hs" "s_shared t = False"
    "s_socket t = Some (z, r)" "\<not> running (s_pump t)"
  shows "\<exists>p. start_tunnel_pump True True True block n = (Inr (), n\<lparr>SESSION := Some (t\<lparr>s_pump := p, s_shared := True\<rparr>)\<rparr>) \<and>
    running p \<and> out_live p \<and> in_live p \<and> seq_out p = next_out_seq t \<and> seq_in p = next_in_seq t \<and>
    config p = \<lparr>block_ipv6 = block, pc_vless = VLESS_TUNNEL n\<rparr> \<and> out_sock p = z \<and> in_sock p = r \<and> sealed_log p = []"
proof -
  obtain p where p: "start True True z r \<lparr>block_ipv6 = block, pc_vless = VLESS_TUNNEL n\<rparr> (next_out_seq t) (next_in_seq t) (s_pump t) = (Inr (), p)"
    "running p" "out_live p" "in_live p" "seq_out p = next_out_seq t" "seq_in p = next_in_seq t"
    "config p = \<lparr>block_ipv6 = block, pc_vless = VLESS_TUNNEL n\<rparr>" "out_sock p = z" "in_sock p = r" "sealed_log p = []"
    using assms(6) by (simp add: start_def Let_def)
  have "start_tunnel_pump True True True block n = (Inr (), n\<lparr>SESSION := Some (t\<lparr>s_pump := p, s_shared := True\<rparr>)\<rparr>)"
    using assms p(1)
    by (simp add: start_tunnel_pump_def with_session_def start_session_def live_handshake_def live_socket_def streams_def ok_or_def)
  with p show ?thesis
    by blast
qed

section \<open>The stages of an attempt\<close>

lemma native_call_answer:
  assumes "e_fault e = None" "f (a_native a) = (Some r, n)"
  shows "native_call e f a = Some (Inr r, a\<lparr>a_native := n\<rparr>)"
  using assms by (simp add: native_call_def)

lemma opt_simps [simp]:
  "opt_boolean k ((k, JBool b) # r) = b" "k \<noteq> k' \<Longrightarrow> opt_boolean k ((k', v) # r) = opt_boolean k r"
  "opt_string k d ((k, JText t) # r) = t" "k \<noteq> k' \<Longrightarrow> opt_string k d ((k', v) # r) = opt_string k d r"
  by (simp_all add: opt_boolean_def opt_string_def)

text \<open>The first two stages go on whatever their replies say.\<close>

lemma profile_calls_return:
  "\<exists>r. nativeBuildLane os from_str raw = Some r" "\<exists>r. nativeProbeControlPlane os from_str net raw = Some r"
proof -
  have safe: "read_profile from_str raw \<noteq> Inl Panic"
    by (auto simp: read_profile_def ok_or_def rbind_def split: option.splits)
  then have "build_lane (read_profile from_str raw) \<noteq> Inl Panic"
    by (cases "read_profile from_str raw") (auto simp: build_lane_def)
  then show "\<exists>r. nativeBuildLane os from_str raw = Some r"
    by (auto simp: nativeBuildLane_def split: sum.split fault.split)
  have "probe_control_plane (read_profile from_str raw) net \<noteq> Inl Panic"
    using safe by (cases "read_profile from_str raw") (auto simp: probe_control_plane_def split: connect_result.splits)
  then show "\<exists>r. nativeProbeControlPlane os from_str net raw = Some r"
    by (auto simp: nativeProbeControlPlane_def split: sum.split fault.split)
qed

lemma lane_goes_on:
  assumes "e_fault e = None" "selected_profile (a_snap a) = Some p" "c_stage k = Lane"
  shows "conn_step w e e' jitter gen k a = Some (k\<lparr>c_stage := Control\<rparr>, a)"
proof -
  obtain r where "nativeBuildLane (w_os w) (w_json w) (Some (to_sanitized_json p)) = Some r"
    using profile_calls_return by blast
  then show ?thesis
    using assms by (simp add: conn_step_def build_reality_lane_def native_call_def)
qed

lemma control_goes_on:
  assumes "e_fault e = None" "selected_profile (a_snap a) = Some p" "c_stage k = Control"
  shows "\<exists>a'. conn_step w e e' jitter gen k a = Some (k\<lparr>c_stage := Connecting\<rparr>, a') \<and> a_native a' = a_native a \<and>
    selected_profile (a_snap a') = Some p"
proof -
  obtain r where "nativeProbeControlPlane (w_os w) (w_json w) (e_net e) (Some (to_sanitized_json p)) = Some r"
    using profile_calls_return by blast
  then show ?thesis
    using assms by (auto simp: conn_step_def probe_control_def native_call_def proceed_def Let_def)
qed

text \<open>The later stages follow the native call they make.\<close>

lemma connecting_step:
  assumes "e_fault e = None" "selected_profile (a_snap a) = Some p" "c_stage k = Connecting" "\<not> blank b64"
    "run_connect (w_crypto w) (w_codecs w) (e_ephemeral e) (e_time e) (e_net e) (read_profile (w_json w) (Some (to_handshake_json p)))
      (a_native a) = (Inr b64, n)"
  shows "\<exists>a'. conn_step w e e' jitter gen k a = Some (k\<lparr>c_stage := Completing\<rparr>, a') \<and> a_native a' = n \<and> a_pending a' = Some b64"
  using assms
  by (simp add: conn_step_def connect_tunnel_def native_call_def nativeConnectTunnel_def require_ok_def staged_response_def proceed_def)

lemma completing_step:
  assumes "e_fault e = None" "a_pending a = Some b64" "c_stage k = Completing" "\<not> blank b64"
    "complete_handshake (w_crypto w) (w_codecs w) b64 (a_native a) = (Inr (), n)"
  shows "\<exists>a'. conn_step w e e' jitter gen k a = Some (k\<lparr>c_stage := Probing\<rparr>, a') \<and> a_native a' = n \<and>
    s_phase (a_snap a') = PROBING_DATA"
  using assms
  by (simp add: conn_step_def complete_connection_def native_call_def nativeCompleteHandshake_def answer_def require_ok_def proceed_def)

lemma probing_step:
  assumes "e_fault e = None" "e_clone e" "c_stage k = Probing" "probe_data_plane (w_crypto w) True (a_native a) = (Inr (), n)"
  shows "\<exists>a'. conn_step w e e' jitter gen k a = Some (k\<lparr>c_stage := Checking\<rparr>, a') \<and> a_native a' = n \<and>
    s_phase (a_snap a') = CONNECTED \<and> data_plane_ready (a_snap a')"
  using assms
  by (simp add: conn_step_def run_data_plane_probe_def native_call_def nativeProbeDataPlane_def answer_def require_ok_def proceed_def)

lemma probing_fails:
  assumes "e_fault e = None" "e_clone e" "c_stage k = Probing" "probe_data_plane (w_crypto w) True (a_native a) = (Inl (Err (Reason t)), n)"
  shows "\<exists>a'. conn_step w e e' jitter gen k a = Some (k\<lparr>c_stage := Failed_attempt\<rparr>, a') \<and> a_native a' = n \<and>
    s_phase (a_snap a') = FAILED \<and> failure_detail (a_snap a') = ascii t"
  using assms
  by (simp add: conn_step_def run_data_plane_probe_def native_call_def nativeProbeDataPlane_def answer_def rejected_def
      require_ok_def proceed_def)

lemma starting_step:
  assumes "e_fault e = None" "e_clone e" "e_clone_out e" "e_clone_halt e" "c_stage k = Starting"
    "start_tunnel_pump True True True (c_block k) (a_native a) = (Inr (), n)"
  shows "\<exists>a'. conn_step w e e' jitter gen k a = Some (k\<lparr>c_stage := Ended\<rparr>, a') \<and> a_native a' = n \<and>
    s_phase (a_snap a') = s_phase (a_snap a) \<and> pump_running (a_snap a')"
  using assms
  by (simp add: conn_step_def start_pump_def native_call_def nativeStartTunnelPump_def answer_def require_ok_def proceed_def)

section \<open>Whole attempts\<close>

lemma conn_steps_Suc:
  "conn_step w e e' jitter gen k a = Some (k', a') \<Longrightarrow>
    conn_steps w e e' jitter gen (Suc n) k a = conn_steps w e e' jitter gen n k' a'"
  by simp

lemma conn_steps_add:
  "conn_steps w e e' jitter gen m k a = Some (k', a') \<Longrightarrow>
    conn_steps w e e' jitter gen (m + n) k a = conn_steps w e e' jitter gen n k' a'"
  by (induction m arbitrary: k a) (auto split: option.splits)

lemma checks_steps:
  assumes "e_fault e = None" "selected_profile (a_snap a) = Some p" "tun_established (a_snap a)" "c_stage k = Looping"
  shows "\<exists>a'. conn_steps w e e' jitter gen 3 k a = Some (k\<lparr>c_stage := Connecting\<rparr>, a') \<and> a_native a' = a_native a \<and>
    selected_profile (a_snap a') = Some p"
proof -
  have "conn_step w e e' jitter gen k a = Some (k\<lparr>c_stage := Lane\<rparr>, a)"
    using assms by (simp add: conn_step_def)
  moreover have "conn_step w e e' jitter gen (k\<lparr>c_stage := Lane\<rparr>) a = Some (k\<lparr>c_stage := Control\<rparr>, a)"
    using lane_goes_on [OF assms(1,2), of "k\<lparr>c_stage := Lane\<rparr>"] by simp
  ultimately show ?thesis
    using control_goes_on [OF assms(1,2), of "k\<lparr>c_stage := Control\<rparr>" w e' jitter gen]
    by (auto simp: numeral_3_eq_3)
qed

text \<open>A handshake with the honest server leaves a session with its keys, its socket and the counters it found.\<close>

definition keyed_native :: "handshake_state \<Rightarrow> vless_params \<Rightarrow> sink \<Rightarrow> bytes \<Rightarrow> native \<Rightarrow> native" where
  "keyed_native hs vp z rest n =
     n\<lparr>SESSION := Some ((current n)\<lparr>s_handshake := Some hs, s_socket := Some (z, map Byte rest), s_shared := False\<rparr>),
       VLESS_TUNNEL := Some vp\<rparr>"

lemma keyed_simps [simp]:
  "SESSION (keyed_native hs vp z rest n) =
    Some ((current n)\<lparr>s_handshake := Some hs, s_socket := Some (z, map Byte rest), s_shared := False\<rparr>)"
  "VLESS_TUNNEL (keyed_native hs vp z rest n) = Some vp"
  by (simp_all add: keyed_native_def)

lemma completed_response:
  assumes "digest_lengths c" "complete c hs resp = (Inr (), hs')"
  shows "resp \<noteq> []"
proof
  assume "resp = []"
  then have "\<not> cert_checks c hs resp"
    by (simp add: cert_checks_def)
  with assms(2) show False
    by (auto simp: complete_spec [OF assms(1)] split: if_splits)
qed

lemma handshake_steps:
  assumes "crypto_ok (w_crypto w)" "codecs_ok (w_codecs w)" "honest_profile w p server_secret port sni vp" "reliable z"
    "initiate (w_crypto w) eph time (tunnel_params (w_crypto w) server_secret port sni) = Inr hs"
    "complete (w_crypto w) hs resp = (Inr (), hs')" "length (wire_hello hs) \<le> MAX_FRAME_LEN" "length resp \<le> MAX_FRAME_LEN"
    "selected_profile (a_snap a) = Some p" "c_stage k = Connecting"
  shows "\<exists>a'. conn_steps w (fair_env eph time z (frame_wire resp @ rest)) e' jitter gen 2 k a = Some (k\<lparr>c_stage := Probing\<rparr>, a') \<and>
    a_native a' = keyed_native hs' vp (z\<lparr>sent := sent z @ frame_wire (wire_hello hs)\<rparr>) rest (a_native a) \<and>
    s_phase (a_snap a') = PROBING_DATA"
proof -
  let ?e = "fair_env eph time z (frame_wire resp @ rest)" and ?b64 = "b64_std_encode (w_codecs w) resp"
  let ?n = "keyed_native hs vp (z\<lparr>sent := sent z @ frame_wire (wire_hello hs)\<rparr>) rest (a_native a)"
  have "resp \<noteq> []"
    using completed_response [OF _ assms(6)] assms(1) by (simp add: crypto_ok_def)
  then have b64: "\<not> blank ?b64"
    using assms(2) by (simp add: codecs_ok_def)
  obtain rp where rp: "w_json w (to_handshake_json p) = Some rp" "public_key_present rp" "short_id_present rp"
    "into_params (b64_url_decode (w_codecs w)) (b64_std_decode (w_codecs w)) (hex_decode (w_codecs w)) (profile_material rp) =
      Inr (tunnel_params (w_crypto w) server_secret port sni)"
    "profile_vless (w_codecs w) rp (tunnel_params (w_crypto w) server_secret port sni) = Inr vp"
    using assms(3) by (auto simp: honest_profile_def)
  have "run_connect (w_crypto w) (w_codecs w) eph time (Connected z (map Byte (frame_wire resp @ rest)))
      (read_profile (w_json w) (Some (to_handshake_json p))) (a_native a) = (Inr ?b64, ?n)"
    using connect_honest [OF assms(5,4,7,8) rp(2-5)] rp(1) by (simp add: read_profile_def keyed_native_def)
  then obtain a1 where a1: "conn_step w ?e e' jitter gen k a = Some (k\<lparr>c_stage := Completing\<rparr>, a1)" "a_native a1 = ?n" "a_pending a1 = Some ?b64"
    using connecting_step [of ?e a p k ?b64 w ?n e' jitter gen] assms(9,10) b64 by auto
  have "complete_handshake (w_crypto w) (w_codecs w) ?b64 ?n =
      (Inr (), keyed_native hs' vp (z\<lparr>sent := sent z @ frame_wire (wire_hello hs)\<rparr>) rest (a_native a))"
    using complete_honest [OF _ _ assms(2,6), of ?n] by (simp add: keyed_native_def)
  then obtain a2 where "conn_step w ?e e' jitter gen (k\<lparr>c_stage := Completing\<rparr>) a1 = Some (k\<lparr>c_stage := Probing\<rparr>, a2)"
    "a_native a2 = keyed_native hs' vp (z\<lparr>sent := sent z @ frame_wire (wire_hello hs)\<rparr>) rest (a_native a)"
    "s_phase (a_snap a2) = PROBING_DATA"
    using completing_step [of ?e a1 ?b64 "k\<lparr>c_stage := Completing\<rparr>" w _ e' jitter gen] a1 b64 by auto
  with a1 show ?thesis
    by (simp add: numeral_2_eq_2)
qed

definition idle_native :: "native \<Rightarrow> bool" where
  "idle_native n \<longleftrightarrow> next_out_seq (current n) = 0 \<and> next_in_seq (current n) = 0"

text \<open>What client and server exchange for one attempt: hello, response, probe record and its mirror.\<close>

definition raw_exchange ::
    "crypto \<Rightarrow> bytes \<Rightarrow> u32 \<Rightarrow> handshake_params \<Rightarrow> handshake_state \<Rightarrow> bytes \<Rightarrow> handshake_state \<Rightarrow> bytes \<Rightarrow> bytes \<Rightarrow> bool" where
  "raw_exchange c eph time params hs resp hs' ct re \<longleftrightarrow>
     initiate c eph time params = Inr hs \<and> complete c hs resp = (Inr (), hs') \<and> completed hs' \<and>
     seal_record c hs' 0 probe_bytes = Inr ct \<and> open_record c hs' 0 re = Inr probe_bytes \<and>
     length (wire_hello hs) \<le> MAX_FRAME_LEN \<and> length resp \<le> MAX_FRAME_LEN \<and> length ct \<le> MAX_FRAME_LEN \<and> length re \<le> MAX_FRAME_LEN"

lemma raw_exchange_exists:
  assumes "crypto_ok c" "tunnel_ok c server_secret port eph eph_secret sni"
  shows "\<exists>hs resp s hs' ct re s'. raw_exchange c eph time (tunnel_params c server_secret port sni) hs resp hs' ct re \<and>
    server_accept c server_secret eph_secret signing None (wire_hello hs) = Inr (sni, resp, s) \<and> linked hs' s \<and>
    server_record c ct rnd s = Inr (Some re, s')"
proof -
  obtain hs resp s hs' where h: "initiate c eph time (tunnel_params c server_secret port sni) = Inr hs"
    "server_accept c server_secret eph_secret signing None (wire_hello hs) = Inr (sni, resp, s)"
    "complete c hs resp = (Inr (), hs')" "completed hs'" "linked hs' s" "ss_seq_in s = 0" "ss_seq_out s = 0" "ss_reader s = None"
    "length resp \<le> MAX_FRAME_LEN" "length (wire_hello hs) \<le> MAX_FRAME_LEN"
    using tunnel_handshake [OF assms, of time signing None] by auto
  have len: "length probe_bytes = 24"
    by (simp add: probe_bytes_def)
  obtain ct re s' where "seal_record c hs' 0 probe_bytes = Inr ct" "length ct = 40" "length re = 40"
    "server_record c ct rnd s = Inr (Some re, s')" "open_record c hs' 0 re = Inr probe_bytes"
    using raw_mirror [OF assms(1) h(5,6), of probe_bytes rnd] h(7,8) len by auto
  with h have "raw_exchange c eph time (tunnel_params c server_secret port sni) hs resp hs' ct re"
    by (simp add: raw_exchange_def MAX_FRAME_LEN_def)
  with h(2,5) \<open>server_record c ct rnd s = Inr (Some re, s')\<close> show ?thesis
    by blast
qed

lemma probed_steps:
  assumes "crypto_ok (w_crypto w)" "codecs_ok (w_codecs w)" "honest_profile w p server_secret port sni vp" "reliable z"
    "raw_exchange (w_crypto w) eph time (tunnel_params (w_crypto w) server_secret port sni) hs resp hs' ct re"
    "idle_native (a_native a)" "selected_profile (a_snap a) = Some p" "c_stage k = Connecting"
  shows "\<exists>a'. conn_steps w (fair_env eph time z (frame_wire resp @ frame_wire re)) e' jitter gen 3 k a = Some (k\<lparr>c_stage := Checking\<rparr>, a') \<and>
    s_phase (a_snap a') = CONNECTED \<and> data_plane_ready (a_snap a') \<and> VLESS_TUNNEL (a_native a') = Some vp \<and>
    SESSION (a_native a') = Some ((current (a_native a))\<lparr>s_handshake := Some hs',
      s_socket := Some (z\<lparr>sent := sent z @ frame_wire (wire_hello hs) @ frame_wire ct\<rparr>, []), s_shared := False,
      next_out_seq := 1, next_in_seq := 1\<rparr>)"
proof -
  let ?e = "fair_env eph time z (frame_wire resp @ frame_wire re)" and ?z = "z\<lparr>sent := sent z @ frame_wire (wire_hello hs)\<rparr>"
  let ?n = "keyed_native hs' vp ?z (frame_wire re) (a_native a)"
  let ?t = "(current (a_native a))\<lparr>s_handshake := Some hs', s_socket := Some (?z\<lparr>sent := sent ?z @ frame_wire ct\<rparr>, []),
      s_shared := False, next_out_seq := 1, next_in_seq := 1\<rparr>"
  note r = assms(5) [unfolded raw_exchange_def]
  obtain a1 where a1: "conn_steps w ?e e' jitter gen 2 k a = Some (k\<lparr>c_stage := Probing\<rparr>, a1)" "a_native a1 = ?n"
    using handshake_steps [OF assms(1-4) _ _ _ _ assms(7,8)] r by blast
  have "probe_data_plane (w_crypto w) True ?n = (Inr (), ?n\<lparr>SESSION := Some ?t\<rparr>)"
    using probe_honest [of ?n _ hs' ?z re ct] r assms(4,6) by (simp add: idle_native_def)
  then obtain a2 where a2: "conn_step w ?e e' jitter gen (k\<lparr>c_stage := Probing\<rparr>) a1 = Some (k\<lparr>c_stage := Checking\<rparr>, a2)"
    "a_native a2 = ?n\<lparr>SESSION := Some ?t\<rparr>" "s_phase (a_snap a2) = CONNECTED" "data_plane_ready (a_snap a2)"
    using probing_step [of ?e "k\<lparr>c_stage := Probing\<rparr>" w a1 _ e' jitter gen] a1(2) by auto
  have "conn_steps w ?e e' jitter gen (2 + 1) k a = Some (k\<lparr>c_stage := Checking\<rparr>, a2)"
    using conn_steps_add [OF a1(1), of 1] a2(1) by simp
  then show ?thesis
    using a2(2-4) by (intro exI [of _ a2]) simp
qed

text \<open>A record the client has sealed as number \<open>seq\<close>, at a server that expects number 0.\<close>

lemma probe_at_fresh_server:
  assumes "crypto_ok c" "linked hs s" "ss_seq_in s = 0"
  shows "\<exists>ct. seal_record c hs seq probe_bytes = Inr ct \<and> length ct = 40 \<and>
    aes256_encrypt c (ss_recv_key s) (derive_nonce c (ss_sid s) seq Client NONCE_PURPOSE_DATA) probe_bytes [] = Some ct \<and>
    (aes256_decrypt c (ss_recv_key s) (derive_nonce c (ss_sid s) 0 Client NONCE_PURPOSE_DATA) ct [] = None \<longrightarrow>
      server_record c ct rnd s = Inl (Err RecordNotOpened))"
proof -
  have aead: "aead_exact c"
    using assms(1) by (simp add: crypto_ok_def)
  have len: "length probe_bytes = 24"
    by (simp add: probe_bytes_def)
  obtain ct where ct: "aes256_encrypt c (ss_recv_key s) (derive_nonce c (ss_sid s) seq Client NONCE_PURPOSE_DATA) probe_bytes [] = Some ct"
    "length ct = length probe_bytes + 16"
    by (rule encrypt_some [OF aead, of probe_bytes "ss_recv_key s" "derive_nonce c (ss_sid s) seq Client NONCE_PURPOSE_DATA" "[]"])
      (simp_all add: len)
  then have "seal_record c hs seq probe_bytes = Inr ct"
    using assms(2) by (simp add: seal_record_def hs_keys_def linked_def ok_or_def)
  moreover have "ct \<noteq> []"
    using ct(2) by auto
  ultimately show ?thesis
    using assms(3) ct len by (simp add: server_record_def ok_or_def)
qed

text \<open>A connect that fails is followed by a teardown; after a failed attempt the thread sleeps and starts again.\<close>

lemma connecting_refused:
  assumes "e_fault e = None" "e_fault e' = None" "selected_profile (a_snap a) = Some p" "c_stage k = Connecting" "e_net e = Refused io"
    "honest_profile w p server_secret port sni vp"
  shows "\<exists>a'. conn_step w e e' jitter gen k a = Some (k\<lparr>c_stage := Failed_attempt\<rparr>, a') \<and> a_native a' = disconnect_tunnel (a_native a)"
proof -
  have "run_connect (w_crypto w) (w_codecs w) (e_ephemeral e) (e_time e) (e_net e) (read_profile (w_json w) (Some (to_handshake_json p)))
      (a_native a) = (Inl (Err (ConnectFailed io)), a_native a)"
    using assms(5,6) by (auto simp: honest_profile_def run_connect_def connect_attempt_def read_profile_def tcp_connect_def hs_err_def)
  then show ?thesis
    using assms(1-4)
    by (simp add: conn_step_def connect_tunnel_def native_call_def nativeConnectTunnel_def answer_def rejected_def require_ok_def
        staged_response_def proceed_def quiet_disconnect_def nativeDisconnectTunnel_def)
qed

lemma retry_steps:
  assumes "c_stage k = Failed_attempt" "c_generation k = gen" "attempt (c_backoff k) < max_attempts (c_backoff k)"
  shows "\<exists>k' a'. conn_steps w e e' jitter gen 3 k a = Some (k', a') \<and> c_stage k' = Looping \<and> a_native a' = a_native a \<and>
    attempt (c_backoff k') = attempt (c_backoff k) + 1"
  using assms
  by (simp add: numeral_3_eq_3 conn_step_def next_delay_ms_def Let_def report_retry_delay_def begin_retry_def)

lemma conn_step_frame:
  assumes "conn_step w e e' jitter gen k a = Some (k', a')"
  shows "selected_profile (a_snap a') = selected_profile (a_snap a) \<and> tun_established (a_snap a') = tun_established (a_snap a)"
proof -
  have keep: "a_snap a1 = a_snap a2" if "native_call e f a2 = Some (x, a1)" for f x a1 a2
    using native_call_keeps [OF that] by simp
  show ?thesis
    using assms
    by (cases "c_stage k")
      (auto simp: conn_step_def build_reality_lane_def probe_control_def connect_tunnel_def complete_connection_def
        run_data_plane_probe_def start_pump_def disconnect_def fail_with_def report_retry_exhausted_def report_retry_delay_def
        begin_retry_def Let_def dest!: keep elim!: proceedE split: option.splits sum.splits prod.splits if_splits)
qed

lemma conn_steps_frame:
  "conn_steps w e e' jitter gen n k a = Some (k', a') \<Longrightarrow>
    selected_profile (a_snap a') = selected_profile (a_snap a) \<and> tun_established (a_snap a') = tun_established (a_snap a)"
proof (induction n arbitrary: k a)
  case (Suc n)
  then obtain k1 a1 where "conn_step w e e' jitter gen k a = Some (k1, a1)" "conn_steps w e e' jitter gen n k1 a1 = Some (k', a')"
    by (auto split: option.splits)
  with Suc.IH [of k1 a1] conn_step_frame show ?case
    by metis
qed simp

section \<open>A thread of the service\<close>

lemma conn_steps_run:
  assumes "i < length (sv_threads s)" "conn_steps w e e' jitter (sv_generation s) n (sv_threads s ! i) (sv_app s) = Some (k, a)"
  shows "service_run w s (s\<lparr>sv_app := a, sv_threads := (sv_threads s)[i := k]\<rparr>)"
  using assms
proof (induction n arbitrary: s)
  case (Suc n)
  obtain k1 a1 where 1: "conn_step w e e' jitter (sv_generation s) (sv_threads s ! i) (sv_app s) = Some (k1, a1)"
    "conn_steps w e e' jitter (sv_generation s) n k1 a1 = Some (k, a)"
    using Suc.prems(2) by (auto split: option.splits)
  let ?s = "s\<lparr>sv_app := a1, sv_threads := (sv_threads s)[i := k1]\<rparr>"
  have "service_step w s ?s"
    using service_step.sv_thread [OF Suc.prems(1) 1(1)] .
  moreover have "service_run w ?s (?s\<lparr>sv_app := a, sv_threads := (sv_threads ?s)[i := k]\<rparr>)"
    using Suc.IH [of ?s] Suc.prems(1) 1(2) by simp
  ultimately show ?case
    by (simp add: converse_rtranclp_into_rtranclp)
next
  case 0
  then have "s\<lparr>sv_app := a, sv_threads := (sv_threads s)[i := k]\<rparr> = s"
    by (cases s) auto
  then show ?case
    by simp
qed

lemma stop_idle:
  assumes "e_fault e = None"
  shows "idle_native (a_native (disconnect e a)) \<and> selected_profile (a_snap (disconnect e a)) = selected_profile (a_snap a)"
  using assms
  by (simp add: disconnect_def quiet_disconnect_def native_call_def nativeDisconnectTunnel_def disconnect_tunnel_def idle_native_def
      teardown_session_of teardown_session_def)

text \<open>A world with an honest server: the demonstration cryptography with a hash in which the sequence number counts.\<close>

definition app_crypto :: crypto where
  "app_crypto = demo_crypto\<lparr>sha256 := (\<lambda>m. demo_fix 32 [sum_list m])\<rparr>"

definition app_codecs :: codecs where
  "app_codecs = \<lparr>b64_url_decode = Some, b64_std_decode = (\<lambda>b. Some (tl b)), b64_std_encode = (#) 0x41, hex_decode = Some,
     hex_decode_to_slice = (\<lambda>b n. Some (demo_fix n b))\<rparr>"

definition app_profile :: reality_profile where
  "app_profile = demo_profile\<lparr>rp_server_address := ascii ''127.0.0.1'', public_key := Some (demo_fix 32 [7])\<rparr>"

definition app_world :: "os_texts \<Rightarrow> world" where
  "app_world os = \<lparr>w_crypto = app_crypto, w_codecs = app_codecs, w_os = os, w_json = (\<lambda>_. Some app_profile)\<rparr>"

definition app_vless :: vless_params where
  "app_vless = \<lparr>vp_uuid = replicate 16 0x61, vp_flow = Some (ascii ''xtls-rprx-vision''), vp_command = CMD_TCP,
     vp_address = Domain [97, 46, 98], vp_port = 443\<rparr>"

lemma app_crypto_simps:
  "x25519 app_crypto = x25519 demo_crypto" "x25519_base app_crypto = x25519_base demo_crypto"
  "hkdf_sha256 app_crypto = hkdf_sha256 demo_crypto" "hmac_sha512 app_crypto = hmac_sha512 demo_crypto"
  "aes256_encrypt app_crypto = demo_encrypt" "aes256_decrypt app_crypto = demo_decrypt"
  "sha256 app_crypto m = demo_fix 32 [sum_list m]"
  by (simp_all add: app_crypto_def demo_crypto_def)

lemma app_crypto_ok: "crypto_ok app_crypto"
proof -
  have "aes256_encrypt demo_crypto = demo_encrypt" "aes256_decrypt demo_crypto = demo_decrypt"
    by (simp_all add: demo_crypto_def)
  with demo_crypto_ok show ?thesis
    unfolding crypto_ok_def dh_commutes_def aead_exact_def digest_lengths_def app_crypto_simps by simp
qed

lemma app_tunnel_ok: "tunnel_ok app_crypto [7] 443 [3] [5] [97, 46, 98]"
proof -
  have eq: "tunnel_params app_crypto [7] 443 [97, 46, 98] = tunnel_params demo_crypto [7] 443 [97, 46, 98]"
    by (simp only: tunnel_params_def app_crypto_simps)
  show ?thesis
    using tunnel_ok_demo unfolding tunnel_ok_def params_ok_def app_crypto_simps eq .
qed

lemma app_world_simps [simp]:
  "w_crypto (app_world os) = app_crypto" "w_codecs (app_world os) = app_codecs" "w_json (app_world os) = (\<lambda>_. Some app_profile)"
  by (simp_all add: app_world_def)

lemma app_codecs_ok: "codecs_ok app_codecs"
  by (simp add: codecs_ok_def app_codecs_def blank_def is_space_def)

lemma app_honest: "honest_profile (app_world os) p [7] 443 [97, 46, 98] app_vless"
  by (simp add: honest_profile_def app_profile_def app_codecs_def demo_profile_def profile_material_def into_params_def ok_or_def
      tunnel_params_def app_crypto_def demo_crypto_def profile_vless_def parse_uuid_def app_vless_def demo_fix_def)

lemma app_reliable: "reliable demo_sink" "sent demo_sink = []"
  by (simp_all add: reliable_def demo_sink_def)

lemma app_number_bound:
  assumes "aes256_encrypt app_crypto key (derive_nonce app_crypto sid 1 Client NONCE_PURPOSE_DATA) probe_bytes [] = Some ct"
  shows "aes256_decrypt app_crypto key (derive_nonce app_crypto sid 0 Client NONCE_PURPOSE_DATA) ct [] = None"
proof -
  let ?nonce = "\<lambda>seq. derive_nonce app_crypto sid seq Client NONCE_PURPOSE_DATA"
  have nonce: "sum_list (?nonce seq) = sum_list (nonce_input sid seq Client NONCE_PURPOSE_DATA)" for seq
    by (simp add: derive_nonce_def app_crypto_simps demo_fix_def NONCE_LEN_def sum_list_replicate)
  have zeros: "be_bytes m 0 = replicate m 0" for m
    by (induction m) (simp_all add: replicate_append_same)
  have "be_bytes 8 0 = replicate 8 0" "be_bytes 8 1 = replicate 7 0 @ [1]"
    using be_bytes.simps(2) [of 7 1] by (simp_all add: zeros)
  then have "sum_list (?nonce 1) \<noteq> sum_list (?nonce 0)"
    by (simp add: nonce nonce_input_def sum_list_replicate)
  moreover have "ct = probe_bytes @ demo_tag key (?nonce 1) probe_bytes []"
    using assms by (simp add: app_crypto_simps demo_encrypt_def)
  ultimately show ?thesis
    by (simp add: app_crypto_simps demo_decrypt_def demo_tag_def demo_fix_def)
qed

text \<open>A run of the application in that world, up to the point where the connect thread is about to probe, and the probe.\<close>

lemma app_entered:
  "\<exists>s k. service_run w (service_init version) s \<and> sv_threads s = [k] \<and> c_stage k = Looping \<and> c_block k \<and>
    c_generation k = sv_generation s \<and> selected_profile (a_snap (sv_app s)) = Some p \<and> tun_established (a_snap (sv_app s)) \<and>
    sv_native s = native_init"
proof -
  let ?s = "command_start True (service_init version)" and ?raw = "Some [0x76]"
  have "service_step w (service_init version) ?s"
    by (rule service_step.sv_start)
  moreover have "service_step w ?s (enter_thread 0 ?raw (Inr p) True 5 ?s)"
    by (rule service_step.sv_enter) (simp_all add: command_start_def service_init_def Let_def)
  ultimately have "service_run w (service_init version) (enter_thread 0 ?raw (Inr p) True 5 ?s)"
    by (meson converse_rtranclp_into_rtranclp r_into_rtranclp)
  then show ?thesis
    by (intro exI [of _ "enter_thread 0 ?raw (Inr p) True 5 ?s"])
      (simp add: enter_thread_def start_tunnel_def command_start_def service_init_def Let_def blank_def is_space_def
        load_profile_def on_permission_result_def establish_tun_def)
qed

lemma app_probing:
  "\<exists>s k s' k'. service_run (app_world os) (service_init version) s \<and> sv_threads s = [k] \<and> c_stage k = Probing \<and> sv_phase s = PROBING_DATA \<and>
    service_step (app_world os) s s' \<and> sv_threads s' = [k'] \<and> c_block k' \<and> sv_phase s' = CONNECTED"
proof -
  let ?w = "app_world os"
  obtain s0 k0 where s0: "service_run ?w (service_init version) s0" "sv_threads s0 = [k0]" "c_stage k0 = Looping" "c_block k0"
    "c_generation k0 = sv_generation s0" "selected_profile (a_snap (sv_app s0)) = Some p" "tun_established (a_snap (sv_app s0))"
    "sv_native s0 = native_init"
    using app_entered by metis
  have idle: "idle_native native_init"
    by (simp add: idle_native_def native_init_def empty_session_def)
  obtain hs resp hs' ct re where x: "raw_exchange app_crypto [3] 0 (tunnel_params app_crypto [7] 443 [97, 46, 98]) hs resp hs' ct re"
    using raw_exchange_exists [OF app_crypto_ok app_tunnel_ok] by blast
  let ?e = "fair_env [3] 0 demo_sink (frame_wire resp @ frame_wire re)"
  let ?step = "conn_steps ?w ?e ?e id (sv_generation s0)"
  let ?z = "demo_sink\<lparr>sent := frame_wire (wire_hello hs)\<rparr>"
  obtain a1 where a1: "?step 3 k0 (sv_app s0) = Some (k0\<lparr>c_stage := Connecting\<rparr>, a1)" "a_native a1 = native_init"
    "selected_profile (a_snap a1) = Some p"
    using checks_steps [OF fair_env_simps(1) s0(6,7,3)] s0(8) by metis
  obtain a2 where a2: "?step 2 (k0\<lparr>c_stage := Connecting\<rparr>) a1 = Some (k0\<lparr>c_stage := Probing\<rparr>, a2)"
    "s_phase (a_snap a2) = PROBING_DATA" "a_native a2 = keyed_native hs' app_vless ?z (frame_wire re) native_init"
    using handshake_steps [of ?w p "[7]" 443 "[97, 46, 98]" app_vless demo_sink "[3]" 0 hs resp hs' a1 "k0\<lparr>c_stage := Connecting\<rparr>"
        "frame_wire re" ?e id "sv_generation s0"] x a1(2,3) app_crypto_ok app_codecs_ok app_honest app_reliable
    by (auto simp: raw_exchange_def)
  have steps: "?step (3 + 2) k0 (sv_app s0) = Some (k0\<lparr>c_stage := Probing\<rparr>, a2)"
    unfolding conn_steps_add [OF a1(1)] by (rule a2(1))
  let ?s = "s0\<lparr>sv_app := a2, sv_threads := [k0\<lparr>c_stage := Probing\<rparr>]\<rparr>"
  have run: "service_run ?w (service_init version) ?s"
    using conn_steps_run [of 0 s0 ?w ?e ?e id "3 + 2"] steps s0(1,2) by (simp add: rtranclp_trans)
  obtain n where "probe_data_plane app_crypto True (a_native a2) = (Inr (), n)"
    using probe_honest [of "a_native a2" _ hs' ?z re ct app_crypto] x app_reliable a2(3) idle
    by (simp add: raw_exchange_def idle_native_def)
  then obtain a3 where a3: "conn_step ?w ?e ?e id (sv_generation s0) (k0\<lparr>c_stage := Probing\<rparr>) a2 = Some (k0\<lparr>c_stage := Checking\<rparr>, a3)"
    "s_phase (a_snap a3) = CONNECTED"
    using probing_step [of ?e "k0\<lparr>c_stage := Probing\<rparr>" ?w a2 n ?e id "sv_generation s0"] by auto
  have "service_step ?w ?s (?s\<lparr>sv_app := a3, sv_threads := (sv_threads ?s)[0 := k0\<lparr>c_stage := Checking\<rparr>]\<rparr>)"
    by (rule service_step.sv_thread) (use a3(1) in simp_all)
  with run a2(2) a3(2) s0(4) show ?thesis
    by (intro exI [of _ ?s]) auto
qed

section \<open>Properties\<close>

text \<open>C5. The application connects: with the honest server, a profile that names it and a system whose calls succeed, a
  connect thread that enters its loop on an idle native library gets from there to CONNECTED in one attempt,
  whatever the sanitized checks say: the hello and the probe it writes are what the server answers, and in the
  end the pump runs on the probed socket with the sequence numbers after the probe.\<close>

theorem app_connects:
  assumes "crypto_ok (w_crypto w)" "codecs_ok (w_codecs w)" "honest_profile w p server_secret port sni vp" "reliable z"
    "tunnel_ok (w_crypto w) server_secret port eph eph_secret sni" "idle_native (a_native a)" "\<not> running (s_pump (current (a_native a)))"
    "selected_profile (a_snap a) = Some p" "tun_established (a_snap a)" "c_stage k = Looping" "c_generation k = gen"
  shows "\<exists>hs resp s ct re s' a' t.
    initiate (w_crypto w) eph time (tunnel_params (w_crypto w) server_secret port sni) = Inr hs \<and>
    server_accept (w_crypto w) server_secret eph_secret signing None (wire_hello hs) = Inr (sni, resp, s) \<and>
    server_record (w_crypto w) ct rnd s = Inr (Some re, s') \<and>
    conn_steps w (fair_env eph time z (frame_wire resp @ frame_wire re)) e' jitter gen 8 k a = Some (k\<lparr>c_stage := Ended\<rparr>, a') \<and>
    s_phase (a_snap a') = CONNECTED \<and> pump_running (a_snap a') \<and> SESSION (a_native a') = Some t \<and>
    running (s_pump t) \<and> out_live (s_pump t) \<and> in_live (s_pump t) \<and> seq_out (s_pump t) = 1 \<and> seq_in (s_pump t) = 1 \<and>
    config (s_pump t) = \<lparr>block_ipv6 = c_block k, pc_vless = Some vp\<rparr> \<and>
    streams t = Some (z\<lparr>sent := sent z @ frame_wire (wire_hello hs) @ frame_wire ct\<rparr>, [])"
proof -
  let ?c = "w_crypto w" and ?n = "a_native a"
  obtain hs resp s hs' ct re s' where x: "raw_exchange ?c eph time (tunnel_params ?c server_secret port sni) hs resp hs' ct re"
    "server_accept ?c server_secret eph_secret signing None (wire_hello hs) = Inr (sni, resp, s)"
    "server_record ?c ct rnd s = Inr (Some re, s')"
    using raw_exchange_exists [OF assms(1,5)] by blast
  let ?e = "fair_env eph time z (frame_wire resp @ frame_wire re)"
  let ?z = "z\<lparr>sent := sent z @ frame_wire (wire_hello hs) @ frame_wire ct\<rparr>"
  let ?t = "(current ?n)\<lparr>s_handshake := Some hs', s_socket := Some (?z, []), s_shared := False, next_out_seq := 1, next_in_seq := 1\<rparr>"
  obtain a1 where a1: "conn_steps w ?e e' jitter gen 3 k a = Some (k\<lparr>c_stage := Connecting\<rparr>, a1)" "a_native a1 = ?n"
    "selected_profile (a_snap a1) = Some p"
    using checks_steps [OF fair_env_simps(1) assms(8,9,10)] by blast
  obtain a2 where a2: "conn_steps w ?e e' jitter gen 3 (k\<lparr>c_stage := Connecting\<rparr>) a1 = Some (k\<lparr>c_stage := Checking\<rparr>, a2)"
    "s_phase (a_snap a2) = CONNECTED" "VLESS_TUNNEL (a_native a2) = Some vp" "SESSION (a_native a2) = Some ?t"
    using probed_steps [OF assms(1-4) x(1), of a1 "k\<lparr>c_stage := Connecting\<rparr>" e' jitter gen] a1(2,3) assms(6) by auto
  have check: "conn_step w ?e e' jitter gen (k\<lparr>c_stage := Checking\<rparr>) a2 = Some (k\<lparr>c_stage := Starting\<rparr>, a2)"
    using assms(11) by (simp add: conn_step_def)
  obtain q where q: "start_tunnel_pump True True True (c_block k) (a_native a2) = (Inr (), (a_native a2)\<lparr>SESSION := Some (?t\<lparr>s_pump := q, s_shared := True\<rparr>)\<rparr>)"
    "running q" "out_live q" "in_live q" "seq_out q = 1" "seq_in q = 1" "config q = \<lparr>block_ipv6 = c_block k, pc_vless = Some vp\<rparr>"
    "out_sock q = ?z" "in_sock q = []"
    using start_honest [OF a2(4), of hs' ?z "[]" "c_block k"] x(1) a2(3) assms(7) by (auto simp: raw_exchange_def)
  obtain a3 where a3: "conn_step w ?e e' jitter gen (k\<lparr>c_stage := Starting\<rparr>) a2 = Some (k\<lparr>c_stage := Ended\<rparr>, a3)"
    "a_native a3 = (a_native a2)\<lparr>SESSION := Some (?t\<lparr>s_pump := q, s_shared := True\<rparr>)\<rparr>" "s_phase (a_snap a3) = CONNECTED" "pump_running (a_snap a3)"
    using starting_step [of ?e "k\<lparr>c_stage := Starting\<rparr>" a2 _ w e' jitter gen] q(1) a2(2) by auto
  have "conn_steps w ?e e' jitter gen (3 + (3 + 2)) k a = Some (k\<lparr>c_stage := Ended\<rparr>, a3)"
    unfolding conn_steps_add [OF a1(1)] conn_steps_add [OF a2(1)] using check a3(1) by (simp add: numeral_2_eq_2)
  then show ?thesis
    using x a3(2-4) q
    by (intro exI [of _ hs] exI [of _ resp] exI [of _ s] exI [of _ ct] exI [of _ re] exI [of _ s']
        exI [of _ a3] exI [of _ "?t\<lparr>s_pump := q, s_shared := True\<rparr>"]) (simp add: raw_exchange_def streams_def)
qed

theorem app_connects_witness:
  "\<forall>os p version e' jitter. \<exists>answers a' t. conn_steps (app_world os) (fair_env [3] 0 demo_sink answers) e' jitter 1 8
      \<lparr>c_generation = 1, c_block = True, c_fd = 5, c_backoff = backoff_policy, c_stage = Looping\<rparr>
      \<lparr>a_native = native_init, a_snap = (new_snapshot version)\<lparr>selected_profile := Some p, tun_established := True\<rparr>, a_pending = None\<rparr> =
    Some (\<lparr>c_generation = 1, c_block = True, c_fd = 5, c_backoff = backoff_policy, c_stage = Ended\<rparr>, a') \<and>
    s_phase (a_snap a') = CONNECTED \<and> SESSION (a_native a') = Some t \<and> running (s_pump t) \<and> seq_out (s_pump t) = 1"
proof (intro allI)
  fix os p version e' jitter
  show "\<exists>answers a' t. conn_steps (app_world os) (fair_env [3] 0 demo_sink answers) e' jitter 1 8
        \<lparr>c_generation = 1, c_block = True, c_fd = 5, c_backoff = backoff_policy, c_stage = Looping\<rparr>
        \<lparr>a_native = native_init, a_snap = (new_snapshot version)\<lparr>selected_profile := Some p, tun_established := True\<rparr>, a_pending = None\<rparr> =
      Some (\<lparr>c_generation = 1, c_block = True, c_fd = 5, c_backoff = backoff_policy, c_stage = Ended\<rparr>, a') \<and>
      s_phase (a_snap a') = CONNECTED \<and> SESSION (a_native a') = Some t \<and> running (s_pump t) \<and> seq_out (s_pump t) = 1"
    using app_connects [of "app_world os" p "[7]" 443 "[97, 46, 98]" app_vless demo_sink "[3]" "[5]"
        "\<lparr>a_native = native_init, a_snap = (new_snapshot version)\<lparr>selected_profile := Some p, tun_established := True\<rparr>, a_pending = None\<rparr>"
        "\<lparr>c_generation = 1, c_block = True, c_fd = 5, c_backoff = backoff_policy, c_stage = Looping\<rparr>" 1 0 "[6]" no_draw e' jitter]
      app_crypto_ok app_codecs_ok app_honest app_reliable(1) app_tunnel_ok
    by (auto simp: idle_native_def native_init_def empty_session_def pump_new_def)
qed

text \<open>C20. A retry inherits the counters of a failed probe: when the server answers the hello but closes on the
  probe, the attempt and the wait after it bring the thread back to the start of its loop with the counter one
  higher than before.  So the probe of the next attempt is sealed with a number above 0 on a fresh connection, on
  which the honest server expects number 0, and answers \<open>RecordNotOpened\<close> unless that record opens under
  the nonce of number 0.  An attempt whose connect is refused, on the other hand, tears the session down, and the
  next one starts at number 0 again.\<close>

theorem retry_keeps_counters:
  assumes "crypto_ok (w_crypto w)" "codecs_ok (w_codecs w)" "honest_profile w p server_secret port sni vp" "reliable z"
    "tunnel_ok (w_crypto w) server_secret port eph eph_secret sni"
    "next_out_seq (current (a_native a)) = seq" "seq \<noteq> -1" "selected_profile (a_snap a) = Some p" "tun_established (a_snap a)"
    "c_stage k = Looping" "c_generation k = gen" "attempt (c_backoff k) < max_attempts (c_backoff k)"
  shows "(\<exists>hs resp s hs' ct k' a'.
      initiate (w_crypto w) eph time (tunnel_params (w_crypto w) server_secret port sni) = Inr hs \<and>
      server_accept (w_crypto w) server_secret eph_secret signing None (wire_hello hs) = Inr (sni, resp, s) \<and>
      complete (w_crypto w) hs resp = (Inr (), hs') \<and> linked hs' s \<and> seal_record (w_crypto w) hs' seq probe_bytes = Inr ct \<and>
      (aes256_decrypt (w_crypto w) (ss_recv_key s) (derive_nonce (w_crypto w) (ss_sid s) 0 Client NONCE_PURPOSE_DATA) ct [] = None \<longrightarrow>
        server_record (w_crypto w) ct rnd s = Inl (Err RecordNotOpened)) \<and>
      conn_steps w (fair_env eph time z (frame_wire resp)) e' jitter gen 9 k a = Some (k', a') \<and>
      c_stage k' = Looping \<and> attempt (c_backoff k') = attempt (c_backoff k) + 1 \<and>
      selected_profile (a_snap a') = Some p \<and> tun_established (a_snap a') \<and>
      s_socket (current (a_native a')) = Some (z\<lparr>sent := sent z @ frame_wire (wire_hello hs) @ frame_wire ct\<rparr>, []) \<and>
      next_out_seq (current (a_native a')) = seq + 1) \<and>
    (\<exists>k' a'. conn_steps w ((fair_env eph time z [])\<lparr>e_net := Refused io\<rparr>) (fair_env eph time z []) jitter gen 7 k a = Some (k', a') \<and>
      c_stage k' = Looping \<and> attempt (c_backoff k') = attempt (c_backoff k) + 1 \<and> next_out_seq (current (a_native a')) = 0)"
    (is "?closed \<and> ?refused")
proof
  let ?c = "w_crypto w"
  obtain hs resp s hs' where h: "initiate ?c eph time (tunnel_params ?c server_secret port sni) = Inr hs"
    "server_accept ?c server_secret eph_secret signing None (wire_hello hs) = Inr (sni, resp, s)"
    "complete ?c hs resp = (Inr (), hs')" "completed hs'" "linked hs' s" "ss_seq_in s = 0"
    "length resp \<le> MAX_FRAME_LEN" "length (wire_hello hs) \<le> MAX_FRAME_LEN"
    using tunnel_handshake [OF assms(1,5), of time signing None] by auto
  obtain ct where ct: "seal_record ?c hs' seq probe_bytes = Inr ct" "length ct = 40"
    "aes256_decrypt ?c (ss_recv_key s) (derive_nonce ?c (ss_sid s) 0 Client NONCE_PURPOSE_DATA) ct [] = None \<longrightarrow>
      server_record ?c ct rnd s = Inl (Err RecordNotOpened)"
    using probe_at_fresh_server [OF assms(1) h(5,6), of seq rnd] by (elim exE conjE) (rule that; assumption)
  let ?e = "fair_env eph time z (frame_wire resp)" and ?z = "z\<lparr>sent := sent z @ frame_wire (wire_hello hs)\<rparr>"
  let ?n = "keyed_native hs' vp ?z [] (a_native a)"
  let ?t = "(current (a_native a))\<lparr>s_handshake := Some hs', s_socket := Some (?z\<lparr>sent := sent ?z @ frame_wire ct\<rparr>, []),
      s_shared := False, next_out_seq := seq + 1\<rparr>"
  obtain a1 where a1: "conn_steps w ?e e' jitter gen 3 k a = Some (k\<lparr>c_stage := Connecting\<rparr>, a1)" "a_native a1 = a_native a"
    "selected_profile (a_snap a1) = Some p"
    using checks_steps [OF fair_env_simps(1) assms(8,9,10)] by blast
  obtain a2 where a2: "conn_steps w ?e e' jitter gen 2 (k\<lparr>c_stage := Connecting\<rparr>) a1 = Some (k\<lparr>c_stage := Probing\<rparr>, a2)" "a_native a2 = ?n"
    using handshake_steps [OF assms(1-4) h(1,3,8,7) a1(3), of "k\<lparr>c_stage := Connecting\<rparr>" "[]" e' jitter gen] a1(2) by auto
  have "probe_data_plane ?c True ?n = (Inl (Err (Reason ''server closed during probe'')), ?n\<lparr>SESSION := Some ?t\<rparr>)"
    using probe_closed [of ?n _ hs' ?z ct ?c] h(4) ct(1,2) assms(4,6,7) by (simp add: MAX_FRAME_LEN_def)
  then obtain a3 where a3: "conn_step w ?e e' jitter gen (k\<lparr>c_stage := Probing\<rparr>) a2 = Some (k\<lparr>c_stage := Failed_attempt\<rparr>, a3)"
    "a_native a3 = ?n\<lparr>SESSION := Some ?t\<rparr>"
    using probing_fails [of ?e "k\<lparr>c_stage := Probing\<rparr>" w a2 "''server closed during probe''" _ e' jitter gen] a2(2) by auto
  obtain k4 a4 where a4: "conn_steps w ?e e' jitter gen 3 (k\<lparr>c_stage := Failed_attempt\<rparr>) a3 = Some (k4, a4)" "c_stage k4 = Looping"
    "a_native a4 = a_native a3" "attempt (c_backoff k4) = attempt (c_backoff k) + 1"
    using retry_steps [of "k\<lparr>c_stage := Failed_attempt\<rparr>" gen w ?e e' jitter a3] assms(11,12) by auto
  have one: "conn_steps w ?e e' jitter gen 1 (k\<lparr>c_stage := Probing\<rparr>) a2 = Some (k\<lparr>c_stage := Failed_attempt\<rparr>, a3)"
    using a3(1) by simp
  have "conn_steps w ?e e' jitter gen (3 + (2 + (1 + 3))) k a = Some (k4, a4)"
    unfolding conn_steps_add [OF a1(1)] conn_steps_add [OF a2(1)] conn_steps_add [OF one] by (rule a4(1))
  then have run: "conn_steps w ?e e' jitter gen 9 k a = Some (k4, a4)"
    by simp
  then show ?closed
    using h(1-3,5) ct(1,3) a3(2) a4(2-4) conn_steps_frame [OF run] assms(8,9)
    by (intro exI [of _ hs] exI [of _ resp] exI [of _ s] exI [of _ hs'] exI [of _ ct] exI [of _ k4] exI [of _ a4]) simp
next
  let ?e = "(fair_env eph time z [])\<lparr>e_net := Refused io\<rparr>" and ?e' = "fair_env eph time z []"
  have fault: "e_fault ?e = None"
    by simp
  obtain a1 where a1: "conn_steps w ?e ?e' jitter gen 3 k a = Some (k\<lparr>c_stage := Connecting\<rparr>, a1)" "a_native a1 = a_native a"
    "selected_profile (a_snap a1) = Some p"
    using checks_steps [OF fault assms(8,9,10)] by blast
  obtain a2 where a2: "conn_step w ?e ?e' jitter gen (k\<lparr>c_stage := Connecting\<rparr>) a1 = Some (k\<lparr>c_stage := Failed_attempt\<rparr>, a2)"
    "a_native a2 = disconnect_tunnel (a_native a1)"
    using connecting_refused [OF fault _ a1(3) _ _ assms(3), of ?e' "k\<lparr>c_stage := Connecting\<rparr>" io jitter gen] by auto
  obtain k3 a3 where a3: "conn_steps w ?e ?e' jitter gen 3 (k\<lparr>c_stage := Failed_attempt\<rparr>) a2 = Some (k3, a3)" "c_stage k3 = Looping"
    "a_native a3 = a_native a2" "attempt (c_backoff k3) = attempt (c_backoff k) + 1"
    using retry_steps [of "k\<lparr>c_stage := Failed_attempt\<rparr>" gen w ?e ?e' jitter a2] assms(11,12) by auto
  have one: "conn_steps w ?e ?e' jitter gen 1 (k\<lparr>c_stage := Connecting\<rparr>) a1 = Some (k\<lparr>c_stage := Failed_attempt\<rparr>, a2)"
    using a2(1) by simp
  have "conn_steps w ?e ?e' jitter gen (3 + (1 + 3)) k a = Some (k3, a3)"
    unfolding conn_steps_add [OF a1(1)] conn_steps_add [OF one] by (rule a3(1))
  then show ?refused
    using a2(2) a3(2-4) by (intro exI [of _ k3] exI [of _ a3])
      (simp add: disconnect_tunnel_def teardown_session_of teardown_session_def)
qed

theorem retry_keeps_counters_witness:
  "\<forall>os p version e' jitter. \<exists>answers hs' ct s k' a'. seal_record app_crypto hs' 1 probe_bytes = Inr ct \<and>
    server_record app_crypto ct no_draw s = Inl (Err RecordNotOpened) \<and>
    conn_steps (app_world os) (fair_env [3] 0 demo_sink answers) e' jitter 1 9
      \<lparr>c_generation = 1, c_block = True, c_fd = 5, c_backoff = backoff_policy, c_stage = Looping\<rparr>
      \<lparr>a_native = \<lparr>SESSION = Some (empty_session\<lparr>next_out_seq := 1\<rparr>), VLESS_TUNNEL = None\<rparr>,
        a_snap = (new_snapshot version)\<lparr>selected_profile := Some p, tun_established := True\<rparr>, a_pending = None\<rparr> = Some (k', a') \<and>
    c_stage k' = Looping \<and> attempt (c_backoff k') = 1 \<and> next_out_seq (current (a_native a')) = 2"
proof (intro allI)
  fix os p version e' jitter
  let ?k = "\<lparr>c_generation = 1, c_block = True, c_fd = 5, c_backoff = backoff_policy, c_stage = Looping\<rparr>"
  let ?a = "\<lparr>a_native = \<lparr>SESSION = Some (empty_session\<lparr>next_out_seq := 1\<rparr>), VLESS_TUNNEL = None\<rparr>,
      a_snap = (new_snapshot version)\<lparr>selected_profile := Some p, tun_established := True\<rparr>, a_pending = None\<rparr>"
  have world: "crypto_ok (w_crypto (app_world os))" "codecs_ok (w_codecs (app_world os))"
    "tunnel_ok (w_crypto (app_world os)) [7] 443 [3] [5] [97, 46, 98]"
    by (simp_all add: app_crypto_ok app_codecs_ok app_tunnel_ok)
  have start: "next_out_seq (current (a_native ?a)) = 1" "(1 :: u64) \<noteq> -1" "selected_profile (a_snap ?a) = Some p" "tun_established (a_snap ?a)"
    "c_stage ?k = Looping" "c_generation ?k = 1" "attempt (c_backoff ?k) < max_attempts (c_backoff ?k)"
    by (simp_all add: backoff_policy_def)
  obtain hs resp s hs' ct k' a' where r: "linked hs' s" "seal_record (w_crypto (app_world os)) hs' 1 probe_bytes = Inr ct"
    "aes256_decrypt (w_crypto (app_world os)) (ss_recv_key s)
        (derive_nonce (w_crypto (app_world os)) (ss_sid s) 0 Client NONCE_PURPOSE_DATA) ct [] = None \<longrightarrow>
      server_record (w_crypto (app_world os)) ct no_draw s = Inl (Err RecordNotOpened)"
    "conn_steps (app_world os) (fair_env [3] 0 demo_sink (frame_wire resp)) e' jitter 1 9 ?k ?a = Some (k', a')"
    "c_stage k' = Looping" "attempt (c_backoff k') = attempt (c_backoff ?k) + 1" "next_out_seq (current (a_native a')) = 1 + 1"
    using retry_keeps_counters [OF world(1,2) app_honest app_reliable(1) world(3) start, of 0 "[6]" no_draw e' jitter, THEN conjunct1]
    by (elim exE conjE) (rule that; assumption)
  have "attempt (c_backoff k') = 1" "next_out_seq (current (a_native a')) = 2"
    using r(6,7) by (simp_all add: backoff_policy_def)
  note r = r(1-5) [unfolded app_world_simps] this
  have "aes256_encrypt app_crypto (ss_recv_key s) (derive_nonce app_crypto (ss_sid s) 1 Client NONCE_PURPOSE_DATA) probe_bytes [] = Some ct"
    using r(1,2) by (auto simp: seal_record_def hs_keys_def linked_def ok_or_eq_Inr)
  from app_number_bound [OF this] r show "\<exists>answers hs' ct s k' a'. seal_record app_crypto hs' 1 probe_bytes = Inr ct \<and>
      server_record app_crypto ct no_draw s = Inl (Err RecordNotOpened) \<and>
      conn_steps (app_world os) (fair_env [3] 0 demo_sink answers) e' jitter 1 9 ?k ?a = Some (k', a') \<and>
      c_stage k' = Looping \<and> attempt (c_backoff k') = 1 \<and> next_out_seq (current (a_native a')) = 2"
    by - (rule exI [of _ "frame_wire resp"], rule exI [of _ hs'], rule exI [of _ ct], rule exI [of _ s], rule exI [of _ k'],
      rule exI [of _ a'], simp)
qed

text \<open>C19. A stop can leave a live session behind: from every state in which a connect thread of the current generation
  is about to call \<open>connectTunnel\<close>, the stop command and its teardown can come first, and the thread then goes on to
  a handshake and a probe with the honest server; it sees the new generation only afterwards.  In the end no thread
  and no stop is left, the phase is CONNECTED, and the session has its keys and its open socket.\<close>

theorem stop_leaves_session:
  assumes "crypto_ok (w_crypto w)" "codecs_ok (w_codecs w)" "honest_profile w p server_secret port sni vp" "reliable z"
    "tunnel_ok (w_crypto w) server_secret port eph eph_secret sni"
    "sv_threads s = [k]" "c_stage k = Connecting" "c_generation k = sv_generation s"
    "selected_profile (a_snap (sv_app s)) = Some p" "sv_stopping s = 0"
  shows "\<exists>s1 s' t hs. service_run w s (command_stop s) \<and> service_step w (command_stop s) s1 \<and>
    s1 = stop_tunnel (fair_env eph time z []) ((command_stop s)\<lparr>sv_stopping := 0\<rparr>) \<and> service_run w s1 s' \<and>
    sv_threads s' = [k\<lparr>c_stage := Ended\<rparr>] \<and> sv_stopping s' = 0 \<and> sv_phase s' = CONNECTED \<and>
    SESSION (sv_native s') = Some t \<and> s_handshake t = Some hs \<and> completed hs \<and> hs_record_keys hs \<noteq> None \<and>
    (\<exists>sock. s_socket t = Some (sock, []) \<and> reliable sock)"
proof -
  let ?c = "w_crypto w" and ?e0 = "fair_env eph time z []"
  define s1 where s1: "s1 = stop_tunnel ?e0 ((command_stop s)\<lparr>sv_stopping := 0\<rparr>)"
  have first: "service_run w s (command_stop s)" "service_step w (command_stop s) s1"
    using service_step.sv_stop [of w s] service_step.sv_stop_thread [of "command_stop s" w ?e0] assms(10)
    by (auto simp: s1 command_stop_def)
  have idle: "idle_native (sv_native s1)" "selected_profile (a_snap (sv_app s1)) = Some p"
    and sv: "sv_threads s1 = [k]" "sv_stopping s1 = 0" "c_generation k \<noteq> sv_generation s1"
    using stop_idle [of ?e0 "sv_app s"] assms(6,8,9) by (simp_all add: s1 stop_tunnel_def command_stop_def)
  obtain hs resp srv hs' ct re srv' where x: "raw_exchange ?c eph time (tunnel_params ?c server_secret port sni) hs resp hs' ct re"
    "linked hs' srv"
    using raw_exchange_exists [OF assms(1,5)] by blast
  let ?e = "fair_env eph time z (frame_wire resp @ frame_wire re)"
  let ?t = "(current (sv_native s1))\<lparr>s_handshake := Some hs', s_socket := Some (z\<lparr>sent := sent z @ frame_wire (wire_hello hs) @ frame_wire ct\<rparr>, []),
      s_shared := False, next_out_seq := 1, next_in_seq := 1\<rparr>"
  obtain a where a: "conn_steps w ?e ?e id (sv_generation s1) 3 k (sv_app s1) = Some (k\<lparr>c_stage := Checking\<rparr>, a)"
    "s_phase (a_snap a) = CONNECTED" "SESSION (a_native a) = Some ?t"
    using probed_steps [OF assms(1-4) x(1) idle assms(7), of ?e id "sv_generation s1"] by auto
  have "conn_steps w ?e ?e id (sv_generation s1) (3 + 1) k (sv_app s1) = Some (k\<lparr>c_stage := Ended\<rparr>, a)"
    unfolding conn_steps_add [OF a(1)] using sv(3) by (simp add: conn_step_def)
  then have "service_run w s1 (s1\<lparr>sv_app := a, sv_threads := [k\<lparr>c_stage := Ended\<rparr>]\<rparr>)"
    using conn_steps_run [of 0 s1 w ?e ?e id "3 + 1"] sv(1) by simp
  with first s1 sv a x assms(4) show ?thesis
    by (intro exI [of _ s1] exI [of _ "s1\<lparr>sv_app := a, sv_threads := [k\<lparr>c_stage := Ended\<rparr>]\<rparr>"] exI [of _ ?t] exI [of _ hs'])
      (simp add: raw_exchange_def linked_def)
qed

theorem stop_leaves_session_witness:
  "\<forall>os p version. \<exists>k s' t hs. c_stage k = Connecting \<and> service_run (app_world os)
      \<lparr>sv_app = \<lparr>a_native = native_init, a_snap = (new_snapshot version)\<lparr>selected_profile := Some p\<rparr>, a_pending = None\<rparr>,
        sv_generation = 1, sv_threads = [k], sv_stopping = 0\<rparr> s' \<and>
    sv_threads s' = [k\<lparr>c_stage := Ended\<rparr>] \<and> sv_phase s' = CONNECTED \<and> SESSION (sv_native s') = Some t \<and>
    s_handshake t = Some hs \<and> completed hs \<and> s_socket t \<noteq> None"
proof (intro allI)
  fix os p version
  let ?k = "\<lparr>c_generation = 1, c_block = False, c_fd = 5, c_backoff = backoff_policy, c_stage = Connecting\<rparr>"
  let ?s = "\<lparr>sv_app = \<lparr>a_native = native_init, a_snap = (new_snapshot version)\<lparr>selected_profile := Some p\<rparr>, a_pending = None\<rparr>,
      sv_generation = 1, sv_threads = [?k], sv_stopping = 0\<rparr>"
  obtain s1 s' t hs where r: "service_run (app_world os) ?s (command_stop ?s)" "service_step (app_world os) (command_stop ?s) s1"
    "service_run (app_world os) s1 s'"
    and e: "sv_threads s' = [?k\<lparr>c_stage := Ended\<rparr>]" "sv_phase s' = CONNECTED" "SESSION (sv_native s') = Some t" "s_handshake t = Some hs"
    "completed hs" "s_socket t \<noteq> None"
    using stop_leaves_session [of "app_world os" p "[7]" 443 "[97, 46, 98]" app_vless demo_sink "[3]" "[5]" ?s ?k 0]
      app_crypto_ok app_codecs_ok app_honest app_reliable(1) app_tunnel_ok
    by auto
  have "service_run (app_world os) ?s s'"
    using r by (meson rtranclp.rtrancl_into_rtrancl rtranclp_trans)
  with e show "\<exists>k s' t hs. c_stage k = Connecting \<and> service_run (app_world os)
        \<lparr>sv_app = \<lparr>a_native = native_init, a_snap = (new_snapshot version)\<lparr>selected_profile := Some p\<rparr>, a_pending = None\<rparr>,
          sv_generation = 1, sv_threads = [k], sv_stopping = 0\<rparr> s' \<and>
      sv_threads s' = [k\<lparr>c_stage := Ended\<rparr>] \<and> sv_phase s' = CONNECTED \<and> SESSION (sv_native s') = Some t \<and>
      s_handshake t = Some hs \<and> completed hs \<and> s_socket t \<noteq> None"
    by (intro exI [of _ ?k] exI [of _ s'] exI [of _ t] exI [of _ hs]) simp
qed

text \<open>C6. The application is a client of the native library that cannot talk itself into a connection: in any interleaving
  of start and stop commands, connect threads, buttons and pump threads, the native library only ever sees
  sequences of its entry points, and the phase becomes CONNECTED only in a step in which the data-plane probe passed
  natively, over a session whose handshake is completed and has its record keys.\<close>

theorem connected_only_by_probe:
  assumes "digest_lengths (w_crypto w)" "service_run w (service_init version) s" "service_step w s s'"
    "sv_phase s \<noteq> CONNECTED" "sv_phase s' = CONNECTED"
  shows "native_run w native_init (sv_native s') \<and>
    (\<exists>clone_ok t hs keys. probe_data_plane (w_crypto w) clone_ok (sv_native s) = (Inr (), sv_native s') \<and>
      SESSION (sv_native s') = Some t \<and> s_handshake t = Some hs \<and> completed hs \<and> hs_record_keys hs = Some keys)"
proof -
  have run: "native_run w native_init (sv_native s')"
    using service_run_native [OF rtranclp.rtrancl_into_rtrancl [OF assms(2,3)]] by (simp add: service_init_def)
  have "connects w (sv_app s) (sv_app s')"
    using service_step_effect [OF assms(3)] by blast
  then obtain ok where ok: "probe_data_plane (w_crypto w) ok (sv_native s) = (Inr (), sv_native s')"
    using assms(4,5) by (auto simp: connects_def)
  then obtain t hs where t: "SESSION (sv_native s') = Some t" "s_handshake t = Some hs" "completed hs"
    using passed_probe by blast
  have "keys_confirmed (sv_native s')"
    using native_run_confirmed [OF run assms(1)] by (simp add: keys_confirmed_def native_init_def)
  with t obtain keys where "hs_record_keys hs = Some keys"
    by (auto simp: keys_confirmed_def)
  with run ok t show ?thesis
    by blast
qed

theorem connected_only_by_probe_witness:
  "\<forall>os. \<exists>s s' t hs keys. service_step (app_world os) s s' \<and> sv_phase s = PROBING_DATA \<and> sv_phase s' = CONNECTED \<and>
    SESSION (sv_native s') = Some t \<and> s_handshake t = Some hs \<and> completed hs \<and> hs_record_keys hs = Some keys"
proof (intro allI)
  fix os
  obtain s k s' k' where "service_run (app_world os) (service_init []) s" "service_step (app_world os) s s'"
    "sv_phase s = PROBING_DATA" "sv_phase s' = CONNECTED"
    using app_probing by blast
  with connected_only_by_probe [of "app_world os" "[]" s s'] app_crypto_ok show "\<exists>s s' t hs keys. service_step (app_world os) s s' \<and> sv_phase s = PROBING_DATA \<and> sv_phase s' = CONNECTED \<and>
      SESSION (sv_native s') = Some t \<and> s_handshake t = Some hs \<and> completed hs \<and> hs_record_keys hs = Some keys"
    by (force simp: crypto_ok_def)
qed

text \<open>C7. The leak shield from the switch to the wire: if every start command had the shield on, no pump the application ever
  runs has sealed an IPv6 packet, whatever the commands, retries, reconnects, buttons and threads did.\<close>

theorem app_leak_shield:
  assumes "service_run w (service_init version) s" "\<forall>k \<in> set (sv_threads s). c_block k" "SESSION (sv_native s) = Some t"
  shows "(out_live (s_pump t) \<longrightarrow> block_ipv6 (config (s_pump t))) \<and> (\<forall>x \<in> set (sealed_log (s_pump t)). ip_version (snd x) \<noteq> 6)"
proof -
  have "all_shielded (sv_native (service_init version))"
    by (simp add: service_init_def native_init_def all_shielded_def)
  from service_run_shield [OF assms(1) this assms(2)] assms(3) show ?thesis
    by (simp add: all_shielded_def shield_up_def)
qed

theorem app_leak_shield_witness:
  "\<forall>os. \<exists>s t. service_run (app_world os) (service_init []) s \<and> sv_phase s = CONNECTED \<and> SESSION (sv_native s) = Some t \<and>
    (out_live (s_pump t) \<longrightarrow> block_ipv6 (config (s_pump t))) \<and> (\<forall>x \<in> set (sealed_log (s_pump t)). ip_version (snd x) \<noteq> 6)"
proof (intro allI)
  fix os
  obtain s k s' k' where r: "service_run (app_world os) (service_init []) s" "service_step (app_world os) s s'"
    "sv_phase s = PROBING_DATA" "sv_phase s' = CONNECTED" "sv_threads s' = [k']" "c_block k'"
    using app_probing by blast
  then have "\<exists>ok. probe_data_plane app_crypto ok (sv_native s) = (Inr (), sv_native s')"
    using service_step_effect [OF r(2)] by (auto simp: connects_def)
  then obtain t where "SESSION (sv_native s') = Some t"
    using passed_probe by blast
  moreover have "service_run (app_world os) (service_init []) s'"
    using r(1,2) by simp
  ultimately show "\<exists>s t. service_run (app_world os) (service_init []) s \<and> sv_phase s = CONNECTED \<and> SESSION (sv_native s) = Some t \<and>
      (out_live (s_pump t) \<longrightarrow> block_ipv6 (config (s_pump t))) \<and> (\<forall>x \<in> set (sealed_log (s_pump t)). ip_version (snd x) \<noteq> 6)"
    using app_leak_shield [of "app_world os" "[]" s' t] r(4-6) by (intro exI [of _ s'] exI [of _ t]) auto
qed

text \<open>C35. Every connect thread ends: whatever the rest of the application does to the state between its steps, a thread
  in its loop makes at most 70 steps (one attempt and five retries), and it can always make the next one unless
  it has ended or is inside a native call that aborts the process.\<close>

theorem connect_thread_ends:
  assumes "thread_steps w xs \<lparr>c_generation = g, c_block = b, c_fd = fd, c_backoff = backoff_policy, c_stage = Looping\<rparr> = Some k"
  shows "length xs \<le> 70 \<and>
    (conn_step w e e' jitter gen k a = None \<longrightarrow>
      c_stage k = Ended \<or> e_fault e = None \<and> c_stage k \<in> {Lane, Control, Connecting, Completing, Probing, Starting})"
proof -
  have "length xs \<le> 70"
    using thread_steps_rank [OF assms] by (simp add: thread_rank_def backoff_policy_def)
  moreover have "c_stage k \<noteq> Entering"
    using thread_steps_entered [OF assms] by simp
  ultimately show ?thesis
    using conn_step_progress [of w e e' jitter gen k a] by blast
qed

theorem connect_thread_ends_witness:
  "\<forall>os jitter gen. conn_step (app_world os) ((fair_env [] 0 demo_sink [])\<lparr>e_fault := Some []\<rparr>) (fair_env [] 0 demo_sink []) jitter gen
    \<lparr>c_generation = 1, c_block = False, c_fd = 5, c_backoff = backoff_policy, c_stage = Lane\<rparr>
    \<lparr>a_native = native_init, a_snap = new_snapshot [], a_pending = None\<rparr> \<noteq> None"
proof (intro allI)
  fix os jitter gen
  let ?e = "(fair_env [] 0 demo_sink [])\<lparr>e_fault := Some []\<rparr>" and ?e' = "fair_env [] 0 demo_sink []"
  let ?k = "\<lparr>c_generation = 1, c_block = False, c_fd = 5, c_backoff = backoff_policy, c_stage = Lane\<rparr>"
  let ?a = "\<lparr>a_native = native_init, a_snap = new_snapshot [], a_pending = None\<rparr>"
  have "thread_steps (app_world os) [(?e, ?e', jitter, gen, ?a\<lparr>a_snap := (new_snapshot [])\<lparr>tun_established := True\<rparr>\<rparr>)]
      \<lparr>c_generation = 1, c_block = False, c_fd = 5, c_backoff = backoff_policy, c_stage = Looping\<rparr> = Some ?k"
    by (simp add: conn_step_def)
  from connect_thread_ends [OF this, of ?e ?e' jitter gen ?a]
  show "conn_step (app_world os) ?e ?e' jitter gen ?k ?a \<noteq> None"
    by auto
qed

end
