(* ===== verification/Spec2Isabelle.thy ===== *)
theory Spec2Isabelle
  imports ServerRun Tunnel Device HelloShape Tls13Safety ErrorTexts AppRun
begin

text \<open>
  A verification library for ShadeVPN for Android: its native part (\<open>src/native/src\<close>, Rust), and the service
  and connection state of the application that drive it (\<open>src/app/src/main/java/com/shadevpn/android\<close>, Kotlin).

  \<^bold>\<open>The program.\<close>  The Android service gives the native library a TUN device and a profile.
  \<open>lib.rs\<close> keeps one session behind JNI entry points: connect, complete the handshake, probe,
  start and stop the pump, disconnect.  \<open>handshake.rs\<close> builds a Chrome-like TLS ClientHello
  (\<open>tls.rs\<close>) whose session id is the sealed REALITY token (\<open>reality.rs\<close>), checks the server's temporary
  certificate and confirmation, and then seals and opens data records.  \<open>pump.rs\<close> runs two threads
  between the TUN and the socket; each packet is wrapped in VLESS with Vision padding (\<open>vless.rs\<close>),
  sealed, and framed (\<open>transport.rs\<close>).  \<open>tls13.rs\<close> is a TLS 1.3 client that the other modules do not call
  yet.  \<open>test_server.rs\<close> is the honest server of the integration tests.  \<open>ShadeVpnService.kt\<close> runs the connect
  attempts in threads of its own, with the retries of \<open>BackoffPolicy.kt\<close>, through the methods of
  \<open>ConnectionOrchestrator.kt\<close>, which call the entry points and publish the state the user interface shows.

  \<^bold>\<open>Theories, in the order they build on each other.\<close>
  \<^item> \<open>Prelude\<close>: bytes and fixed-width integers, results (an error or a panic), checked slices, big-endian
    encodings, UTF-8, and the contract \<open>paired_stream\<close> between the two ends of a stateful stream.
  \<^item> \<open>Reader\<close>: the bounds-checked cursor of \<open>tls.rs\<close> and \<open>tls13.rs\<close>, a calculus of safety rules for code that
    threads it, and the contract \<open>item_loop\<close> of loops over length-delimited items.
  \<^item> \<open>Transport\<close> (\<open>transport.rs\<close>): frames over byte-event streams with faults; contract \<open>frame_channel\<close>.
  \<^item> \<open>Vless\<close>, \<open>Vision\<close> (\<open>vless.rs\<close>): request and response headers, varints, UUIDs; the padding writer and
    the byte-wise reader, \<open>VlessOut\<close> and \<open>VlessIn\<close>, which interpret \<open>paired_stream\<close>.
  \<^item> \<open>Crypto\<close>: the cryptographic crates as a record of functions, and the hypotheses about them.
  \<^item> \<open>Tls\<close>, \<open>HelloShape\<close> (\<open>tls.rs\<close>): builder and parser of the ClientHello; the parser's loops interpret
    \<open>item_loop\<close>; the extension block of a built hello, type by type.
  \<^item> \<open>Reality\<close>, \<open>Handshake\<close> (\<open>reality.rs\<close>, \<open>handshake.rs\<close>): session id, certificates, the two steps of
    the handshake, nonces, records.
  \<^item> \<open>Pump\<close>, \<open>Device\<close> (\<open>pump.rs\<close>): the state of the pump, one iteration of each thread as a function, and their
    interleavings with \<open>stop\<close> as the step relation \<open>pump_step\<close>; the loops over \<open>poll\<close>, \<open>read\<close> and \<open>write\<close> on
    the TUN's descriptor, which refine those iterations.
  \<^item> \<open>Session\<close>, \<open>Replies\<close>, \<open>ErrorTexts\<close> (\<open>lib.rs\<close>): the two statics as a record, every entry point as a function
    of it, and their sequences, interleaved with the pump, as \<open>native_step\<close>; the members of the JSON replies, and
    the texts of the errors of every module.
  \<^item> \<open>TestServer\<close>, \<open>ServerRun\<close>, \<open>Honest\<close> (\<open>test_server.rs\<close>): the server's handshake, one turn of its record loop
    and the whole connection \<open>run_server\<close>; a payload's way to the server and back interprets \<open>paired_stream\<close>;
    a client whose profile belongs to this server.
  \<^item> \<open>Duplex\<close>, \<open>Tunnel\<close>: the pump and the server connected by two byte streams, as one transition system.
  \<^item> \<open>KeySchedule\<close>, \<open>Der\<close>, \<open>Tls13\<close>, \<open>Flight\<close>, \<open>Tls13Safety\<close> (\<open>tls13.rs\<close>): HKDF and record protection; DER,
    X.509 and CertificateVerify; the client's methods as actions on its state; the server flight's loop; the
    client's type invariant over all sequences of calls (\<open>tls13_step\<close>).
  \<^item> \<open>Orchestrator\<close> (\<open>ConnectionOrchestrator.kt\<close>, \<open>ConnectionModels.kt\<close> and the payloads of
    \<open>VlessProfileParser.kt\<close>), \<open>Backoff\<close> (\<open>BackoffPolicy.kt\<close>), \<open>Service\<close> (\<open>ShadeVpnService.kt\<close>): the published
    snapshot over the native state, one function per method; the retry delays; the service with its connect threads,
    stop threads, the buttons and the pump's threads as the step relation \<open>service_step\<close>.
  \<^item> \<open>AppRun\<close>: whole connect attempts of the service against the honest server.
  \<^item> this theory: the handshake and the tunnel end to end.

  \<^bold>\<open>What is shown.\<close>  End to end: the honest server accepts every client hello, its response completes
  the handshake with mirrored keys, any sequence of payloads comes back unchanged, byte for byte on the wire; in every
  interleaving of pump, server, stop and faults the tunnel is a queue, and it drains; and a connect thread of the
  service gets from its first check to CONNECTED with the pump running.  Of the application: it becomes CONNECTED only
  by a probe that passed natively, the leak shield holds from the switch to the wire, and every connect thread ends.
  Per component:
  round trips of every encoder with its decoder (frames, headers, padding, hellos, session ids,
  application records); refinement of the parsers, of the flight loop and of the descriptor loops to
  specifications; HKDF against RFC 5869; absence of panics for every parser, or exactly the
  inputs that panic; invariants over all interleavings of the pump's threads (consecutive sequence
  numbers, the IPv6 leak shield, liveness flags) and over all sequences of entry points (keys only
  with a completed handshake) and TLS client calls; authenticity of an accepted flight; replies that reveal nothing;
  and the places where the code departs from its comments, among them the probe that reuses a nonce of
  a running pump, the stop that leaves a live session, and the counters that a retry inherits from a failed probe.

  \<^bold>\<open>Conventions and bounds.\<close>  A panic (index, slice, \<open>unwrap\<close>, arithmetic overflow as in a build with
  overflow checks) is the value \<open>Inl Panic\<close>, never an unspecified one (in the application: \<open>None\<close>, the process
  aborted); what a mutex does after a
  panic is not modelled.  \<open>usize\<close> has 64 bits and lengths are natural numbers; sums of positions
  and lengths that come from buffers do not reach 2 to the 64.  Payload bounds in the theorems
  are those of the formats: 2 to the 18 per Vision payload (so that a padded record fits a
  frame), 2 to the 32 for an AEAD message, 65535 less the overhead for a TLS record, 2 to the 24 for
  a handshake message, 2 to the 64 records per key.  No definition of the code needs fuel: every loop is structural or
  has a termination proof (varints, padding, HKDF, extension blocks, certificate lists, the flight), or is a
  step relation (the threads).  \<open>conn_steps\<close> of \<open>AppRun\<close> counts the steps of a connect thread, 8 for a
  successful attempt and at most 70 in all.
  Random draws, ephemeral secrets, the clock, the results of system calls and of name
  resolution are arguments.

  \<^bold>\<open>Not modelled.\<close>  The cryptographic, base64 and hex crates and the JSON libraries (parameters); the reading of a
  JNI string, thread creation and memory ordering (the atomics are sequentially consistent in the source); the
  parsing of a share link (\<open>VlessProfileParser.parse\<close>, on top of \<open>java.net.URI\<close>; its result is an argument); the
  gap between the native call of an orchestrator method and its update of the snapshot; the widgets of the user
  interface and the configuration of \<open>VpnService.Builder\<close>, which are calls of the Android framework; the Rust unit tests; the build files and the server
  scripts, which contain no code of the tunnel itself.
\<close>

section \<open>Lemmas\<close>

lemma up_all_ok:
  "\<forall>m \<in> set ms. length (fst m) \<le> 60000 \<Longrightarrow> unat seq + length ms < 2 ^ 64 \<Longrightarrow> all_ok (up_send c hs) up_ok (v, seq) ms"
proof (induction ms arbitrary: v seq)
  case (Cons m ms)
  have "seq \<noteq> -1" "unat (seq + 1) + length ms < 2 ^ 64"
    using u64_room [of seq "length ms"] Cons.prems(2) by simp_all
  with Cons show ?case
    by (simp add: up_ok_def up_send_def case_prod_beta)
qed simp

text \<open>What the server has seen of the inner protocol at the end.\<close>

definition server_saw :: "vless_params option \<Rightarrow> bytes list \<Rightarrow> vless_observed option" where
  "server_saw vp payloads =
     (case vp of
        None \<Rightarrow> None
      | Some v \<Rightarrow>
          if payloads = [] then None
          else Some \<lparr>vo_uuid = vp_uuid v, vo_flow = flow_seen (vp_flow v), vo_command = vp_command v,
            vo_address = (if vp_command v = CMD_MUX then Domain mux_cool else vp_address v),
            vo_port = (if vp_command v = CMD_MUX then 0 else vp_port v),
            vo_payload_bytes = length (concat payloads)\<rparr>)"

definition client_mode :: "vless_params option \<Rightarrow> pump_config" where
  "client_mode vp = \<lparr>block_ipv6 = False, pc_vless = vp\<rparr>"

lemma saw_observation:
  assumes "\<forall>v. vp = Some v \<longrightarrow> vless_ok v" "ss_request s = None" "payloads \<noteq> []"
  shows "observation (new_vless_out (client_mode vp), 0) s (length (concat payloads)) = server_saw vp payloads"
proof (cases vp)
  case None
  with assms(2) show ?thesis
    by (simp add: observation_def client_mode_def new_vless_out_def server_saw_def)
next
  case (Some v)
  then have ok: "vless_ok v" using assms(1) by blast
  then obtain out hdr where out: "vless_out_new (vp_uuid v) (vp_flow v) (vp_command v) (vp_address v) (vp_port v) = Inr out"
    and hdr: "build_request_header (vp_uuid v) (vp_flow v) (vp_command v) (vp_address v) (vp_port v) = Inr hdr" "vo_header out = Some hdr"
    by (auto simp: vless_ok_def vless_out_new_def rbind_eq_Inr split: sum.splits)
  have "parse_request_header (hdr @ []) = Inr \<lparr>pr_uuid = vp_uuid v, pr_flow = flow_seen (vp_flow v), pr_command = vp_command v,
      pr_address = (if vp_command v = CMD_MUX then Domain mux_cool else vp_address v),
      pr_port = (if vp_command v = CMD_MUX then 0 else vp_port v)\<rparr>"
    using ok by (intro parse_built_header [OF hdr(1)]) (auto simp: vless_ok_def)
  with Some out hdr(2) assms(2,3) show ?thesis
    by (simp add: observation_def client_mode_def new_vless_out_def server_saw_def observed_def)
qed

lemma new_synced:
  assumes "peer_ready c hs (client_mode vp) 0 0 s"
  shows "up_synced c hs (new_vless_out (client_mode vp), 0) s"
    "down_synced c hs (ss_sid s) (ss_send_key s) (down_of s) (map_option (\<lambda>v. vless_in_new (vp_uuid v)) vp, 0)"
proof -
  obtain p0 where p0: "start True True demo_sink [] (client_mode vp) 0 0 pump_new = (Inr (), p0)"
    by (simp add: start_def pump_new_def Let_def)
  then have "vless_o p0 = new_vless_out (client_mode vp)"
    by (auto simp: start_def pump_new_def Let_def)
  with started_synced [OF p0 assms] show "up_synced c hs (new_vless_out (client_mode vp), 0) s"
    "down_synced c hs (ss_sid s) (ss_send_key s) (down_of s) (map_option (\<lambda>v. vless_in_new (vp_uuid v)) vp, 0)"
    by (simp_all add: client_mode_def)
qed

section \<open>Properties\<close>

text \<open>C4. The handshake works end to end: for every ephemeral secret, server key share, certificate and
  clock, the hello the client sends is accepted by the honest server, whose response completes
  the client's handshake; afterwards both sides hold the same session id and mirrored record
  keys, and the server has seen the client's server name.\<close>

theorem handshake_agreement:
  assumes "crypto_ok c" "tunnel_ok c server_secret port eph eph_secret sni"
  shows "\<exists>hs resp s hs'. initiate c eph time (tunnel_params c server_secret port sni) = Inr hs \<and>
    server_accept c server_secret eph_secret signing expect (wire_hello hs) = Inr (sni, resp, s) \<and>
    complete c hs resp = (Inr (), hs') \<and> completed hs' \<and> linked hs' s"
  using tunnel_handshake [OF assms] by metis

theorem handshake_agreement_witness:
  "\<exists>hs resp s hs'. initiate demo_crypto [3] 0 (tunnel_params demo_crypto [7] 443 [97, 46, 98]) = Inr hs \<and>
    server_accept demo_crypto [7] [5] [6] None (wire_hello hs) = Inr ([97, 46, 98], resp, s) \<and>
    complete demo_crypto hs resp = (Inr (), hs') \<and> completed hs' \<and> linked hs' s"
  by (rule handshake_agreement [OF demo_crypto_ok tunnel_ok_demo])

text \<open>The tunnel carries every payload: after that handshake with a VLESS server, any sequence of
  payloads (each below 256 KiB, fewer than 2 to the 64 of them), wrapped, padded with any random
  draws, sealed, opened by the server, answered, and opened and unwrapped by the client, comes back
  as exactly that sequence.\<close>

theorem tunnel_end_to_end:
  assumes "crypto_ok c" "tunnel_ok c server_secret port eph eph_secret sni"
    "vless_out_new uuid flow command address dport = Inr out" "length uuid = 16"
    "\<forall>name. flow = Some name \<longrightarrow> length name < 256 \<and> utf8_valid name" "address_ok address"
    "\<forall>m \<in> set ms. length (fst m) < 2 ^ 18" "length ms < 2 ^ 64"
  shows "\<exists>hs resp s hs'. initiate c eph time (tunnel_params c server_secret port sni) = Inr hs \<and>
    server_accept c server_secret eph_secret signing (Some uuid) (wire_hello hs) = Inr (sni, resp, s) \<and>
    complete c hs resp = (Inr (), hs') \<and>
    recv_all (deliver c hs') (vless_in_new uuid, 0) (send_all (exchange c hs') (out, 0, s) ms) =
      map (\<lambda>m. Inr (fst m)) ms"
proof -
  obtain hs resp s hs' where h: "initiate c eph time (tunnel_params c server_secret port sni) = Inr hs"
    "server_accept c server_secret eph_secret signing (Some uuid) (wire_hello hs) = Inr (sni, resp, s)"
    "complete c hs resp = (Inr (), hs')" and s: "linked hs' s" "ss_seq_in s = 0" "ss_seq_out s = 0" "ss_uuid s = Some uuid"
    "ss_reader s = Some (vision_reader_new uuid)" "ss_writer s = Some (vision_writer_new uuid)" "ss_request s = None"
    using tunnel_handshake [OF assms(1,2), of time signing "Some uuid"] by auto
  have sync: "exchange_synced c hs' (out, 0, s) (vless_in_new uuid, 0)"
    by (rule fresh_exchange [OF assms(1) s assms(3-6)])
  have "all_ok (exchange c hs') exchange_ok (out, 0, s) ms"
    using exchange_all_ok [OF sync assms(7)] assms(8) by simp
  from tunnel.run [OF sync this] h show ?thesis
    by (simp add: content_all_const)
qed

theorem tunnel_end_to_end_witness:
  "\<exists>hs resp s hs' out. initiate demo_crypto [3] 0 (tunnel_params demo_crypto [7] 443 [97, 46, 98]) = Inr hs \<and>
    server_accept demo_crypto [7] [5] [6] (Some demo_uuid) (wire_hello hs) = Inr ([97, 46, 98], resp, s) \<and>
    complete demo_crypto hs resp = (Inr (), hs') \<and>
    recv_all (deliver demo_crypto hs') (vless_in_new demo_uuid, 0)
      (send_all (exchange demo_crypto hs') (out, 0, s) [([1, 2], no_draw, no_draw), ([3], no_draw, no_draw)]) =
      [Inr [1, 2], Inr [3]]"
proof -
  obtain out where out: "vless_out_new demo_uuid None CMD_TCP (Ipv4 [1, 2, 3, 4]) 443 = Inr out"
    by (simp add: vless_out_new_def build_request_header_def proto_defs)
  show ?thesis
    using tunnel_end_to_end [OF demo_crypto_ok tunnel_ok_demo out, of "[([1, 2], no_draw, no_draw), ([3], no_draw, no_draw)]" 0 "[6]"]
    by (simp add: demo_uuid_def) blast
qed

text \<open>C2. A whole connection, byte for byte: the server accepts the client's hello, its response completes the
  client's handshake, and for every sequence of payloads (up to 60000 bytes each), raw or with VLESS,
  padded with any random draws, the frames the client writes make the server write back frames from which
  the client reads exactly those payloads, and the server ends with the observation of an authenticated
  session, the client's server name, the number of records and the request of the VLESS header with the
  total length of the payloads.\<close>

theorem server_session_observed:
  assumes "crypto_ok c" "tunnel_ok c server_secret port eph eph_secret sni" "\<forall>v. vp = Some v \<longrightarrow> vless_ok v"
    "\<forall>m \<in> set ms. length (fst m) \<le> 60000" "length ms < 2 ^ 64" "reliable z"
  shows "\<exists>hs resp hs' replies. initiate c eph time (tunnel_params c server_secret port sni) = Inr hs \<and>
    complete c hs resp = (Inr (), hs') \<and>
    run_server c server_secret eph_secret signing (map_option vp_uuid vp) rnds
      (map Byte (frames_wire (wire_hello hs # send_all (up_send c hs') (new_vless_out (client_mode vp), 0) ms))) z =
    (Inr \<lparr>so_sni = sni, session_authenticated = True, records_mirrored = word_of_nat (length ms),
       vless_request = server_saw vp (map fst ms)\<rparr>, z\<lparr>sent := sent z @ frames_wire (resp # replies)\<rparr>) \<and>
    recv_all (down_recv c hs') (map_option (\<lambda>v. vless_in_new (vp_uuid v)) vp, 0) replies = map (\<lambda>m. Inr (fst m)) ms"
proof -
  obtain hs resp s hs' where h: "initiate c eph time (tunnel_params c server_secret port sni) = Inr hs"
    "server_accept c server_secret eph_secret signing (map_option vp_uuid vp) (wire_hello hs) = Inr (sni, resp, s)"
    "complete c hs resp = (Inr (), hs')" and s: "linked hs' s" "ss_seq_in s = 0" "ss_seq_out s = 0" "ss_uuid s = map_option vp_uuid vp"
    "ss_reader s = map_option vision_reader_new (map_option vp_uuid vp)"
    "ss_writer s = map_option vision_writer_new (map_option vp_uuid vp)" "ss_request s = None" "ss_payload_bytes s = 0"
    and short: "length resp \<le> MAX_FRAME_LEN" "length (wire_hello hs) \<le> MAX_FRAME_LEN"
    using tunnel_handshake [OF assms(1,2), of time signing "map_option vp_uuid vp"] by blast
  let ?w = "(new_vless_out (client_mode vp), 0 :: u64)" and ?z = "z\<lparr>sent := sent z @ frame_wire resp\<rparr>"
  have "peer_ready c hs' (client_mode vp) 0 0 s"
    using assms(1,3) s by (auto simp: peer_ready_def client_mode_def split: option.splits)
  note sync = new_synced [OF this]
  have down: "going_down c hs' s (down_of s) [] [] (map_option (\<lambda>v. vless_in_new (vp_uuid v)) vp, 0)"
    by (rule in_transit_empty) (rule sync(2))
  have ok: "all_ok (up_send c hs') up_ok ?w ms"
    using up_all_ok [OF assms(4), of 0] assms(5) by simp
  obtain s' gs where loop: "server_loop c rnds (map Byte (frames_wire (send_all (up_send c hs') ?w ms))) ?z s =
      (Inr s', ?z\<lparr>sent := sent ?z @ frames_wire gs\<rparr>)"
    "going_down c hs' s' (down_of s') gs (map fst ms) (map_option (\<lambda>v. vless_in_new (vp_uuid v)) vp, 0)"
    "ss_seq_out s' = word_of_nat (length ms)" "ms = [] \<longrightarrow> s' = s"
    "ms \<noteq> [] \<longrightarrow> ss_request s' = observation ?w s (length (concat (map fst ms)))"
    using loop_answers [OF sync(1) ok down, of ?z rnds] assms(5,6) s(3,7,8) by (auto simp: counted_def)
  have saw: "ss_request s' = server_saw vp (map fst ms)"
    using loop(4,5) s(7) saw_observation [OF assms(3) s(7), of "map fst ms"]
    by (cases "ms = []") (simp_all add: server_saw_def split: option.split)
  have "run_server c server_secret eph_secret signing (map_option vp_uuid vp) rnds
      (map Byte (frames_wire (wire_hello hs # send_all (up_send c hs') ?w ms))) z =
    (Inr \<lparr>so_sni = sni, session_authenticated = True, records_mirrored = word_of_nat (length ms),
       vless_request = server_saw vp (map fst ms)\<rparr>, z\<lparr>sent := sent z @ frames_wire (resp # gs)\<rparr>)"
    using read_frame_wire [OF short(2), of "map Byte (frames_wire (send_all (up_send c hs') ?w ms))"]
      write_frame_reliable [OF assms(6) short(1)] h(2) loop(1,3) saw
    by (simp add: run_server_def frames_wire_def)
  moreover have "recv_all (down_recv c hs') (map_option (\<lambda>v. vless_in_new (vp_uuid v)) vp, 0) gs = map (\<lambda>m. Inr (fst m)) ms"
    using downlink.receive_all [OF loop(2)] by simp
  ultimately show ?thesis
    using h(1,3) by blast
qed

definition demo_vless :: vless_params where
  "demo_vless = \<lparr>vp_uuid = demo_uuid, vp_flow = None, vp_command = CMD_TCP, vp_address = Ipv4 [1, 2, 3, 4], vp_port = 443\<rparr>"

theorem server_session_observed_witness:
  "\<exists>hs resp hs' replies. initiate demo_crypto [3] 0 (tunnel_params demo_crypto [7] 443 [97, 46, 98]) = Inr hs \<and>
    run_server demo_crypto [7] [5] [6] (Some demo_uuid) (\<lambda>_. no_draw)
      (map Byte (frames_wire (wire_hello hs #
        send_all (up_send demo_crypto hs') (new_vless_out (client_mode (Some demo_vless)), 0) [([1, 2], no_draw), ([3], no_draw)])))
      demo_sink =
    (Inr \<lparr>so_sni = [97, 46, 98], session_authenticated = True, records_mirrored = 2,
       vless_request = server_saw (Some demo_vless) [[1, 2], [3]]\<rparr>, demo_sink\<lparr>sent := frames_wire (resp # replies)\<rparr>) \<and>
    recv_all (down_recv demo_crypto hs') (Some (vless_in_new demo_uuid), 0) replies = [Inr [1, 2], Inr [3]]"
proof -
  have "vless_ok demo_vless"
    by (simp add: vless_ok_def demo_vless_def vless_out_new_def build_request_header_def proto_defs demo_uuid_def)
  moreover have "reliable demo_sink" "sent demo_sink = []"
    by (simp_all add: reliable_def demo_sink_def)
  ultimately show ?thesis
    using server_session_observed [OF demo_crypto_ok tunnel_ok_demo, of "Some demo_vless" "[([1, 2], no_draw), ([3], no_draw)]"
        demo_sink 0 "[6]" "\<lambda>_. no_draw"]
    by (auto simp: demo_vless_def)
qed

text \<open>C40. The data-plane probe and the inner protocol do not go together: the probe record is mirrored by a
  server in raw mode, but a server that expects VLESS refuses it with \<open>UuidMismatch\<close>, because
  the probe is sealed without the Vision framing and is long enough to be taken for a frame.\<close>

theorem probe_refused_by_vless_server:
  assumes "crypto_ok c" "linked hs s" "ss_seq_in s = seq" "seq \<noteq> -1" "ss_seq_out s \<noteq> -1" "take 16 probe_bytes \<noteq> uuid"
  shows "\<exists>ct. seal_record c hs seq probe_bytes = Inr ct \<and>
    server_record c ct rnd (s\<lparr>ss_reader := Some (vision_reader_new uuid), ss_writer := Some (vision_writer_new uuid)\<rparr>) =
      Inl (Err (VisionUnpad UuidMismatch)) \<and>
    (\<exists>re s'. server_record c ct rnd (s\<lparr>ss_reader := None\<rparr>) = Inr (Some re, s') \<and>
      open_record c hs (ss_seq_out s) re = Inr probe_bytes)"
proof -
  have aead: "aead_exact c" using assms(1) by (simp add: crypto_ok_def)
  have len: "length probe_bytes = 24" by (simp add: probe_bytes_def)
  obtain ct where ct: "seal_record c hs seq probe_bytes = Inr ct" "length ct = length probe_bytes + 16"
    "aes256_decrypt c (ss_recv_key s) (derive_nonce c (ss_sid s) seq Client NONCE_PURPOSE_DATA) ct [] = Some probe_bytes"
    using seal_record_some [OF aead, of probe_bytes hs _ seq] assms(2) len by (auto simp: linked_def)
  obtain re where re: "aes256_encrypt c (ss_send_key s) (derive_nonce c (ss_sid s) (ss_seq_out s) Server NONCE_PURPOSE_DATA) probe_bytes [] = Some re"
    "aes256_decrypt c (ss_send_key s) (derive_nonce c (ss_sid s) (ss_seq_out s) Server NONCE_PURPOSE_DATA) re [] = Some probe_bytes"
    by (rule encrypt_some [OF aead, of probe_bytes "ss_send_key s"
          "derive_nonce c (ss_sid s) (ss_seq_out s) Server NONCE_PURPOSE_DATA" "[]"]) (simp_all add: len)
  have "ct \<noteq> []" using ct(2) by auto
  with ct assms len have "server_record c ct rnd (s\<lparr>ss_reader := Some (vision_reader_new uuid), ss_writer := Some (vision_writer_new uuid)\<rparr>) =
      Inl (Err (VisionUnpad UuidMismatch))"
    by (simp add: server_record_def u64_inc_def server_reply_def unpad_def vision_reader_new_def)
  moreover from \<open>ct \<noteq> []\<close> ct assms re have "\<exists>s'. server_record c ct rnd (s\<lparr>ss_reader := None\<rparr>) = Inr (Some re, s')"
    by (simp add: server_record_def u64_inc_def server_reply_def)
  moreover have "open_record c hs (ss_seq_out s) re = Inr probe_bytes"
    using assms(2) re(2) by (simp add: open_record_def hs_keys_def linked_def)
  ultimately show ?thesis
    using ct(1) by blast
qed

theorem probe_refused_by_vless_server_witness:
  "\<exists>ct. seal_record demo_crypto demo_keyed 0 probe_bytes = Inr ct \<and>
    server_record demo_crypto ct no_draw (demo_server\<lparr>ss_reader := Some (vision_reader_new (replicate 16 1)),
      ss_writer := Some (vision_writer_new (replicate 16 1))\<rparr>) = Inl (Err (VisionUnpad UuidMismatch))"
proof -
  have "take 16 probe_bytes ! 0 \<noteq> replicate 16 1 ! 0"
    by (simp add: probe_bytes_def ascii_def)
  then have "take 16 probe_bytes \<noteq> replicate 16 1"
    by metis
  moreover have "linked demo_keyed demo_server"
    by (simp add: linked_def demo_keyed_def demo_server_def demo_state_def)
  ultimately show ?thesis
    using probe_refused_by_vless_server [OF demo_crypto_ok, of demo_keyed demo_server 0 "replicate 16 1" no_draw]
    by (auto simp: demo_server_def)
qed

end
